(* ===== verification/Prelude.thy ===== *)
theory Prelude
  imports Main "HOL-Library.Word"
begin

unbundle bit_operations_syntax

text \<open>
  Shared layer of the MARTOS development.  It holds the result type of C code that may
  fail (\<open>fault\<close>), the state-and-fault monad the C functions are written in, a
  total-correctness predicate \<open>runs_to\<close> with its calculation rules
  (collections \<open>run_simps\<close> and, for a call applied to a state, \<open>run_apply\<close>), checked signed arithmetic, and generic facts about lists and words.
\<close>

section \<open>Faults and the state-and-fault monad\<close>

text \<open>
  What ends a C call abnormally: a failed \<open>assert\<close> (which disables interrupts and stops
  the system), an access through a null pointer, an intentional or accidental endless
  loop, signed overflow and a shift by a negative count (both undefined in C).
\<close>

datatype fault = AssertFailed | NullDeref | Hang | IntOverflow | BadShift

type_synonym ('s, 'a) M = "'s \<Rightarrow> fault + ('a \<times> 's)"

definition ret :: "'a \<Rightarrow> ('s, 'a) M" where
  "ret x = (\<lambda>s. Inr (x, s))"

definition throw :: "fault \<Rightarrow> ('s, 'a) M" where
  "throw e = (\<lambda>s. Inl e)"

definition bindM :: "('s, 'a) M \<Rightarrow> ('a \<Rightarrow> ('s, 'b) M) \<Rightarrow> ('s, 'b) M" where
  "bindM m k = (\<lambda>s. case m s of Inl e \<Rightarrow> Inl e | Inr (x, t) \<Rightarrow> k x t)"

definition seqM :: "('s, unit) M \<Rightarrow> ('s, 'b) M \<Rightarrow> ('s, 'b) M" where
  "seqM m k = bindM m (\<lambda>_. k)"

definition gets :: "('s \<Rightarrow> 'a) \<Rightarrow> ('s, 'a) M" where
  "gets f = (\<lambda>s. Inr (f s, s))"

definition modify :: "('s \<Rightarrow> 's) \<Rightarrow> ('s, unit) M" where
  "modify f = (\<lambda>s. Inr ((), f s))"

definition assertM :: "bool \<Rightarrow> ('s, unit) M" where
  "assertM b = (if b then ret () else throw AssertFailed)"

definition whenM :: "bool \<Rightarrow> ('s, unit) M \<Rightarrow> ('s, unit) M" where
  "whenM b m = (if b then m else ret ())"

definition lift_result :: "fault + 'a \<Rightarrow> ('s, 'a) M" where
  "lift_result r = (case r of Inl e \<Rightarrow> throw e | Inr x \<Rightarrow> ret x)"

text \<open>A loop whose value is \<open>None\<close> does not return: the call hangs.\<close>

definition of_loop :: "(fault + 'a) option \<Rightarrow> fault + 'a" where
  "of_loop r = (case r of None \<Rightarrow> Inl Hang | Some x \<Rightarrow> x)"

section \<open>Total correctness\<close>

text \<open>
  \<open>runs_to m s P\<close>: from state \<open>s\<close> the call returns without a fault and its value and
  final state satisfy \<open>P\<close>.
\<close>

definition runs_to :: "('s, 'a) M \<Rightarrow> 's \<Rightarrow> ('a \<Rightarrow> 's \<Rightarrow> bool) \<Rightarrow> bool" where
  "runs_to m s P = (case m s of Inl e \<Rightarrow> False | Inr (x, t) \<Rightarrow> P x t)"

named_theorems run_apply "the monad applied to a state"
named_theorems run_simps "total correctness of the monad's operations"
named_theorems kdefs "definitions of the kernel's straight-line functions"

lemma ret_apply [run_apply]: "ret x s = Inr (x, s)"
  by (simp add: ret_def)

lemma throw_apply [run_apply]: "throw e s = Inl e"
  by (simp add: throw_def)

lemma gets_apply [run_apply]: "gets f s = Inr (f s, s)"
  by (simp add: gets_def)

lemma modify_apply [run_apply]: "modify f s = Inr ((), f s)"
  by (simp add: modify_def)

lemma bindM_apply [run_apply]:
  "bindM m k s = (case m s of Inl e \<Rightarrow> Inl e | Inr (x, t) \<Rightarrow> k x t)"
  by (simp add: bindM_def)

lemma seqM_apply [run_apply]:
  "seqM m k s = (case m s of Inl e \<Rightarrow> Inl e | Inr (x, t) \<Rightarrow> k t)"
  by (simp add: seqM_def bindM_def)

lemma assertM_apply [run_apply]:
  "assertM b s = (if b then Inr ((), s) else Inl AssertFailed)"
  by (simp add: assertM_def ret_def throw_def)

lemma whenM_apply [run_apply]:
  "whenM b m s = (if b then m s else Inr ((), s))"
  by (simp add: whenM_def ret_def)

lemma lift_result_apply [run_apply]:
  "lift_result r s = (case r of Inl e \<Rightarrow> Inl e | Inr x \<Rightarrow> Inr (x, s))"
  by (cases r) (simp_all add: lift_result_def ret_def throw_def)

lemma of_loop_simps [simp]: "of_loop None = Inl Hang" "of_loop (Some x) = x"
  by (simp_all add: of_loop_def)

lemma runs_to_Inr: "m s = Inr (x, t) \<Longrightarrow> runs_to m s P = P x t"
  by (simp add: runs_to_def)

lemma runs_to_iff: "runs_to m s P \<longleftrightarrow> (\<exists>x t. m s = Inr (x, t) \<and> P x t)"
  by (auto simp: runs_to_def split: sum.splits)

lemma runs_toI: "m s = Inr (x, t) \<Longrightarrow> P x t \<Longrightarrow> runs_to m s P"
  by (simp add: runs_to_def)

lemma runs_toE:
  assumes "runs_to m s P"
  obtains x t where "m s = Inr (x, t)" and "P x t"
  using assms by (auto simp: runs_to_iff)

lemma runs_to_ret [run_simps]: "runs_to (ret x) s P = P x s"
  by (simp add: runs_to_def ret_def)

lemma runs_to_throw [run_simps]: "runs_to (throw e) s P = False"
  by (simp add: runs_to_def throw_def)

lemma runs_to_gets [run_simps]: "runs_to (gets f) s P = P (f s) s"
  by (simp add: runs_to_def gets_def)

lemma runs_to_modify [run_simps]: "runs_to (modify f) s P = P () (f s)"
  by (simp add: runs_to_def modify_def)

lemma runs_to_bindM [run_simps]:
  "runs_to (bindM m k) s P = runs_to m s (\<lambda>x t. runs_to (k x) t P)"
  by (auto simp: runs_to_def bindM_def split: sum.splits prod.splits)

lemma runs_to_seqM [run_simps]:
  "runs_to (seqM m k) s P = runs_to m s (\<lambda>_ t. runs_to k t P)"
  by (simp add: seqM_def runs_to_bindM)

lemma runs_to_assertM [run_simps]: "runs_to (assertM b) s P = (b \<and> P () s)"
  by (simp add: assertM_def run_simps)

lemma runs_to_whenM [run_simps]:
  "runs_to (whenM b m) s P = (if b then runs_to m s P else P () s)"
  by (simp add: whenM_def run_simps)

lemma runs_to_lift_result [run_simps]:
  "runs_to (lift_result r) s P = (case r of Inl e \<Rightarrow> False | Inr x \<Rightarrow> P x s)"
  by (cases r) (simp_all add: runs_to_def lift_result_def ret_def throw_def)

lemma runs_to_if [run_simps]:
  "runs_to (if b then m else n) s P = (if b then runs_to m s P else runs_to n s P)"
  by simp

lemma runs_to_weaken:
  "runs_to m s P \<Longrightarrow> (\<And>x t. P x t \<Longrightarrow> Q x t) \<Longrightarrow> runs_to m s Q"
  by (auto simp: runs_to_def split: sum.splits)

lemma runs_to_conj:
  "runs_to m s P \<Longrightarrow> runs_to m s Q \<Longrightarrow> runs_to m s (\<lambda>x t. P x t \<and> Q x t)"
  by (auto simp: runs_to_def split: sum.splits)

text \<open>A call repeated.\<close>

primrec repeatM :: "nat \<Rightarrow> ('s, unit) M \<Rightarrow> ('s, unit) M" where
  "repeatM 0 m = ret ()"
| "repeatM (Suc k) m = seqM m (repeatM k m)"

lemma runs_to_repeatM_Suc:
  "runs_to (repeatM (Suc k) m) s P = runs_to (repeatM k m) s (\<lambda>_ t. runs_to m t P)"
  by (induction k arbitrary: s) (simp_all add: run_simps)

section \<open>Running a component of the state\<close>

text \<open>
  A function that touches one field of a larger state runs on that field; \<open>on_field g u\<close>
  lifts it, \<open>g\<close> reading the field and \<open>u\<close> writing it back.
\<close>

definition on_field :: "('s \<Rightarrow> 'h) \<Rightarrow> ('h \<Rightarrow> 's \<Rightarrow> 's) \<Rightarrow> ('h, 'a) M \<Rightarrow> ('s, 'a) M" where
  "on_field g u m = (\<lambda>s. case m (g s) of Inl e \<Rightarrow> Inl e | Inr (x, h) \<Rightarrow> Inr (x, u h s))"

lemma runs_to_on_field [run_simps]:
  "runs_to (on_field g u m) s P = runs_to m (g s) (\<lambda>x h. P x (u h s))"
  by (auto simp: runs_to_def on_field_def split: sum.splits prod.splits)

lemma on_field_apply [run_apply]:
  "on_field g u m s = (case m (g s) of Inl e \<Rightarrow> Inl e | Inr (x, h) \<Rightarrow> Inr (x, u h s))"
  by (simp add: on_field_def)

section \<open>Checked signed arithmetic\<close>

text \<open>
  \<open>int_fast8_t\<close> and \<open>int_fast16_t\<close> are \<open>int\<close> on the ARM toolchain the makefiles name,
  so \<open>SignalNumber\<close>, \<open>NestCnt\<close> and \<open>SemaphoreCount\<close> are 32-bit signed.  They are
  modelled as \<open>int\<close>; an operation whose result leaves the range is a fault.
\<close>

definition INT32_MIN :: int where "INT32_MIN = - 2147483648"
definition INT32_MAX :: int where "INT32_MAX = 2147483647"

definition checked_int32 :: "int \<Rightarrow> fault + int" where
  "checked_int32 x = (if INT32_MIN \<le> x \<and> x \<le> INT32_MAX then Inr x else Inl IntOverflow)"

lemma checked_int32_ok [simp]:
  "INT32_MIN \<le> x \<Longrightarrow> x \<le> INT32_MAX \<Longrightarrow> checked_int32 x = Inr x"
  by (simp add: checked_int32_def)

lemmas int32_bounds = INT32_MIN_def INT32_MAX_def

text \<open>Conversion of an \<open>int\<close> to \<open>int16_t\<close>, as the compiler does it (modulo \<open>2 ^ 16\<close>).\<close>

definition to_int16 :: "int \<Rightarrow> int" where
  "to_int16 x = (x + 32768) mod 65536 - 32768"

lemma to_int16_id: "- 32768 \<le> x \<Longrightarrow> x < 32768 \<Longrightarrow> to_int16 x = x"
  by (simp add: to_int16_def)

lemma to_int16_range: "- 32768 \<le> to_int16 x \<and> to_int16 x < 32768"
  using pos_mod_bound [of 65536 "x + 32768"] pos_mod_sign [of 65536 "x + 32768"]
  by (simp add: to_int16_def)

section \<open>Generic facts on words\<close>

lemma and_or_eq_0: "(a OR b) AND c = 0 \<longleftrightarrow> a AND c = 0 \<and> b AND (c :: 'a::len word) = 0"
  by (auto simp: bit_eq_iff bit_simps)

lemma and_not_self [simp]: "(a AND NOT b) AND b = (0 :: 'a::len word)"
  by (auto simp: bit_eq_iff bit_simps)

lemma and_subset_eq_0: "a AND b = 0 \<Longrightarrow> (a AND c) AND b = (0 :: 'a::len word)"
  by (auto simp: bit_eq_iff bit_simps)

end
