(* ===== verification/Types.thy ===== *)
theory Types
  imports Prelude
begin

text \<open>
  The data of the kernel, from \<open>include/martos/martos.h\<close>, \<open>src/data.c\<close>,
  \<open>src/private.h\<close>, \<open>src/default_config.h\<close> and
  \<open>platforms/stm32f4-discovery/platform.h\<close>: the integer types at their width, the
  structures as records, the enumerations as datatypes, and the global state of the
  kernel as one record.
\<close>

section \<open>Integer types\<close>

text \<open>
  \<open>Node_Prio\<close> is \<open>int16_t\<close>: sixteen bits compared as a signed number.  The order of C's
  \<open><\<close> on it is the type's \<open>linorder\<close>.
\<close>

datatype Node_Prio = Prio (prio_bits: "16 word")

definition prio_val :: "Node_Prio \<Rightarrow> int" where
  "prio_val p = sint (prio_bits p)"

instantiation Node_Prio :: linorder
begin

definition less_eq_Node_Prio :: "Node_Prio \<Rightarrow> Node_Prio \<Rightarrow> bool" where
  "less_eq_Node_Prio p q = (prio_val p \<le> prio_val q)"

definition less_Node_Prio :: "Node_Prio \<Rightarrow> Node_Prio \<Rightarrow> bool" where
  "less_Node_Prio p q = (prio_val p < prio_val q)"

instance
proof
  fix p q :: Node_Prio
  assume "p \<le> q" and "q \<le> p"
  then have "prio_val p = prio_val q"
    by (simp add: less_eq_Node_Prio_def)
  then have "prio_bits p = prio_bits q"
    by (auto simp: prio_val_def intro: signed_word_eqI)
  then show "p = q"
    by (cases p, cases q) simp
qed (auto simp: less_eq_Node_Prio_def less_Node_Prio_def)

end

definition mk_prio :: "int \<Rightarrow> Node_Prio" where
  "mk_prio i = Prio (word_of_int i)"

definition NODE_PRIO_MIN :: Node_Prio where "NODE_PRIO_MIN = mk_prio (- 32768)"
definition NODE_PRIO_MAX :: Node_Prio where "NODE_PRIO_MAX = mk_prio 32767"
definition TASK_PRIO_MIN :: Node_Prio where "TASK_PRIO_MIN = mk_prio (- 32768)"
definition TASK_PRIO_MAX :: Node_Prio where "TASK_PRIO_MAX = mk_prio (32767 - 1)"
definition TASK_PRIO_EXCLUSIVE :: Node_Prio where "TASK_PRIO_EXCLUSIVE = mk_prio 32767"

type_synonym Signals = "16 word"
type_synonym SignalNumber = int
type_synonym NestCnt = int
type_synonym SemaphoreCount = int
type_synonym Ticks = "32 word"

definition SIGF_SINGLE :: Signals where "SIGF_SINGLE = 0x0001"
definition SIGNALS_WIDTH :: int where "SIGNALS_WIDTH = 16"

lemma prio_val_mk_prio: "- 32768 \<le> i \<Longrightarrow> i < 32768 \<Longrightarrow> prio_val (mk_prio i) = i"
  by (simp add: prio_val_def mk_prio_def sint_sbintrunc' signed_take_bit_int_eq_self)

lemma prio_val_range: "- 32768 \<le> prio_val p \<and> prio_val p \<le> 32767"
  using sint_greater_eq [of "prio_bits p"] sint_less [of "prio_bits p"]
  by (simp add: prio_val_def)

lemma prio_min_le: "TASK_PRIO_MIN \<le> p"
  using prio_val_range [of p]
  by (simp add: TASK_PRIO_MIN_def less_eq_Node_Prio_def prio_val_mk_prio)

lemma prio_le_exclusive: "p \<le> TASK_PRIO_EXCLUSIVE"
  using prio_val_range [of p]
  by (simp add: TASK_PRIO_EXCLUSIVE_def less_eq_Node_Prio_def prio_val_mk_prio)

section \<open>Pointers and list nodes\<close>

text \<open>
  A pointer is null, points to an object, or points to one of the two sentinels inside a
  \<open>List\<close>.  Objects and lists are named by natural numbers.  The structures of the kernel
  start with their \<open>Node\<close> or \<open>MinNode\<close>, so the casts between \<open>Node *\<close>, \<open>Task *\<close>,
  \<open>Timer *\<close>, \<open>Message *\<close> and \<open>SemaphoreRequest *\<close> keep the pointer; the link fields of
  every object are in one heap.  \<open>MinNode\<close> is the two link fields of \<open>Node\<close>; a node
  that the source declares as \<open>MinNode\<close> has meaningless name and priority.
\<close>

type_synonym addr = nat

datatype ptr = NULL | Obj addr | Head addr | Tail addr

record Node =
  nd_next :: ptr
  nd_prev :: ptr
  nd_name :: "string option"
  nd_prio :: Node_Prio

type_synonym heap = "ptr \<Rightarrow> Node"

section \<open>Tasks\<close>

datatype Task_State = TASK_INVALID | TASK_INITIALIZED | TASK_RUNNING | TASK_READY | TASK_WAITING

text \<open>\<open>TaskContext\<close>: the saved stack frame and the bounds of the stack, as byte addresses.\<close>

record TaskContext =
  cx_frame :: "32 word"
  cx_bos :: "32 word"
  cx_tos :: "32 word"

text \<open>The fields of \<open>Task\<close> after its \<open>node\<close>.\<close>

record Task =
  tk_context :: TaskContext
  tk_sig_alloc :: Signals
  tk_sig_wait :: Signals
  tk_sig_recvd :: Signals
  tk_id_nestcnt :: NestCnt
  tk_state :: Task_State

section \<open>Semaphores, message ports, timers\<close>

text \<open>
  \<open>Semaphore\<close> and \<open>MsgPort\<close> start with a \<open>List\<close>: the list of the object named \<open>a\<close> is
  the list named \<open>a\<close>.  The records hold the fields after it.
\<close>

record Semaphore =
  sm_count :: SemaphoreCount

record SemaphoreRequest =
  rq_waiter :: ptr
  rq_signal :: Signals

datatype MsgPort_Action = MSGPORT_INVALID | MSGPORT_SIGNAL | MSGPORT_IGNORE

record MsgPort =
  mp_task :: ptr
  mp_signal :: Signals
  mp_action :: MsgPort_Action

record Message =
  ms_reply_port :: "addr option"

datatype Timer_Operation = TIMER_NONE | TIMER_DELAY | TIMER_ALARM

datatype Timer_Status = TIMER_INVALID | TIMER_INITIALIZED | TIMER_ADDED | TIMER_DONE | TIMER_ABORTED

record Timer =
  tm_task :: ptr
  tm_signal :: Signals
  tm_delay :: Ticks
  tm_tick :: Ticks
  tm_op :: Timer_Operation
  tm_status :: Timer_Status

section \<open>Kernel state\<close>

text \<open>
  The globals of \<open>data.c\<close>, the clock of \<open>platform.c\<close>, the objects in memory, the stack
  memory as 32-bit words by byte address, and the two bits of the processor the kernel
  works with: PRIMASK (interrupts masked) and the pending bit of the PendSV exception.
  \<open>null_name\<close> is what reading \<open>node.name\<close> through a null pointer yields: \<open>None\<close> where
  the access traps, the bytes found there where address zero is readable memory (on the
  STM32F4 the vector table is mapped at zero).
\<close>

record kstate =
  nodes :: heap
  tasks :: "ptr \<Rightarrow> Task"
  sems :: "addr \<Rightarrow> Semaphore"
  reqs :: "ptr \<Rightarrow> SemaphoreRequest"
  ports :: "addr \<Rightarrow> MsgPort"
  msgs :: "ptr \<Rightarrow> Message"
  tmrs :: "ptr \<Rightarrow> Timer"
  ram :: "32 word \<Rightarrow> 32 word"
  id_nestcnt :: NestCnt
  elapsed :: "32 word"
  running :: ptr
  timer_now :: Ticks
  primask :: bool
  pendsv :: bool
  null_name :: "string option"

type_synonym 'a K = "(kstate, 'a) M"

text \<open>Addresses that the linker assigns.\<close>

record image =
  im_dead_end :: "32 word"
  im_init_task_f :: "32 word"
  im_init_task_stack :: "32 word"

text \<open>The static objects of the kernel: three lists and the init task.\<close>

definition ready :: addr where "ready = 1"
definition waiting :: addr where "waiting = 2"
definition timers :: addr where "timers = 3"
definition init_addr :: addr where "init_addr = 0"
definition init_task :: ptr where "init_task = Obj init_addr"

lemma static_lists_distinct [simp]:
  "ready \<noteq> waiting" "waiting \<noteq> ready" "ready \<noteq> timers" "timers \<noteq> ready"
  "waiting \<noteq> timers" "timers \<noteq> waiting"
  by (simp_all add: ready_def waiting_def timers_def)

definition QUANTUM :: "32 word" where "QUANTUM = 4"
definition INIT_TASK_STACK_SIZE :: "32 word" where "INIT_TASK_STACK_SIZE = 2048"

end
