(* ===== verification/ListC.thy ===== *)
theory ListC
  imports Types "HOL-Library.Multiset"
begin

text \<open>
  The intrusive doubly linked list of \<open>src/list.c\<close>, on the heap of link fields.  The
  definitions follow the C statements one by one; a loop that may not end on a damaged
  list is a \<open>partial_function (option)\<close>.  \<open>dll h l xs\<close> says that the list object \<open>l\<close>
  holds exactly the nodes \<open>xs\<close> in that order; every operation is shown to implement the
  corresponding operation on \<open>xs\<close> and to leave every other list alone.
\<close>

section \<open>Field access\<close>

definition get_next :: "ptr \<Rightarrow> (heap, ptr) M" where
  "get_next p = (\<lambda>h. if p = NULL then Inl NullDeref else Inr (nd_next (h p), h))"

definition get_prev :: "ptr \<Rightarrow> (heap, ptr) M" where
  "get_prev p = (\<lambda>h. if p = NULL then Inl NullDeref else Inr (nd_prev (h p), h))"

definition set_next :: "ptr \<Rightarrow> ptr \<Rightarrow> (heap, unit) M" where
  "set_next p q = (\<lambda>h. if p = NULL then Inl NullDeref
     else Inr ((), h(p := (h p)\<lparr>nd_next := q\<rparr>)))"

definition set_prev :: "ptr \<Rightarrow> ptr \<Rightarrow> (heap, unit) M" where
  "set_prev p q = (\<lambda>h. if p = NULL then Inl NullDeref
     else Inr ((), h(p := (h p)\<lparr>nd_prev := q\<rparr>)))"

section \<open>The functions of list.c\<close>

definition list_unlink :: "ptr \<Rightarrow> (heap, unit) M" where
  "list_unlink node =
     bindM (get_prev node) (\<lambda>p.
     bindM (get_next node) (\<lambda>n.
     seqM (set_next p n) (
     bindM (get_next node) (\<lambda>n'.
     bindM (get_prev node) (\<lambda>p'.
     set_prev n' p')))))"

definition list_init :: "addr \<Rightarrow> (heap, unit) M" where
  "list_init list =
     seqM (set_next (Head list) (Tail list)) (
     seqM (set_prev (Head list) NULL) (
     seqM (set_next (Tail list) NULL) (
     set_prev (Tail list) (Head list))))"

definition list_is_empty :: "addr \<Rightarrow> (heap, bool) M" where
  "list_is_empty list =
     bindM (get_prev (Tail list)) (\<lambda>p. ret (Head list = p))"

definition list_add_tail :: "addr \<Rightarrow> ptr \<Rightarrow> (heap, unit) M" where
  "list_add_tail list node =
     seqM (set_next node (Tail list)) (
     bindM (get_prev (Tail list)) (\<lambda>p.
     seqM (set_prev node p) (
     bindM (get_prev (Tail list)) (\<lambda>q.
     seqM (set_next q node) (
     set_prev (Tail list) node)))))"

definition list_get_head :: "addr \<Rightarrow> (heap, ptr) M" where
  "list_get_head list =
     bindM (list_is_empty list) (\<lambda>e.
       if e then ret NULL else get_next (Head list))"

definition list_rem_head :: "addr \<Rightarrow> (heap, ptr) M" where
  "list_rem_head list =
     bindM (list_get_head list) (\<lambda>node.
     seqM (whenM (node \<noteq> NULL) (list_unlink node)) (
     ret node))"

definition list_insert :: "addr \<Rightarrow> ptr \<Rightarrow> ptr \<Rightarrow> (heap, unit) M" where
  "list_insert list node prev =
     (if prev = NULL then
        \<comment> \<open>the call of \<open>list_add_head\<close> is compiled out: nothing happens\<close>
        assertM True
      else
        bindM (get_next prev) (\<lambda>pn.
          if pn \<noteq> NULL then
            seqM (set_next node pn) (
            seqM (set_prev node prev) (
            bindM (get_next prev) (\<lambda>pn'.
            seqM (set_prev pn' node) (
            set_next prev node))))
          else list_add_tail list node))"

text \<open>The loop of \<open>list_enqueue\<close>: the node to insert before.\<close>

partial_function (option) enqueue_scan ::
  "heap \<Rightarrow> Node_Prio \<Rightarrow> ptr \<Rightarrow> (fault + ptr) option" where
  "enqueue_scan h prio nextnode =
     (if nextnode = NULL then Some (Inl NullDeref)
      else if nd_next (h nextnode) = NULL then Some (Inr nextnode)
      else if nd_prio (h nextnode) < prio then Some (Inr nextnode)
      else enqueue_scan h prio (nd_next (h nextnode)))"

definition list_enqueue :: "addr \<Rightarrow> ptr \<Rightarrow> (heap, unit) M" where
  "list_enqueue list node =
     bindM (get_next (Head list)) (\<lambda>first.
     bindM (gets (\<lambda>h. of_loop (enqueue_scan h (nd_prio (h node)) first))) (\<lambda>r.
     bindM (lift_result r) (\<lambda>nextnode.
     seqM (set_next node nextnode) (
     bindM (get_prev nextnode) (\<lambda>p.
     seqM (set_prev node p) (
     bindM (get_prev nextnode) (\<lambda>q.
     seqM (set_next q node) (
     set_prev nextnode node))))))))"

text \<open>
  The standard \<open>strcmp\<close> on C strings (without the terminating zero): zero, or the
  difference of the first characters that differ.
\<close>

fun strcmp_chars :: "string \<Rightarrow> string \<Rightarrow> int" where
  "strcmp_chars [] [] = 0"
| "strcmp_chars [] (d # ds) = - int (of_char d)"
| "strcmp_chars (c # cs) [] = int (of_char c)"
| "strcmp_chars (c # cs) (d # ds) =
     (if c = d then strcmp_chars cs ds else int (of_char c) - int (of_char d))"

definition strcmp :: "string option \<Rightarrow> string option \<Rightarrow> fault + int" where
  "strcmp a b = (case (a, b) of
       (Some x, Some y) \<Rightarrow> Inr (strcmp_chars x y)
     | _ \<Rightarrow> Inl NullDeref)"

partial_function (option) find_scan ::
  "heap \<Rightarrow> string option \<Rightarrow> ptr \<Rightarrow> (fault + ptr) option" where
  "find_scan h name nextnode =
     (if nextnode = NULL then Some (Inl NullDeref)
      else if nd_next (h nextnode) = NULL then Some (Inr NULL)
      else case strcmp (nd_name (h nextnode)) name of
        Inl e \<Rightarrow> Some (Inl e)
      | Inr d \<Rightarrow> if d = 0 then Some (Inr nextnode)
                 else find_scan h name (nd_next (h nextnode)))"

definition list_find :: "addr \<Rightarrow> string option \<Rightarrow> (heap, ptr) M" where
  "list_find start name =
     bindM (get_next (Head start)) (\<lambda>first.
     bindM (gets (\<lambda>h. of_loop (find_scan h name first))) lift_result)"

section \<open>The list a list object holds\<close>

text \<open>
  \<open>linked h ps\<close>: consecutive pointers of \<open>ps\<close> are each other's \<open>next\<close> and \<open>prev\<close>.
  \<open>cells l xs\<close> is the whole chain of a list object, sentinels included.
\<close>

fun linked :: "heap \<Rightarrow> ptr list \<Rightarrow> bool" where
  "linked h (p # q # ps) = (nd_next (h p) = q \<and> nd_prev (h q) = p \<and> linked h (q # ps))"
| "linked h ps = True"

definition cells :: "addr \<Rightarrow> addr list \<Rightarrow> ptr list" where
  "cells l xs = Head l # map Obj xs @ [Tail l]"

definition dll :: "heap \<Rightarrow> addr \<Rightarrow> addr list \<Rightarrow> bool" where
  "dll h l xs = (linked h (cells l xs) \<and> nd_prev (h (Head l)) = NULL
     \<and> nd_next (h (Tail l)) = NULL \<and> distinct xs)"

definition prio_of :: "heap \<Rightarrow> addr \<Rightarrow> Node_Prio" where
  "prio_of h x = nd_prio (h (Obj x))"

text \<open>What two heaps agree on.\<close>

definition same_data :: "heap \<Rightarrow> heap \<Rightarrow> bool" where
  "same_data h h' = (\<forall>p. nd_name (h' p) = nd_name (h p) \<and> nd_prio (h' p) = nd_prio (h p))"

definition frame :: "heap \<Rightarrow> heap \<Rightarrow> ptr set \<Rightarrow> bool" where
  "frame h h' F = (same_data h h' \<and> (\<forall>p. p \<notin> F \<longrightarrow> h' p = h p))"

lemma frame_refl [simp]: "frame h h F"
  by (simp add: frame_def same_data_def)

lemma frame_trans: "frame h h1 F \<Longrightarrow> frame h1 h2 F \<Longrightarrow> frame h h2 F"
  by (simp add: frame_def same_data_def)

lemma frame_mono: "frame h h' F \<Longrightarrow> F \<subseteq> G \<Longrightarrow> frame h h' G"
  by (auto simp: frame_def)

lemma frame_prio: "frame h h' F \<Longrightarrow> nd_prio (h' p) = nd_prio (h p)"
  by (simp add: frame_def same_data_def)

lemma frame_name: "frame h h' F \<Longrightarrow> nd_name (h' p) = nd_name (h p)"
  by (simp add: frame_def same_data_def)

lemma set_cells: "set (cells l xs) = {Head l, Tail l} \<union> Obj ` set xs"
  by (auto simp: cells_def)

lemma distinct_cells [simp]: "distinct (cells l xs) = distinct xs"
  by (auto simp: cells_def distinct_map inj_on_def)

lemma linked_cong:
  "(\<And>p. p \<in> set ps \<Longrightarrow> nd_next (h' p) = nd_next (h p) \<and> nd_prev (h' p) = nd_prev (h p)) \<Longrightarrow>
   linked h' ps = linked h ps"
  by (induction h ps rule: linked.induct) auto

lemma dll_frame:
  assumes "dll h l xs" and "frame h h' F" and "F \<inter> set (cells l xs) = {}"
  shows "dll h' l xs"
proof -
  have eq: "h' p = h p" if "p \<in> set (cells l xs)" for p
    using assms(2,3) that by (auto simp: frame_def)
  then have "linked h' (cells l xs) = linked h (cells l xs)"
    by (intro linked_cong) simp
  moreover have "h' (Head l) = h (Head l)" "h' (Tail l) = h (Tail l)"
    by (simp_all add: eq set_cells)
  ultimately show ?thesis
    using assms(1) by (simp add: dll_def)
qed

lemma linked_append:
  "linked h (ps @ q # qs) \<longleftrightarrow> linked h (ps @ [q]) \<and> linked h (q # qs)"
  by (induction h ps rule: linked.induct) auto

lemma linked_mid:
  "linked h (ps @ [p, q] @ qs) \<longleftrightarrow>
   linked h (ps @ [p]) \<and> nd_next (h p) = q \<and> nd_prev (h q) = p \<and> linked h (q # qs)"
  using linked_append [of h ps p "q # qs"] by auto

text \<open>
  Writing \<open>next\<close> matters only for a chain that continues after the node, writing \<open>prev\<close>
  only for a chain that has something before it.
\<close>

lemma linked_set_next:
  "p \<notin> set (butlast ps) \<Longrightarrow> linked (h(p := (h p)\<lparr>nd_next := q\<rparr>)) ps = linked h ps"
  by (induction h ps rule: linked.induct) (auto split: if_splits)

lemma linked_set_prev:
  "p \<notin> set (tl ps) \<Longrightarrow> linked (h(p := (h p)\<lparr>nd_prev := q\<rparr>)) ps = linked h ps"
  by (induction h ps rule: linked.induct) (auto split: if_splits)

text \<open>The neighbours of a position in the chain.\<close>

definition before :: "addr \<Rightarrow> addr list \<Rightarrow> ptr" where
  "before l xs = last (Head l # map Obj xs)"

definition after :: "addr \<Rightarrow> addr list \<Rightarrow> ptr" where
  "after l ys = hd (map Obj ys @ [Tail l])"

lemma before_simps [simp]: "before l [] = Head l" "before l (xs @ [x]) = Obj x"
  by (simp_all add: before_def)

lemma after_simps [simp]: "after l [] = Tail l" "after l (y # ys) = Obj y"
  by (simp_all add: after_def)

lemma before_not_null [simp]: "before l xs \<noteq> NULL" "NULL \<noteq> before l xs"
  by (cases xs rule: rev_cases; simp)+

lemma after_not_null [simp]: "after l ys \<noteq> NULL" "NULL \<noteq> after l ys"
  by (cases ys; simp)+

lemma before_in_cells: "before l xs \<in> set (cells l (xs @ ys))"
  by (cases xs rule: rev_cases) (auto simp: set_cells)

lemma after_in_cells: "after l ys \<in> set (cells l (xs @ ys))"
  by (cases ys) (auto simp: set_cells)

lemma before_cases: "before l xs = Head l \<or> (\<exists>x \<in> set xs. before l xs = Obj x)"
  by (cases xs rule: rev_cases) auto

lemma after_cases: "after l ys = Tail l \<or> (\<exists>y \<in> set ys. after l ys = Obj y)"
  by (cases ys) auto

lemma linked_snoc:
  "ps \<noteq> [] \<Longrightarrow> linked h (ps @ [q]) \<longleftrightarrow>
     linked h ps \<and> nd_next (h (last ps)) = q \<and> nd_prev (h q) = last ps"
  by (induction h ps rule: linked.induct) auto

lemma linked_Cons:
  "ps \<noteq> [] \<Longrightarrow> linked h (q # ps) \<longleftrightarrow>
     nd_next (h q) = hd ps \<and> nd_prev (h (hd ps)) = q \<and> linked h ps"
  by (cases ps) auto

lemma dll_split:
  "dll h l (xs @ ys) \<longleftrightarrow>
     linked h (Head l # map Obj xs) \<and> linked h (map Obj ys @ [Tail l])
     \<and> nd_next (h (before l xs)) = after l ys \<and> nd_prev (h (after l ys)) = before l xs
     \<and> nd_prev (h (Head l)) = NULL \<and> nd_next (h (Tail l)) = NULL \<and> distinct (xs @ ys)"
proof -
  let ?p = "Head l # map Obj xs" and ?q = "map Obj ys @ [Tail l]"
  have q: "?q = hd ?q # tl ?q" by (cases ys) auto
  have "linked h (cells l (xs @ ys)) = linked h (?p @ hd ?q # tl ?q)"
    using q by (simp add: cells_def)
  also have "\<dots> \<longleftrightarrow> linked h (?p @ [hd ?q]) \<and> linked h (hd ?q # tl ?q)"
    by (rule linked_append)
  also have "\<dots> \<longleftrightarrow> linked h ?p \<and> nd_next (h (before l xs)) = after l ys
      \<and> nd_prev (h (after l ys)) = before l xs \<and> linked h ?q"
    using linked_snoc [of ?p h "hd ?q"] q by (auto simp: before_def after_def)
  finally show ?thesis by (auto simp: dll_def)
qed

text \<open>The heap after linking \<open>n\<close> between \<open>a\<close> and \<open>b\<close>, and after bypassing what is between.\<close>

definition link_in :: "heap \<Rightarrow> ptr \<Rightarrow> ptr \<Rightarrow> ptr \<Rightarrow> heap" where
  "link_in h a n b =
     (let h1 = h(n := (h n)\<lparr>nd_next := b, nd_prev := a\<rparr>);
          h2 = h1(a := (h1 a)\<lparr>nd_next := n\<rparr>)
      in h2(b := (h2 b)\<lparr>nd_prev := n\<rparr>))"

definition link_out :: "heap \<Rightarrow> ptr \<Rightarrow> ptr \<Rightarrow> heap" where
  "link_out h a b =
     (let h1 = h(a := (h a)\<lparr>nd_next := b\<rparr>) in h1(b := (h1 b)\<lparr>nd_prev := a\<rparr>))"

lemma frame_link_in: "frame h (link_in h a n b) {a, n, b}"
  by (simp add: frame_def same_data_def link_in_def Let_def)

lemma frame_link_out: "frame h (link_out h a b) {a, b}"
  by (simp add: frame_def same_data_def link_out_def Let_def)

lemma link_in_next:
  "a \<noteq> n \<Longrightarrow> nd_next (link_in h a n b p) = (if p = a then n else if p = n then b else nd_next (h p))"
  by (simp add: link_in_def Let_def)

lemma link_in_prev:
  "b \<noteq> n \<Longrightarrow> nd_prev (link_in h a n b p) = (if p = b then n else if p = n then a else nd_prev (h p))"
  by (simp add: link_in_def Let_def)

lemma link_out_next: "nd_next (link_out h a b p) = (if p = a then b else nd_next (h p))"
  by (simp add: link_out_def Let_def)

lemma link_out_prev: "nd_prev (link_out h a b p) = (if p = b then a else nd_prev (h p))"
  by (simp add: link_out_def Let_def)

lemma linked_fields:
  "(\<And>p. p \<in> set (butlast ps) \<Longrightarrow> nd_next (h' p) = nd_next (h p)) \<Longrightarrow>
   (\<And>p. p \<in> set (tl ps) \<Longrightarrow> nd_prev (h' p) = nd_prev (h p)) \<Longrightarrow>
   linked h' ps = linked h ps"
  by (induction h ps rule: linked.induct) auto

lemma distinct_last_butlast: "distinct ps \<Longrightarrow> last ps \<notin> set (butlast ps)"
  by (induction ps) auto

lemma distinct_hd_tl: "distinct ps \<Longrightarrow> hd ps \<notin> set (tl ps)"
  by (cases ps) (auto simp: list.set_sel)

text \<open>The two halves of a chain, apart from their ends.\<close>

lemma prefix_apart:
  assumes "distinct (xs @ ys)"
  shows "before l xs \<notin> set (butlast (Head l # map Obj xs))"
    and "after l ys \<notin> set (Head l # map Obj xs)"
proof -
  have "distinct (Head l # map Obj xs)"
    using assms by (auto simp: distinct_map inj_on_def)
  then show "before l xs \<notin> set (butlast (Head l # map Obj xs))"
    unfolding before_def by (rule distinct_last_butlast)
  show "after l ys \<notin> set (Head l # map Obj xs)"
    using assms after_cases [of l ys] by auto
qed

lemma suffix_apart:
  assumes "distinct (xs @ ys)"
  shows "after l ys \<notin> set (tl (map Obj ys @ [Tail l]))"
    and "before l xs \<notin> set (map Obj ys @ [Tail l])"
proof -
  have "distinct (map Obj ys @ [Tail l])"
    using assms by (auto simp: distinct_map inj_on_def)
  then show "after l ys \<notin> set (tl (map Obj ys @ [Tail l]))"
    unfolding after_def by (rule distinct_hd_tl)
  show "before l xs \<notin> set (map Obj ys @ [Tail l])"
    using assms before_cases [of l xs] by auto
qed

lemma dll_link_in:
  assumes d: "dll h l (xs @ ys)" and n: "n \<notin> set (xs @ ys)"
  shows "dll (link_in h (before l xs) (Obj n) (after l ys)) l (xs @ n # ys)"
proof -
  let ?a = "before l xs" and ?b = "after l ys"
  let ?h = "link_in h ?a (Obj n) ?b"
  have dist: "distinct (xs @ ys)" using d by (simp add: dll_split)
  have ne: "?a \<noteq> Obj n" "?b \<noteq> Obj n" "?a \<noteq> Tail l" "?b \<noteq> Head l"
    using n before_cases [of l xs] after_cases [of l ys] by auto
  note F = link_in_next [OF ne(1)] link_in_prev [OF ne(2)]
  have "linked ?h (Head l # map Obj xs) = linked h (Head l # map Obj xs)"
    using prefix_apart [OF dist, of l] n
    by (intro linked_fields) (auto simp: F image_iff dest: in_set_butlastD split: if_splits)
  moreover have "linked ?h (map Obj ys @ [Tail l]) = linked h (map Obj ys @ [Tail l])"
    using suffix_apart [OF dist, of l] n ne
    by (intro linked_fields) (auto simp: F image_iff dest: in_set_butlastD list.set_sel(2) [rotated] split: if_splits)
  ultimately have "linked ?h (Head l # map Obj xs)" "linked ?h (map Obj ys @ [Tail l])"
    using d by (simp_all add: dll_split)
  then have "linked ?h (map Obj (n # ys) @ [Tail l])"
    using linked_Cons [of "map Obj ys @ [Tail l]" ?h "Obj n"] ne
    by (simp add: F after_def [symmetric] del: linked.simps)
  with \<open>linked ?h (Head l # map Obj xs)\<close> show ?thesis
    using d n ne by (simp add: dll_split F del: linked.simps)
qed

lemma dll_link_out:
  assumes d: "dll h l (xs @ x # ys)"
  shows "dll (link_out h (before l xs) (after l ys)) l (xs @ ys)"
proof -
  let ?a = "before l xs" and ?b = "after l ys"
  let ?h = "link_out h ?a ?b"
  have dist: "distinct (xs @ ys)" using d by (simp add: dll_def)
  have d2: "dll h l ((xs @ [x]) @ ys)" using d by simp
  have "linked ?h (Head l # map Obj xs) = linked h (Head l # map Obj xs)"
    using prefix_apart [OF dist, of l]
    by (intro linked_fields)
      (auto simp: link_out_next link_out_prev image_iff dest: in_set_butlastD split: if_splits)
  moreover have "linked ?h (map Obj ys @ [Tail l]) = linked h (map Obj ys @ [Tail l])"
    using suffix_apart [OF dist, of l]
    by (intro linked_fields) 
      (auto simp: link_out_next link_out_prev image_iff dest: in_set_butlastD list.set_sel(2) [rotated] split: if_splits)
  moreover have "?a \<noteq> Tail l" "?b \<noteq> Head l"
    using before_cases [of l xs] after_cases [of l ys] by auto
  ultimately show ?thesis
    using d d2 dist unfolding dll_split by (simp add: link_out_next link_out_prev del: linked.simps)
qed

section \<open>Each operation on a well-formed list\<close>

lemma dll_neighbours:
  assumes "dll h l (xs @ x # ys)"
  shows "nd_prev (h (Obj x)) = before l xs" and "nd_next (h (Obj x)) = after l ys"
  using assms dll_split [of h l xs "x # ys"] dll_split [of h l "xs @ [x]" ys] by simp_all

lemma dll_ends:
  assumes "dll h l xs"
  shows "nd_next (h (Head l)) = after l xs" and "nd_prev (h (Tail l)) = before l xs"
    and "nd_prev (h (Head l)) = NULL" and "nd_next (h (Tail l)) = NULL" and "distinct xs"
  using assms dll_split [of h l "[]" xs] dll_split [of h l xs "[]"] by simp_all

lemmas field_defs = get_next_def get_prev_def set_next_def set_prev_def

lemma list_init_dll: "\<exists>h'. list_init l h = Inr ((), h') \<and> dll h' l [] \<and> frame h h' {Head l, Tail l}"
  by (simp add: list_init_def field_defs run_apply dll_def cells_def frame_def same_data_def)

lemma list_is_empty_dll: "dll h l xs \<Longrightarrow> list_is_empty l h = Inr (xs = [], h)"
  by (cases xs rule: rev_cases) (auto simp: list_is_empty_def field_defs run_apply dest: dll_ends)

lemma list_get_head_dll:
  "dll h l xs \<Longrightarrow> list_get_head l h = Inr (case xs of [] \<Rightarrow> NULL | x # _ \<Rightarrow> Obj x, h)"
  by (cases xs) (auto simp: list_get_head_def bindM_apply list_is_empty_dll ret_apply field_defs dest: dll_ends)

lemma list_unlink_dll:
  assumes "dll h l (xs @ x # ys)"
  shows "list_unlink (Obj x) h = Inr ((), link_out h (before l xs) (after l ys))"
proof -
  have "before l xs \<noteq> Obj x"
    using assms before_cases [of l xs] by (auto simp: dll_def)
  then show ?thesis
    using dll_neighbours [OF assms]
    by (simp add: list_unlink_def field_defs run_apply link_out_def Let_def)
qed

lemma list_rem_head_empty: "dll h l [] \<Longrightarrow> list_rem_head l h = Inr (NULL, h)"
  by (simp add: list_rem_head_def list_get_head_dll run_apply)

lemma list_rem_head_dll:
  "dll h l (x # xs) \<Longrightarrow> list_rem_head l h = Inr (Obj x, link_out h (Head l) (after l xs))"
  using list_unlink_dll [of h l "[]" x xs] by (simp add: list_rem_head_def list_get_head_dll run_apply)

lemma list_add_tail_dll:
  assumes "dll h l xs" and "n \<notin> set xs"
  shows "list_add_tail l (Obj n) h = Inr ((), link_in h (before l xs) (Obj n) (Tail l))"
  using dll_ends(2) [OF assms(1)]
  by (simp add: list_add_tail_def field_defs run_apply link_in_def Let_def)

section \<open>Priority order\<close>

definition enqueue_spec :: "('a \<Rightarrow> 'p::linorder) \<Rightarrow> 'a \<Rightarrow> 'a list \<Rightarrow> 'a list" where
  "enqueue_spec pr n xs =
     takeWhile (\<lambda>y. pr n \<le> pr y) xs @ n # dropWhile (\<lambda>y. pr n \<le> pr y) xs"

definition sorted_prio :: "('a \<Rightarrow> 'p::linorder) \<Rightarrow> 'a list \<Rightarrow> bool" where
  "sorted_prio pr xs = sorted_wrt (\<lambda>x y. pr y \<le> pr x) xs"

lemma enqueue_scan_dll:
  assumes "dll h l (xs @ ys)"
  shows "enqueue_scan h p (after l ys) =
     Some (Inr (after l (dropWhile (\<lambda>y. p \<le> nd_prio (h (Obj y))) ys)))"
  using assms
proof (induction ys arbitrary: xs)
  case Nil
  then show ?case
    using dll_ends(4) [of h l xs] by (subst enqueue_scan.simps) simp
next
  case (Cons y ys)
  then have "dll h l ((xs @ [y]) @ ys)" by simp
  then have "enqueue_scan h p (after l ys) =
      Some (Inr (after l (dropWhile (\<lambda>y. p \<le> nd_prio (h (Obj y))) ys)))"
    by (rule Cons.IH)
  then show ?case
    using dll_neighbours(2) [OF Cons.prems]
    by (subst enqueue_scan.simps) (auto simp: not_le not_less)
qed

lemma list_enqueue_dll:
  assumes d: "dll h l xs" and n: "n \<notin> set xs"
  defines "pre \<equiv> takeWhile (\<lambda>y. nd_prio (h (Obj n)) \<le> nd_prio (h (Obj y))) xs"
    and "post \<equiv> dropWhile (\<lambda>y. nd_prio (h (Obj n)) \<le> nd_prio (h (Obj y))) xs"
  shows "list_enqueue l (Obj n) h = Inr ((), link_in h (before l pre) (Obj n) (after l post))"
proof -
  have split: "xs = pre @ post" by (simp add: pre_def post_def)
  have "nd_prev (h (after l post)) = before l pre"
    using d dll_split [of h l pre post] split by simp
  moreover have "enqueue_scan h (nd_prio (h (Obj n))) (nd_next (h (Head l))) = Some (Inr (after l post))"
    using enqueue_scan_dll [of h l "[]" xs] d dll_ends(1) [OF d] by (simp add: post_def)
  moreover have "after l post \<noteq> Obj n"
    using n split after_cases [of l post] by auto
  ultimately show ?thesis
    by (simp add: list_enqueue_def field_defs run_apply link_in_def Let_def)
qed

lemma mset_enqueue_spec: "mset (enqueue_spec pr n xs) = add_mset n (mset xs)"
proof -
  have "mset (enqueue_spec pr n xs) =
      add_mset n (mset (takeWhile (\<lambda>y. pr n \<le> pr y) xs @ dropWhile (\<lambda>y. pr n \<le> pr y) xs))"
    by (simp add: enqueue_spec_def del: takeWhile_dropWhile_id)
  then show ?thesis by simp
qed

lemma set_enqueue_spec [simp]: "set (enqueue_spec pr n xs) = insert n (set xs)"
  using arg_cong [OF mset_enqueue_spec [of pr n xs], of set_mset] by simp

lemma distinct_enqueue_spec [simp]:
  "distinct (enqueue_spec pr n xs) \<longleftrightarrow> n \<notin> set xs \<and> distinct xs"
  using mset_eq_imp_distinct_iff [of "enqueue_spec pr n xs" "n # xs"]
  by (simp add: mset_enqueue_spec)

lemma length_enqueue_spec [simp]: "length (enqueue_spec pr n xs) = Suc (length xs)"
  using arg_cong [OF mset_enqueue_spec [of pr n xs], of size] by simp

lemma enqueue_spec_not_Nil [simp]: "enqueue_spec pr n xs \<noteq> []"
  by (simp add: enqueue_spec_def)

lemma sorted_enqueue_spec:
  "sorted_prio pr xs \<Longrightarrow> sorted_prio pr (enqueue_spec pr n xs)"
  unfolding sorted_prio_def enqueue_spec_def
  by (induction xs) (auto dest: set_takeWhileD set_dropWhileD order_trans)

text \<open>Inserting before the first lower node keeps nodes of equal priority in arrival order.\<close>

lemma filter_enqueue_spec:
  "sorted_prio pr xs \<Longrightarrow>
   filter (\<lambda>x. pr x = p) (enqueue_spec pr n xs) =
   filter (\<lambda>x. pr x = p) xs @ (if pr n = p then [n] else [])"
proof (induction xs)
  case (Cons x xs)
  show ?case
  proof (cases "pr n \<le> pr x")
    case True
    with Cons show ?thesis by (auto simp: enqueue_spec_def sorted_prio_def)
  next
    case False
    with Cons.prems have "\<forall>y \<in> set (x # xs). pr y < pr n" by (auto simp: sorted_prio_def)
    then have "pr n = p \<Longrightarrow> filter (\<lambda>x. pr x = p) (x # xs) = []" by (auto simp: filter_empty_conv)
    with False show ?thesis by (cases "pr n = p") (simp_all add: enqueue_spec_def)
  qed
qed (simp add: enqueue_spec_def)

lemma fold_enqueue_spec:
  "sorted_prio pr (fold (enqueue_spec pr) ns []) \<and> mset (fold (enqueue_spec pr) ns []) = mset ns
   \<and> filter (\<lambda>x. pr x = p) (fold (enqueue_spec pr) ns []) = filter (\<lambda>x. pr x = p) ns"
  by (induction ns rule: rev_induct)
    (simp_all add: sorted_prio_def [of pr "[]"] sorted_enqueue_spec mset_enqueue_spec filter_enqueue_spec)

text \<open>Repeated insertion is the library's stable sort, by descending priority.\<close>

lemma fold_enqueue_from:
  assumes "sorted_prio pr xs"
  shows "sorted_prio pr (fold (enqueue_spec pr) ns xs) \<and> mset (fold (enqueue_spec pr) ns xs) = mset (xs @ ns)
   \<and> filter (\<lambda>x. pr x = p) (fold (enqueue_spec pr) ns xs) = filter (\<lambda>x. pr x = p) (xs @ ns)"
  using assms by (induction ns rule: rev_induct) (simp_all add: sorted_enqueue_spec mset_enqueue_spec filter_enqueue_spec)

lemma fold_enqueue_sort_key:
  fixes key :: "'a \<Rightarrow> 'k::linorder"
  assumes "sorted_prio pr xs" and key: "\<And>x y. key x \<le> key y \<longleftrightarrow> pr y \<le> pr x"
  shows "fold (enqueue_spec pr) ns xs = sort_key key (xs @ ns)"
proof (rule properties_for_sort_key [symmetric])
  note f = fold_enqueue_from [OF assms(1)]
  have same: "key k = key x \<longleftrightarrow> pr x = pr k" for k x using key [of k x] key [of x k] by (auto simp: order.eq_iff)
  show "mset (fold (enqueue_spec pr) ns xs) = mset (xs @ ns)" using f by blast
  show "filter (\<lambda>x. key k = key x) (fold (enqueue_spec pr) ns xs) = filter (\<lambda>x. key k = key x) (xs @ ns)" for k
    unfolding same using f by blast
  show "sorted (map key (fold (enqueue_spec pr) ns xs))"
    using f by (simp add: sorted_map sorted_prio_def key)
qed

section \<open>Searching by name\<close>

definition c_string :: "string \<Rightarrow> bool" where
  "c_string s = (CHR 0x00 \<notin> set s)"

lemma of_char_0_iff: "(of_char c :: nat) = 0 \<longleftrightarrow> c = CHR 0x00"
proof -
  have "(of_char c :: nat) = of_char (CHR 0x00) \<longleftrightarrow> c = CHR 0x00"
    by (rule of_char_eq_iff)
  then show ?thesis by simp
qed

lemma strcmp_chars_0:
  "c_string a \<Longrightarrow> c_string b \<Longrightarrow> strcmp_chars a b = 0 \<longleftrightarrow> a = b"
  by (induction a b rule: strcmp_chars.induct) (auto simp: c_string_def of_char_0_iff)

definition names_ok :: "heap \<Rightarrow> addr list \<Rightarrow> bool" where
  "names_ok h xs = (\<forall>x \<in> set xs. \<exists>s. nd_name (h (Obj x)) = Some s \<and> c_string s)"

definition find_spec :: "heap \<Rightarrow> string \<Rightarrow> addr list \<Rightarrow> ptr" where
  "find_spec h name xs =
     (case find (\<lambda>x. nd_name (h (Obj x)) = Some name) xs of None \<Rightarrow> NULL | Some x \<Rightarrow> Obj x)"

lemma find_scan_dll:
  assumes "dll h l (xs @ ys)" and "names_ok h ys" and "c_string name"
  shows "find_scan h (Some name) (after l ys) = Some (Inr (find_spec h name ys))"
  using assms(1,2)
proof (induction ys arbitrary: xs)
  case Nil
  then show ?case
    using dll_ends(4) [of h l xs] by (subst find_scan.simps) (simp add: find_spec_def)
next
  case (Cons y ys)
  from Cons.prems(2) obtain s where s: "nd_name (h (Obj y)) = Some s" "c_string s"
    by (auto simp: names_ok_def)
  from Cons.prems have "dll h l ((xs @ [y]) @ ys)" "names_ok h ys"
    by (simp_all add: names_ok_def)
  then have IH: "find_scan h (Some name) (after l ys) = Some (Inr (find_spec h name ys))"
    by (rule Cons.IH)
  have nx: "nd_next (h (Obj y)) = after l ys"
    by (rule dll_neighbours(2) [OF Cons.prems(1)])
  show ?case
    using s IH strcmp_chars_0 [OF s(2) assms(3)] nx
    by (subst find_scan.simps) (simp add: strcmp_def find_spec_def)
qed

lemma list_find_dll:
  assumes "dll h l xs" and "names_ok h xs" and "c_string name"
  shows "list_find l (Some name) h = Inr (find_spec h name xs, h)"
  using find_scan_dll [of h l "[]" xs name] assms dll_ends(1) [OF assms(1)]
  by (simp add: list_find_def field_defs run_apply)

section \<open>All lists of a heap\<close>

text \<open>
  The abstract view of the heap: which list objects are initialised and what each holds.
  No node is on two lists.
\<close>

type_synonym lists = "addr \<rightharpoonup> addr list"

definition lists_ok :: "heap \<Rightarrow> lists \<Rightarrow> bool" where
  "lists_ok h L = ((\<forall>l xs. L l = Some xs \<longrightarrow> dll h l xs)
     \<and> (\<forall>l l' xs ys. L l = Some xs \<longrightarrow> L l' = Some ys \<longrightarrow> l \<noteq> l' \<longrightarrow> set xs \<inter> set ys = {}))"

definition unlinked :: "lists \<Rightarrow> addr \<Rightarrow> bool" where
  "unlinked L n = (\<forall>l xs. L l = Some xs \<longrightarrow> n \<notin> set xs)"

lemma unlinkedD: "unlinked L n \<Longrightarrow> L l = Some xs \<Longrightarrow> n \<notin> set xs"
  by (simp add: unlinked_def)

lemma lists_ok_dll: "lists_ok h L \<Longrightarrow> L l = Some xs \<Longrightarrow> dll h l xs"
  by (simp add: lists_ok_def)

lemma lists_ok_distinct: "lists_ok h L \<Longrightarrow> L l = Some xs \<Longrightarrow> distinct xs"
  by (auto dest: lists_ok_dll simp: dll_def)

lemma lists_ok_disjoint:
  "lists_ok h L \<Longrightarrow> L l = Some xs \<Longrightarrow> L l' = Some ys \<Longrightarrow> l \<noteq> l' \<Longrightarrow> set xs \<inter> set ys = {}"
  by (simp add: lists_ok_def)

text \<open>
  Replacing the contents of one list: the new nodes come from the old contents or from no
  list, and nothing but the list's own cells and its new nodes was written.
\<close>

lemma lists_ok_update:
  assumes ok: "lists_ok h L" and l: "L l = Some xs \<or> xs = []"
    and new: "dll h' l zs" "set zs \<subseteq> set xs \<union> N" "\<And>n. n \<in> N \<Longrightarrow> unlinked L n"
    and fr: "frame h h' (set (cells l xs) \<union> Obj ` N)"
  shows "lists_ok h' (L(l \<mapsto> zs))"
proof -
  have other: "dll h' k ys \<and> set zs \<inter> set ys = {}" if k: "L k = Some ys" "k \<noteq> l" for k ys
  proof -
    have dis: "set xs \<inter> set ys = {}" "N \<inter> set ys = {}"
      using l lists_ok_disjoint [OF ok _ k(1), of l xs] k new(3)
      by (auto simp: unlinked_def)
    then have "(set (cells l xs) \<union> Obj ` N) \<inter> set (cells k ys) = {}"
      using k(2) by (auto simp: set_cells)
    with dis new(2) show ?thesis
      using dll_frame [OF lists_ok_dll [OF ok k(1)] fr] by auto
  qed
  show ?thesis
    unfolding lists_ok_def
  proof (intro conjI allI impI)
    fix k ys assume "(L(l \<mapsto> zs)) k = Some ys"
    then show "dll h' k ys" using new(1) other by (auto split: if_splits)
  next
    fix k k' ys ys' assume "(L(l \<mapsto> zs)) k = Some ys" "(L(l \<mapsto> zs)) k' = Some ys'" "k \<noteq> k'"
    then show "set ys \<inter> set ys' = {}"
      using other lists_ok_disjoint [OF ok] by (fastforce split: if_splits)
  qed
qed

lemma frame_same_data: "frame h h' F \<Longrightarrow> same_data h h'"
  by (simp add: frame_def)

lemma same_data_refl [simp]: "same_data h h"
  by (simp add: same_data_def)

lemma same_data_prio_of: "same_data h h' \<Longrightarrow> prio_of h' = prio_of h"
  by (simp add: same_data_def prio_of_def fun_eq_iff)

lemma same_data_trans: "same_data h h1 \<Longrightarrow> same_data h1 h2 \<Longrightarrow> same_data h h2"
  by (simp add: same_data_def)

text \<open>Linking a fresh node in at any position, and taking one out.\<close>

lemma lists_ok_link_in:
  assumes ok: "lists_ok h L" and l: "L l = Some (pre @ post)" and n: "unlinked L n"
  shows "lists_ok (link_in h (before l pre) (Obj n) (after l post)) (L(l \<mapsto> pre @ n # post))"
proof (rule lists_ok_update [OF ok, where xs = "pre @ post" and N = "{n}"])
  have "n \<notin> set (pre @ post)" using n l by (rule unlinkedD)
  with lists_ok_dll [OF ok l] show "dll (link_in h (before l pre) (Obj n) (after l post)) l (pre @ n # post)"
    by (rule dll_link_in)
  show "frame h (link_in h (before l pre) (Obj n) (after l post))
      (set (cells l (pre @ post)) \<union> Obj ` {n})"
    by (rule frame_mono [OF frame_link_in]) (simp add: before_in_cells after_in_cells)
qed (use l n in auto)

lemma lists_ok_link_out:
  assumes ok: "lists_ok h L" and l: "L l = Some (pre @ x # post)"
  shows "lists_ok (link_out h (before l pre) (after l post)) (L(l \<mapsto> pre @ post))"
proof (rule lists_ok_update [OF ok, where xs = "pre @ x # post" and N = "{}"])
  show "dll (link_out h (before l pre) (after l post)) l (pre @ post)"
    by (rule dll_link_out [OF lists_ok_dll [OF ok l]])
  show "frame h (link_out h (before l pre) (after l post))
      (set (cells l (pre @ x # post)) \<union> Obj ` {})"
    using before_in_cells [of l pre "x # post"] after_in_cells [of l post "pre @ [x]"]
    by (intro frame_mono [OF frame_link_out]) simp
qed (use l in auto)

lemma list_init_lists:
  assumes "lists_ok h L"
  shows "runs_to (list_init l) h (\<lambda>_ h'. lists_ok h' (L(l \<mapsto> [])) \<and> same_data h h')"
proof -
  obtain h' where h': "list_init l h = Inr ((), h')" "dll h' l []" "frame h h' {Head l, Tail l}"
    using list_init_dll by blast
  have "lists_ok h' (L(l \<mapsto> []))"
    by (rule lists_ok_update [OF assms, where xs = "[]" and N = "{}"])
      (use h' in \<open>auto simp: cells_def\<close>)
  with h' show ?thesis by (simp add: runs_to_Inr frame_same_data)
qed

lemma list_add_tail_lists:
  assumes "lists_ok h L" "L l = Some xs" "unlinked L n"
  shows "runs_to (list_add_tail l (Obj n)) h
     (\<lambda>_ h'. lists_ok h' (L(l \<mapsto> xs @ [n])) \<and> same_data h h')"
  using assms lists_ok_link_in [of h L l xs "[]" n]
  by (simp add: runs_to_def list_add_tail_dll [OF lists_ok_dll unlinkedD] frame_same_data [OF frame_link_in])

lemma list_enqueue_lists:
  assumes "lists_ok h L" "L l = Some xs" "unlinked L n"
  shows "runs_to (list_enqueue l (Obj n)) h
     (\<lambda>_ h'. lists_ok h' (L(l \<mapsto> enqueue_spec (prio_of h) n xs)) \<and> same_data h h')"
proof -
  let ?P = "\<lambda>y. nd_prio (h (Obj n)) \<le> nd_prio (h (Obj y))"
  let ?h = "link_in h (before l (takeWhile ?P xs)) (Obj n) (after l (dropWhile ?P xs))"
  have "lists_ok ?h (L(l \<mapsto> enqueue_spec (prio_of h) n xs)) \<and> same_data h ?h"
    using assms lists_ok_link_in [of h L l "takeWhile ?P xs" "dropWhile ?P xs" n]
    by (simp add: enqueue_spec_def prio_of_def frame_same_data [OF frame_link_in])
  then show ?thesis
    using assms by (simp add: runs_to_def list_enqueue_dll [OF lists_ok_dll unlinkedD])
qed

lemma list_unlink_lists:
  assumes "lists_ok h L" "L l = Some xs" "x \<in> set xs"
  shows "runs_to (list_unlink (Obj x)) h
     (\<lambda>_ h'. lists_ok h' (L(l \<mapsto> remove1 x xs)) \<and> same_data h h'
        \<and> nd_next (h' (Obj x)) = nd_next (h (Obj x)))"
proof -
  obtain pre post where xs: "xs = pre @ x # post"
    using assms(3) by (auto simp: in_set_conv_decomp)
  have "x \<notin> set pre" "x \<notin> set post"
    using lists_ok_distinct [OF assms(1,2)] xs by auto
  then have r: "remove1 x xs = pre @ post" and ne: "before l pre \<noteq> Obj x"
    using xs before_cases [of l pre] by (auto simp: remove1_append)
  have l: "L l = Some (pre @ x # post)" using assms(2) xs by simp
  show ?thesis
    unfolding r
    using ne by (simp add: runs_to_def list_unlink_dll [OF lists_ok_dll [OF assms(1) l]]
        lists_ok_link_out [OF assms(1) l] frame_same_data [OF frame_link_out] link_out_next)
qed

lemma list_rem_head_lists:
  assumes "lists_ok h L" "L l = Some xs"
  shows "runs_to (list_rem_head l) h (\<lambda>r h'.
     r = (case xs of [] \<Rightarrow> NULL | x # _ \<Rightarrow> Obj x) \<and> lists_ok h' (L(l \<mapsto> tl xs)) \<and> same_data h h')"
proof (cases xs)
  case Nil
  with assms have d: "dll h l []" by (auto dest: lists_ok_dll)
  show ?thesis
    using assms Nil by (simp add: runs_to_def list_rem_head_empty [OF d] fun_upd_idem)
next
  case (Cons x ys)
  with assms have d: "dll h l (x # ys)" by (auto dest: lists_ok_dll)
  show ?thesis
    using assms Cons lists_ok_link_out [of h L l "[]" x ys]
    by (simp add: runs_to_def list_rem_head_dll [OF d] frame_same_data [OF frame_link_out])
qed

lemma list_insert_lists:
  assumes "lists_ok h L" "L l = Some (pre @ post)" "unlinked L n"
  shows "runs_to (list_insert l (Obj n) (before l pre)) h
     (\<lambda>_ h'. lists_ok h' (L(l \<mapsto> pre @ n # post)) \<and> same_data h h')"
proof -
  have d: "dll h l (pre @ post)" by (rule lists_ok_dll [OF assms(1,2)])
  have n: "n \<notin> set (pre @ post)" using assms(3,2) by (rule unlinkedD)
  then have ne: "before l pre \<noteq> Obj n" "after l post \<noteq> Obj n"
    using before_cases [of l pre] after_cases [of l post] by auto
  have ab: "before l pre \<noteq> after l post"
    using d before_cases [of l pre] after_cases [of l post] by (auto simp: dll_def)
  have nx: "nd_next (h (before l pre)) = after l post" using d by (simp add: dll_split)
  have "list_insert l (Obj n) (before l pre) h =
      Inr ((), link_in h (before l pre) (Obj n) (after l post))"
    using nx ne ab by (simp add: list_insert_def field_defs run_apply link_in_def Let_def fun_upd_twist)
  then show ?thesis
    using lists_ok_link_in [OF assms] by (simp add: runs_to_Inr frame_same_data [OF frame_link_in])
qed

section \<open>The interface the kernel uses\<close>

text \<open>Sequences of calls: inserting the nodes \<open>ns\<close> one after the other, removing \<open>n\<close> heads.\<close>

primrec put_all :: "(addr \<Rightarrow> ptr \<Rightarrow> (heap, unit) M) \<Rightarrow> addr \<Rightarrow> addr list \<Rightarrow> (heap, unit) M" where
  "put_all put l [] = ret ()"
| "put_all put l (n # ns) = seqM (put l (Obj n)) (put_all put l ns)"

primrec take_all :: "(addr \<Rightarrow> (heap, ptr) M) \<Rightarrow> addr \<Rightarrow> nat \<Rightarrow> (heap, ptr list) M" where
  "take_all rem l 0 = ret []"
| "take_all rem l (Suc n) = bindM (rem l) (\<lambda>p. bindM (take_all rem l n) (\<lambda>ps. ret (p # ps)))"

text \<open>
  What the clients of \<open>list.c\<close> rely on.  \<open>ok h L\<close> relates a heap to the contents of its
  lists; every operation acts on one list and keeps all others.
\<close>

locale list_ops =
  fixes ok :: "heap \<Rightarrow> lists \<Rightarrow> bool"
    and init :: "addr \<Rightarrow> (heap, unit) M"
    and add_tail :: "addr \<Rightarrow> ptr \<Rightarrow> (heap, unit) M"
    and enqueue :: "addr \<Rightarrow> ptr \<Rightarrow> (heap, unit) M"
    and unlink :: "ptr \<Rightarrow> (heap, unit) M"
    and rem_head :: "addr \<Rightarrow> (heap, ptr) M"
  assumes ok_distinct: "ok h L \<Longrightarrow> L l = Some xs \<Longrightarrow> distinct xs"
    and ok_disjoint: "ok h L \<Longrightarrow> L l = Some xs \<Longrightarrow> L l' = Some ys \<Longrightarrow> l \<noteq> l' \<Longrightarrow> set xs \<inter> set ys = {}"
    and init_law: "ok h L \<Longrightarrow> runs_to (init l) h (\<lambda>_ h'. ok h' (L(l \<mapsto> [])) \<and> same_data h h')"
    and add_tail_law: "ok h L \<Longrightarrow> L l = Some xs \<Longrightarrow> unlinked L n \<Longrightarrow>
      runs_to (add_tail l (Obj n)) h (\<lambda>_ h'. ok h' (L(l \<mapsto> xs @ [n])) \<and> same_data h h')"
    and enqueue_law: "ok h L \<Longrightarrow> L l = Some xs \<Longrightarrow> unlinked L n \<Longrightarrow>
      runs_to (enqueue l (Obj n)) h
        (\<lambda>_ h'. ok h' (L(l \<mapsto> enqueue_spec (prio_of h) n xs)) \<and> same_data h h')"
    and unlink_law: "ok h L \<Longrightarrow> L l = Some xs \<Longrightarrow> x \<in> set xs \<Longrightarrow>
      runs_to (unlink (Obj x)) h (\<lambda>_ h'. ok h' (L(l \<mapsto> remove1 x xs)) \<and> same_data h h'
        \<and> nd_next (h' (Obj x)) = nd_next (h (Obj x)))"
    and rem_head_law: "ok h L \<Longrightarrow> L l = Some xs \<Longrightarrow>
      runs_to (rem_head l) h (\<lambda>r h'. r = (case xs of [] \<Rightarrow> NULL | x # _ \<Rightarrow> Obj x)
        \<and> ok h' (L(l \<mapsto> tl xs)) \<and> same_data h h')"
begin

lemma unlinked_remove1:
  assumes "ok h L" and "L l = Some xs" and "x \<in> set xs"
  shows "unlinked (L(l \<mapsto> remove1 x xs)) x"
  using ok_distinct [OF assms(1,2)] ok_disjoint [OF assms(1,2)] assms(3)
  by (fastforce simp: unlinked_def)

text \<open>Moving a node from one list into priority position on another.\<close>

lemma move_enqueue:
  assumes ok: "ok h L" and k: "L k = Some ws" "n \<in> set ws" and l: "L l = Some rs" "k \<noteq> l"
  shows "runs_to (seqM (unlink (Obj n)) (enqueue l (Obj n))) h
     (\<lambda>_ h'. ok h' (L(k \<mapsto> remove1 n ws, l \<mapsto> enqueue_spec (prio_of h) n rs))
        \<and> same_data h h')"
  unfolding run_simps
proof (rule runs_to_weaken [OF unlink_law [OF ok k]])
  fix x h1
  assume h1: "ok h1 (L(k \<mapsto> remove1 n ws)) \<and> same_data h h1
      \<and> nd_next (h1 (Obj n)) = nd_next (h (Obj n))"
  then have pr: "prio_of h1 = prio_of h"
    by (simp add: same_data_prio_of)
  show "runs_to (enqueue l (Obj n)) h1 (\<lambda>_ h'. ok h' (L(k \<mapsto> remove1 n ws,
      l \<mapsto> enqueue_spec (prio_of h) n rs)) \<and> same_data h h')"
    using h1 l unlinked_remove1 [OF ok k]
    by (intro runs_to_weaken [OF enqueue_law [of h1 "L(k \<mapsto> remove1 n ws)" l rs n]])
      (auto simp: pr intro: same_data_trans)
qed

text \<open>Putting a node in priority position and taking the head off: what a context switch does.\<close>

lemma enqueue_rem_head:
  assumes ok: "ok h L" and l: "L l = Some rs" and n: "unlinked L n"
  defines "q \<equiv> enqueue_spec (prio_of h) n rs"
  shows "runs_to (seqM (enqueue l (Obj n)) (rem_head l)) h
     (\<lambda>r h'. r = Obj (hd q) \<and> ok h' (L(l \<mapsto> tl q)) \<and> same_data h h')"
  unfolding run_simps
proof (rule runs_to_weaken [OF enqueue_law [OF ok l n]])
  fix x h1
  assume h1: "ok h1 (L(l \<mapsto> enqueue_spec (prio_of h) n rs)) \<and> same_data h h1"
  obtain y ys where q: "q = y # ys"
    unfolding q_def enqueue_spec_def by (metis append_is_Nil_conv list.exhaust list.distinct(1))
  with h1 have ok1: "ok h1 (L(l \<mapsto> y # ys))" by (simp add: q_def)
  show "runs_to (rem_head l) h1 (\<lambda>r h'. r = Obj (hd q) \<and> ok h' (L(l \<mapsto> tl q)) \<and> same_data h h')"
    using h1 by (intro runs_to_weaken [OF rem_head_law [OF ok1]]) (auto simp: q intro: same_data_trans)
qed

text \<open>A queue filled with any insertion that obeys \<open>step\<close> and then drained.\<close>

lemma put_all_law:
  assumes law: "\<And>h L xs n. ok h L \<Longrightarrow> L l = Some xs \<Longrightarrow> unlinked L n \<Longrightarrow>
      runs_to (put l (Obj n)) h (\<lambda>_ h'. ok h' (L(l \<mapsto> step (prio_of h) n xs)) \<and> same_data h h')"
    and "set_step": "\<And>pr n xs. set (step pr n xs) \<subseteq> insert n (set xs)"
    and "ok h L" "L l = Some xs" "distinct ns" "\<forall>n \<in> set ns. unlinked L n"
  shows "runs_to (put_all put l ns) h
     (\<lambda>_ h'. ok h' (L(l \<mapsto> fold (step (prio_of h)) ns xs)) \<and> same_data h h')"
  using assms(3-)
proof (induction ns arbitrary: h L xs)
  case Nil
  then show ?case by (simp add: run_simps fun_upd_idem)
next
  case (Cons n ns)
  show ?case
    unfolding put_all.simps run_simps
  proof (rule runs_to_weaken [OF law [OF Cons.prems(1,2)]])
    show "unlinked L n" using Cons.prems by simp
    fix x h1
    let ?L = "L(l \<mapsto> step (prio_of h) n xs)"
    assume h1: "ok h1 ?L \<and> same_data h h1"
    then have pr: "prio_of h1 = prio_of h"
      by (simp add: same_data_prio_of)
    have "\<forall>m \<in> set ns. unlinked ?L m"
      using Cons.prems set_step [of "prio_of h" n xs]
      by (fastforce simp: unlinked_def split: if_splits)
    with h1 Cons.prems(3) have "runs_to (put_all put l ns) h1
        (\<lambda>_ h'. ok h' (?L(l \<mapsto> fold (step (prio_of h1)) ns (step (prio_of h) n xs))) \<and> same_data h1 h')"
      by (intro Cons.IH) (auto simp: fun_upd_def)
    then show "runs_to (put_all put l ns) h1
        (\<lambda>_ h'. ok h' (L(l \<mapsto> fold (step (prio_of h)) (n # ns) xs)) \<and> same_data h h')"
      by (rule runs_to_weaken) (use h1 in \<open>auto simp: pr intro: same_data_trans\<close>)
  qed
qed

lemma take_all_law:
  "ok h L \<Longrightarrow> L l = Some xs \<Longrightarrow>
   runs_to (take_all rem_head l (length xs)) h
     (\<lambda>ps h'. ps = map Obj xs \<and> ok h' (L(l \<mapsto> [])) \<and> same_data h h')"
proof (induction xs arbitrary: h L)
  case Nil
  then show ?case by (simp add: run_simps fun_upd_idem)
next
  case (Cons x xs)
  show ?case
    unfolding list.size take_all.simps add_0_right add_Suc_right run_simps
  proof (rule runs_to_weaken [OF rem_head_law [OF Cons.prems]])
    fix r h1
    assume "r = (case x # xs of [] \<Rightarrow> NULL | x # _ \<Rightarrow> Obj x)
        \<and> ok h1 (L(l \<mapsto> tl (x # xs))) \<and> same_data h h1"
    then have h1: "r = Obj x" "ok h1 (L(l \<mapsto> xs))" "same_data h h1" by simp_all
    have "runs_to (take_all rem_head l (length xs)) h1
        (\<lambda>ps h'. ps = map Obj xs \<and> ok h' (L(l \<mapsto> xs, l \<mapsto> [])) \<and> same_data h1 h')"
      by (intro Cons.IH) (use h1 in \<open>auto simp: fun_upd_def\<close>)
    then show "runs_to (take_all rem_head l (length xs)) h1
        (\<lambda>ps h'. r # ps = map Obj (x # xs) \<and> ok h' (L(l \<mapsto> [])) \<and> same_data h h')"
      by (rule runs_to_weaken) (use h1 in \<open>auto intro: same_data_trans\<close>)
  qed
qed

text \<open>First in, first out.\<close>

lemma fifo:
  assumes "ok h L" "L l = Some xs" "distinct ns" "\<forall>n \<in> set ns. unlinked L n"
  shows "runs_to (seqM (put_all add_tail l ns) (take_all rem_head l (length xs + length ns))) h
     (\<lambda>ps h'. ps = map Obj (xs @ ns) \<and> ok h' (L(l \<mapsto> [])) \<and> same_data h h')"
  unfolding run_simps
proof (rule runs_to_weaken [OF put_all_law [where step = "\<lambda>_ n xs. xs @ [n]" and put = add_tail and l = l, OF add_tail_law _ assms]])
  fix u h1
  assume "ok h1 (L(l \<mapsto> fold (\<lambda>n xs. xs @ [n]) ns xs)) \<and> same_data h h1"
  moreover have "fold (\<lambda>n xs. xs @ [n]) ns xs = xs @ ns"
    by (induction ns arbitrary: xs) simp_all
  ultimately have h1: "ok h1 (L(l \<mapsto> xs @ ns))" "same_data h h1" by simp_all
  then show "runs_to (take_all rem_head l (length xs + length ns)) h1
      (\<lambda>ps h'. ps = map Obj (xs @ ns) \<and> ok h' (L(l \<mapsto> [])) \<and> same_data h h')"
    using take_all_law [OF h1(1), of l "xs @ ns"]
    by (auto elim!: runs_to_weaken intro: same_data_trans)
qed auto

text \<open>Highest priority first, and first in, first out among equals.\<close>

lemma by_priority:
  assumes "ok h L" "L l = Some []" "distinct ns" "\<forall>n \<in> set ns. unlinked L n"
  shows "runs_to (seqM (put_all enqueue l ns) (take_all rem_head l (length ns))) h
     (\<lambda>ps h'. ps = map Obj (fold (enqueue_spec (prio_of h)) ns []) \<and> ok h' (L(l \<mapsto> [])) \<and> same_data h h')"
  unfolding run_simps
proof (rule runs_to_weaken [OF put_all_law [where step = enqueue_spec and put = enqueue and l = l, OF enqueue_law _ assms]])
  fix u h1
  let ?q = "fold (enqueue_spec (prio_of h)) ns []"
  assume h1: "ok h1 (L(l \<mapsto> ?q)) \<and> same_data h h1"
  have "length ?q = length ns"
    by (induction ns rule: rev_induct) simp_all
  then show "runs_to (take_all rem_head l (length ns)) h1
      (\<lambda>ps h'. ps = map Obj ?q \<and> ok h' (L(l \<mapsto> [])) \<and> same_data h h')"
    using take_all_law [of h1 "L(l \<mapsto> ?q)" l ?q] h1
    by (auto elim!: runs_to_weaken intro: same_data_trans)
qed auto

end

interpretation lc: list_ops lists_ok list_init list_add_tail list_enqueue list_unlink list_rem_head
  by unfold_locales
    (fact lists_ok_distinct lists_ok_disjoint list_init_lists list_add_tail_lists
      list_enqueue_lists list_unlink_lists list_rem_head_lists)+

text \<open>A heap on which every list object is initialised and empty.\<close>

definition blank_heap :: "(addr \<Rightarrow> Node_Prio) \<Rightarrow> (addr \<Rightarrow> string option) \<Rightarrow> heap" where
  "blank_heap pr nm p = (case p of
       Head l \<Rightarrow> \<lparr>nd_next = Tail l, nd_prev = NULL, nd_name = None, nd_prio = mk_prio 0\<rparr>
     | Tail l \<Rightarrow> \<lparr>nd_next = NULL, nd_prev = Head l, nd_name = None, nd_prio = mk_prio 0\<rparr>
     | Obj n \<Rightarrow> \<lparr>nd_next = NULL, nd_prev = NULL, nd_name = nm n, nd_prio = pr n\<rparr>
     | NULL \<Rightarrow> \<lparr>nd_next = NULL, nd_prev = NULL, nd_name = None, nd_prio = mk_prio 0\<rparr>)"

lemma dll_blank: "dll (blank_heap pr nm) l []"
  by (simp add: dll_def cells_def blank_heap_def)

lemma lists_ok_blank: "ran L \<subseteq> {[]} \<Longrightarrow> lists_ok (blank_heap pr nm) L"
  using dll_blank by (fastforce simp: lists_ok_def ran_def)

lemma unlinked_blank: "ran L \<subseteq> {[]} \<Longrightarrow> unlinked L n"
  by (fastforce simp: unlinked_def ran_def)

section \<open>Properties\<close>

text \<open>
  C2: \<open>list_enqueue\<close> sorts.  Nodes enqueued in whatever order on a list that is in priority order, and
  taken off again with \<open>list_rem_head\<close>, come out as the library's stable sort of the list followed by the new nodes, by
  descending priority; the list is empty afterwards and no other list of the system changes.
\<close>

theorem enqueue_stable_sort:
  assumes "lists_ok h L" and "L l = Some xs" and "sorted_prio (prio_of h) xs"
    and "distinct ns" and "\<forall>n \<in> set ns. unlinked L n"
  shows "runs_to (seqM (put_all list_enqueue l ns) (take_all list_rem_head l (length xs + length ns))) h
     (\<lambda>ps h'. ps = map Obj (sort_key (\<lambda>x. - prio_val (prio_of h x)) (xs @ ns)) \<and> lists_ok h' (L(l \<mapsto> [])))"
  unfolding run_simps
proof (rule runs_to_weaken [OF lc.put_all_law [where step = enqueue_spec and put = list_enqueue and l = l, OF lc.enqueue_law _ assms(1,2,4,5)]])
  let ?q = "sort_key (\<lambda>x. - prio_val (prio_of h x)) (xs @ ns)"
  fix u h1
  assume "lists_ok h1 (L(l \<mapsto> fold (enqueue_spec (prio_of h)) ns xs)) \<and> same_data h h1"
  then have h1: "lists_ok h1 (L(l \<mapsto> ?q))"
    using fold_enqueue_sort_key [OF assms(3), of "\<lambda>x. - prio_val (prio_of h x)" ns] by (simp add: less_eq_Node_Prio_def)
  show "runs_to (take_all list_rem_head l (length xs + length ns)) h1 (\<lambda>ps h'. ps = map Obj ?q \<and> lists_ok h' (L(l \<mapsto> [])))"
    using lc.take_all_law [OF h1, of l ?q] by (auto elim!: runs_to_weaken)
qed auto

theorem enqueue_stable_sort_witness:
  "runs_to (seqM (put_all list_enqueue 1 [7, 8, 9]) (take_all list_rem_head 1 (length ([] :: addr list) + length [7, 8, 9 :: addr])))
     (blank_heap (\<lambda>n. mk_prio (if n = 8 then 5 else 3)) (\<lambda>_. None))
     (\<lambda>ps h'. ps = map Obj (sort_key (\<lambda>x. - prio_val (prio_of (blank_heap (\<lambda>n. mk_prio (if n = 8 then 5 else 3)) (\<lambda>_. None)) x)) ([] @ [7, 8, 9]))
        \<and> lists_ok h' ([1 \<mapsto> []](1 \<mapsto> [])))"
  by (rule enqueue_stable_sort) (simp_all add: lists_ok_blank unlinked_blank sorted_prio_def)

text \<open>
  \<open>list_enqueue\<close> and \<open>list_rem_head\<close> make a stable priority queue.  Whatever nodes are
  enqueued on an empty list, in whatever order, removing heads returns exactly these
  nodes, in descending priority, nodes of equal priority in the order they were enqueued;
  no other list of the system changes.
\<close>

theorem enqueue_priority_queue:
  assumes "lists_ok h L" and "L l = Some []" and "distinct ns" and "\<forall>n \<in> set ns. unlinked L n"
  shows "runs_to (seqM (put_all list_enqueue l ns) (take_all list_rem_head l (length ns))) h
     (\<lambda>ps h'. \<exists>zs. ps = map Obj zs \<and> sorted_prio (prio_of h) zs \<and> mset zs = mset ns
        \<and> (\<forall>p. filter (\<lambda>x. prio_of h x = p) zs = filter (\<lambda>x. prio_of h x = p) ns)
        \<and> lists_ok h' L)"
  using lc.by_priority [OF assms] assms(2) fold_enqueue_spec [of "prio_of h" ns]
  by (auto elim!: runs_to_weaken simp: fun_upd_idem)

theorem enqueue_priority_queue_witness:
  "runs_to (seqM (put_all list_enqueue 1 [7, 8, 9]) (take_all list_rem_head 1 (length [7, 8, 9 :: addr])))
     (blank_heap (\<lambda>n. mk_prio (if n = 8 then 5 else 3)) (\<lambda>_. None))
     (\<lambda>ps h'. \<exists>zs. ps = map Obj zs
        \<and> sorted_prio (prio_of (blank_heap (\<lambda>n. mk_prio (if n = 8 then 5 else 3)) (\<lambda>_. None))) zs
        \<and> mset zs = mset [7, 8, 9]
        \<and> (\<forall>p. filter (\<lambda>x. prio_of (blank_heap (\<lambda>n. mk_prio (if n = 8 then 5 else 3)) (\<lambda>_. None)) x = p) zs
             = filter (\<lambda>x. prio_of (blank_heap (\<lambda>n. mk_prio (if n = 8 then 5 else 3)) (\<lambda>_. None)) x = p) [7, 8, 9])
        \<and> lists_ok h' [1 \<mapsto> []])"
  by (rule enqueue_priority_queue) (simp_all add: lists_ok_blank unlinked_blank)

text \<open>
  \<open>list_add_tail\<close> and \<open>list_rem_head\<close> make a first-in, first-out queue: what was on the
  list comes off first, then the added nodes in the order they were added.
\<close>

theorem add_tail_fifo:
  assumes "lists_ok h L" and "L l = Some xs" and "distinct ns" and "\<forall>n \<in> set ns. unlinked L n"
  shows "runs_to (seqM (put_all list_add_tail l ns) (take_all list_rem_head l (length xs + length ns))) h
     (\<lambda>ps h'. ps = map Obj (xs @ ns) \<and> lists_ok h' (L(l \<mapsto> [])))"
  using lc.fifo [OF assms] by (auto elim!: runs_to_weaken)

theorem add_tail_fifo_witness:
  "runs_to (seqM (put_all list_add_tail 1 [7, 8]) (take_all list_rem_head 1 (length ([] :: addr list) + length [7, 8 :: addr])))
     (blank_heap (\<lambda>n. mk_prio 0) (\<lambda>_. None))
     (\<lambda>ps h'. ps = map Obj ([] @ [7, 8]) \<and> lists_ok h' ([1 \<mapsto> []](1 \<mapsto> [])))"
  by (rule add_tail_fifo) (simp_all add: lists_ok_blank unlinked_blank)

end
