(* ===== verification/Platform.thy ===== *)
theory Platform
  imports ListC
begin

text \<open>
  The part of \<open>platforms/stm32f4-discovery/platform.c\<close> that does not depend on tasks:
  interrupt masking with its nesting count, the request for a context switch, halting,
  and the initial stack frame of a task.
\<close>

section \<open>Access to the kernel state\<close>

definition in_nodes :: "(heap, 'a) M \<Rightarrow> 'a K" where
  "in_nodes m = on_field nodes (\<lambda>h s. s\<lparr>nodes := h\<rparr>) m"

definition get_task :: "ptr \<Rightarrow> (Task \<Rightarrow> 'a) \<Rightarrow> 'a K" where
  "get_task p f = (\<lambda>s. if p = NULL then Inl NullDeref else Inr (f (tasks s p), s))"

definition upd_task :: "ptr \<Rightarrow> (Task \<Rightarrow> Task) \<Rightarrow> unit K" where
  "upd_task p f = (\<lambda>s. if p = NULL then Inl NullDeref
     else Inr ((), s\<lparr>tasks := (tasks s)(p := f (tasks s p))\<rparr>))"

definition get_prio :: "ptr \<Rightarrow> Node_Prio K" where
  "get_prio p = (\<lambda>s. if p = NULL then Inl NullDeref else Inr (nd_prio (nodes s p), s))"

definition set_prio :: "ptr \<Rightarrow> Node_Prio \<Rightarrow> unit K" where
  "set_prio p v = (\<lambda>s. if p = NULL then Inl NullDeref
     else Inr ((), s\<lparr>nodes := (nodes s)(p := (nodes s p)\<lparr>nd_prio := v\<rparr>)\<rparr>))"

definition get_name :: "ptr \<Rightarrow> string option K" where
  "get_name p = (\<lambda>s. if p = NULL
     then (case null_name s of None \<Rightarrow> Inl NullDeref | Some b \<Rightarrow> Inr (Some b, s))
     else Inr (nd_name (nodes s p), s))"

definition set_name :: "ptr \<Rightarrow> string option \<Rightarrow> unit K" where
  "set_name p v = (\<lambda>s. if p = NULL then Inl NullDeref
     else Inr ((), s\<lparr>nodes := (nodes s)(p := (nodes s p)\<lparr>nd_name := v\<rparr>)\<rparr>))"

section \<open>Interrupts\<close>

definition disable_irq :: "unit K" where
  "disable_irq = modify (\<lambda>s. s\<lparr>primask := True\<rparr>)"

definition enable_irq :: "unit K" where
  "enable_irq = modify (\<lambda>s. s\<lparr>primask := False\<rparr>)"

definition set_nestcnt :: "NestCnt \<Rightarrow> unit K" where
  "set_nestcnt n = modify (\<lambda>s. s\<lparr>id_nestcnt := n\<rparr>)"

definition disable :: "unit K" where
  "disable =
     seqM disable_irq (
     bindM (gets id_nestcnt) (\<lambda>n.
     bindM (lift_result (checked_int32 (n + 1))) set_nestcnt))"

definition enable :: "unit K" where
  "enable =
     bindM (gets id_nestcnt) (\<lambda>n.
     seqM (assertM (- 1 \<le> n)) (
     bindM (lift_result (checked_int32 (n - 1))) (\<lambda>m.
     seqM (set_nestcnt m) (
     whenM (m < 0) enable_irq))))"

definition reschedule :: "unit K" where
  "reschedule = modify (\<lambda>s. s\<lparr>pendsv := True\<rparr>)"

definition user_halt :: "unit K" where
  "user_halt = seqM disable (throw Hang)"

definition abort :: "unit K" where
  "abort = seqM user_halt (throw Hang)"

section \<open>Stack frames\<close>

text \<open>
  \<open>StackFrame\<close>: sixteen words, \<open>r4\<close> to \<open>r11\<close> at offset 0, then \<open>r0\<close> to \<open>r3\<close>, \<open>r12\<close>,
  \<open>lr\<close>, \<open>pc\<close> and \<open>xpsr\<close>.
\<close>

definition SIZEOF_StackFrame :: "32 word" where "SIZEOF_StackFrame = 64"
definition OFF_r4 :: "32 word" where "OFF_r4 = 0"
definition OFF_r0 :: "32 word" where "OFF_r0 = 32"
definition OFF_lr :: "32 word" where "OFF_lr = 52"
definition OFF_pc :: "32 word" where "OFF_pc = 56"
definition OFF_xpsr :: "32 word" where "OFF_xpsr = 60"

definition EPSR_T :: "32 word" where "EPSR_T = push_bit 24 1"

lemmas frame_offsets = SIZEOF_StackFrame_def OFF_r4_def OFF_r0_def OFF_lr_def OFF_pc_def OFF_xpsr_def

text \<open>The loop \<open>while (--tos != frame) *tos = 0\<close>.\<close>

partial_function (option) clear_stack ::
  "(32 word \<Rightarrow> 32 word) \<Rightarrow> 32 word \<Rightarrow> 32 word \<Rightarrow> (32 word \<Rightarrow> 32 word) option" where
  "clear_stack m tos fr =
     (if tos - 4 = fr then Some m else clear_stack (m(tos - 4 := 0)) (tos - 4) fr)"

definition store :: "32 word \<Rightarrow> 32 word \<Rightarrow> unit K" where
  "store a v = modify (\<lambda>s. s\<lparr>ram := (ram s)(a := v)\<rparr>)"

definition upd_context :: "ptr \<Rightarrow> (TaskContext \<Rightarrow> TaskContext) \<Rightarrow> unit K" where
  "upd_context p f = upd_task p (\<lambda>t. t\<lparr>tk_context := f (tk_context t)\<rparr>)"

definition taskcontext_verify :: "ptr \<Rightarrow> unit K" where
  "taskcontext_verify task =
     bindM (get_task task tk_context) (\<lambda>c.
     seqM (assertM (cx_bos c \<le> cx_frame c)) (
     assertM (cx_frame c + SIZEOF_StackFrame \<le> cx_tos c)))"

definition clear_frame :: "32 word \<Rightarrow> 32 word \<Rightarrow> unit K" where
  "clear_frame tos fr = (\<lambda>s. case clear_stack (ram s) tos fr of
       None \<Rightarrow> Inl Hang
     | Some m \<Rightarrow> Inr ((), s\<lparr>ram := m\<rparr>))"

definition taskcontext_init ::
  "image \<Rightarrow> ptr \<Rightarrow> 32 word \<Rightarrow> 32 word \<Rightarrow> 32 word \<Rightarrow> 32 word \<Rightarrow> unit K" where
  "taskcontext_init im task init_pc user_data stack stack_size =
     seqM (assertM (0 = stack mod 4)) (
     seqM (assertM (0 = stack_size mod 4)) (
     let tos = stack + stack_size; fr = tos - SIZEOF_StackFrame in
     seqM (upd_context task (\<lambda>c. c\<lparr>cx_tos := tos\<rparr>)) (
     seqM (upd_context task (\<lambda>c. c\<lparr>cx_bos := stack\<rparr>)) (
     seqM (clear_frame tos fr) (
     seqM (store (fr + OFF_r0) user_data) (
     seqM (store (fr + OFF_lr) (im_dead_end im)) (
     seqM (store (fr + OFF_pc) init_pc) (
     seqM (store (fr + OFF_xpsr) EPSR_T) (
     seqM (upd_context task (\<lambda>c. c\<lparr>cx_frame := fr\<rparr>)) (
     taskcontext_verify task))))))))))"

section \<open>Calculation rules\<close>

lemma get_task_apply [run_apply]:
  "get_task p f s = (if p = NULL then Inl NullDeref else Inr (f (tasks s p), s))"
  by (simp add: get_task_def)

lemma upd_task_apply [run_apply]:
  "upd_task p f s = (if p = NULL then Inl NullDeref
     else Inr ((), s\<lparr>tasks := (tasks s)(p := f (tasks s p))\<rparr>))"
  by (simp add: upd_task_def)

lemma get_prio_apply [run_apply]:
  "get_prio p s = (if p = NULL then Inl NullDeref else Inr (nd_prio (nodes s p), s))"
  by (simp add: get_prio_def)

lemma runs_to_get_task [run_simps]: "runs_to (get_task p f) s P \<longleftrightarrow> p \<noteq> NULL \<and> P (f (tasks s p)) s"
  by (simp add: runs_to_def get_task_def)

lemma runs_to_upd_task [run_simps]:
  "runs_to (upd_task p f) s P \<longleftrightarrow> p \<noteq> NULL \<and> P () (s\<lparr>tasks := (tasks s)(p := f (tasks s p))\<rparr>)"
  by (simp add: runs_to_def upd_task_def)

lemma runs_to_get_prio [run_simps]: "runs_to (get_prio p) s P \<longleftrightarrow> p \<noteq> NULL \<and> P (nd_prio (nodes s p)) s"
  by (simp add: runs_to_def get_prio_def)

lemma runs_to_set_prio [run_simps]:
  "runs_to (set_prio p v) s P \<longleftrightarrow>
     p \<noteq> NULL \<and> P () (s\<lparr>nodes := (nodes s)(p := (nodes s p)\<lparr>nd_prio := v\<rparr>)\<rparr>)"
  by (simp add: runs_to_def set_prio_def)

lemma runs_to_set_name [run_simps]:
  "runs_to (set_name p v) s P \<longleftrightarrow>
     p \<noteq> NULL \<and> P () (s\<lparr>nodes := (nodes s)(p := (nodes s p)\<lparr>nd_name := v\<rparr>)\<rparr>)"
  by (simp add: runs_to_def set_name_def)

lemma runs_to_in_nodes [run_simps]:
  "runs_to (in_nodes m) s P = runs_to m (nodes s) (\<lambda>x h. P x (s\<lparr>nodes := h\<rparr>))"
  by (simp add: in_nodes_def run_simps)

lemma in_nodes_apply [run_apply]:
  "in_nodes m s = (case m (nodes s) of Inl e \<Rightarrow> Inl e | Inr (x, h) \<Rightarrow> Inr (x, s\<lparr>nodes := h\<rparr>))"
  by (simp add: in_nodes_def run_apply)

lemma runs_to_reschedule [run_simps]: "runs_to reschedule s P = P () (s\<lparr>pendsv := True\<rparr>)"
  by (simp add: reschedule_def run_simps)

lemma runs_to_disable [run_simps]:
  "runs_to disable s P \<longleftrightarrow> INT32_MIN \<le> id_nestcnt s + 1 \<and> id_nestcnt s + 1 \<le> INT32_MAX
     \<and> P () (s\<lparr>primask := True, id_nestcnt := id_nestcnt s + 1\<rparr>)"
  by (auto simp: disable_def disable_irq_def set_nestcnt_def run_simps checked_int32_def)

lemma runs_to_enable [run_simps]:
  "runs_to enable s P \<longleftrightarrow> - 1 \<le> id_nestcnt s \<and> id_nestcnt s - 1 \<le> INT32_MAX
     \<and> P () (s\<lparr>id_nestcnt := id_nestcnt s - 1, primask := primask s \<and> 1 \<le> id_nestcnt s\<rparr>)"
proof (cases "id_nestcnt s < 1")
  case True
  then show ?thesis
    by (auto simp: enable_def enable_irq_def set_nestcnt_def run_simps checked_int32_def int32_bounds)
next
  case False
  then have "s\<lparr>id_nestcnt := id_nestcnt s - 1, primask := primask s \<and> 1 \<le> id_nestcnt s\<rparr> =
      s\<lparr>id_nestcnt := id_nestcnt s - 1\<rparr>" by simp
  with False show ?thesis
    by (auto simp: enable_def set_nestcnt_def run_simps checked_int32_def int32_bounds)
qed

section \<open>A concrete state\<close>

text \<open>
  A state to evaluate examples in: all lists empty, no task running, interrupts unmasked.
\<close>

definition blank_task :: Task where
  "blank_task = \<lparr>tk_context = \<lparr>cx_frame = 0x200003C0, cx_bos = 0x20000000, cx_tos = 0x20000400\<rparr>,
     tk_sig_alloc = 1, tk_sig_wait = 0, tk_sig_recvd = 0, tk_id_nestcnt = - 1, tk_state = TASK_INITIALIZED\<rparr>"

definition blank_state :: kstate where
  "blank_state = \<lparr>nodes = blank_heap (\<lambda>_. mk_prio 0) (\<lambda>_. Some ''task''), tasks = (\<lambda>_. blank_task),
     sems = (\<lambda>_. \<lparr>sm_count = 0\<rparr>), reqs = (\<lambda>_. \<lparr>rq_waiter = NULL, rq_signal = 0\<rparr>),
     ports = (\<lambda>_. \<lparr>mp_task = NULL, mp_signal = 0, mp_action = MSGPORT_INVALID\<rparr>),
     msgs = (\<lambda>_. \<lparr>ms_reply_port = None\<rparr>),
     tmrs = (\<lambda>_. \<lparr>tm_task = NULL, tm_signal = 0, tm_delay = 0, tm_tick = 0, tm_op = TIMER_NONE,
        tm_status = TIMER_INVALID\<rparr>),
     ram = (\<lambda>_. 0), id_nestcnt = - 1, elapsed = QUANTUM, running = NULL, timer_now = 0,
     primask = False, pendsv = False, null_name = None\<rparr>"

definition im0 :: image where
  "im0 = \<lparr>im_dead_end = 0x8000201, im_init_task_f = 0x8000301, im_init_task_stack = 0x20001000\<rparr>"

section \<open>Critical sections\<close>

text \<open>
  \<open>irq_ok\<close>: interrupts are masked exactly while some \<open>disable\<close> is open.  The nesting count
  is -1 outside every critical section.
\<close>

definition irq_ok :: "kstate \<Rightarrow> bool" where
  "irq_ok s = (- 1 \<le> id_nestcnt s \<and> (primask s \<longleftrightarrow> 0 \<le> id_nestcnt s))"

lemma irq_ok_primask: "irq_ok s \<Longrightarrow> (0 \<le> id_nestcnt s) = primask s"
  by (simp add: irq_ok_def)

lemma irq_ok_range: "irq_ok s \<Longrightarrow> - 1 \<le> id_nestcnt s"
  by (simp add: irq_ok_def)

text \<open>The number of further \<open>disable\<close> calls the counter has room for.\<close>

definition nest_room :: "int \<Rightarrow> kstate \<Rightarrow> bool" where
  "nest_room k s = (id_nestcnt s + k \<le> INT32_MAX)"

lemma nest_room_mono: "nest_room k s \<Longrightarrow> j \<le> k \<Longrightarrow> nest_room j s"
  by (simp add: nest_room_def)

text \<open>What simplification needs around one critical section, without opening the bounds.\<close>

lemma crit:
  assumes "irq_ok s" "nest_room 1 s"
  shows "INT32_MIN \<le> id_nestcnt s + 1" "id_nestcnt s + 1 \<le> INT32_MAX" "- 1 \<le> id_nestcnt s + 1"
    "id_nestcnt s \<le> INT32_MAX" "(0 \<le> id_nestcnt s) = primask s" "- 1 \<le> id_nestcnt s"
  using assms by (auto simp: irq_ok_def nest_room_def int32_bounds)

locale critical_section =
  fixes enter :: "(kstate, unit) M" and leave :: "(kstate, unit) M"
    and ok :: "kstate \<Rightarrow> bool" and room :: "int \<Rightarrow> kstate \<Rightarrow> bool" and depth :: "kstate \<Rightarrow> int"
    and masked :: "kstate \<Rightarrow> bool"
  assumes enter_law: "ok s \<Longrightarrow> room 1 s \<Longrightarrow>
      runs_to enter s (\<lambda>_ t. ok t \<and> masked t \<and> depth t = depth s + 1 \<and> runs_to leave t (\<lambda>_ u. u = s))"
    and room_step: "room (k + 1) s \<Longrightarrow> depth t = depth s + 1 \<Longrightarrow> room k t"
    and room_weaken: "1 \<le> k \<Longrightarrow> room k s \<Longrightarrow> room 1 s"
begin

lemma balanced:
  "ok s \<Longrightarrow> room (int k) s \<Longrightarrow>
   runs_to (repeatM k enter) s (\<lambda>_ t. depth t = depth s + int k \<and> (0 < k \<longrightarrow> masked t)
     \<and> runs_to (repeatM k leave) t (\<lambda>_ u. u = s))"
proof (induction k arbitrary: s)
  case 0
  then show ?case by (simp add: run_simps)
next
  case (Suc k)
  then have r: "room (int k + 1) s" by (simp add: add.commute)
  show ?case
    unfolding repeatM.simps(2) [of _ enter] runs_to_repeatM_Suc [of _ leave] runs_to_seqM
  proof (rule runs_to_weaken [OF enter_law [OF Suc.prems(1) room_weaken [OF _ r]]])
    show "1 \<le> int k + 1" by simp
    fix x t
    assume t: "ok t \<and> masked t \<and> depth t = depth s + 1 \<and> runs_to leave t (\<lambda>_ u. u = s)"
    then have "room (int k) t" using r room_step by blast
    with t have "runs_to (repeatM k enter) t (\<lambda>_ u. depth u = depth t + int k \<and> (0 < k \<longrightarrow> masked u)
        \<and> runs_to (repeatM k leave) u (\<lambda>_ v. v = t))"
      by (intro Suc.IH) simp_all
    then show "runs_to (repeatM k enter) t (\<lambda>_ u. depth u = depth s + int (Suc k) \<and> (0 < Suc k \<longrightarrow> masked u)
        \<and> runs_to (repeatM k leave) u (\<lambda>_ v. runs_to leave v (\<lambda>_ w. w = s)))"
      by (cases k) (auto elim!: runs_to_weaken simp: t run_simps)
  qed
qed

end

interpretation cs: critical_section disable enable irq_ok nest_room id_nestcnt primask
  by unfold_locales (auto simp: run_simps irq_ok_def nest_room_def int32_bounds)

section \<open>The initial stack frame\<close>

text \<open>The words the clearing loop writes: every word of the frame but the first.\<close>

definition cleared :: "32 word \<Rightarrow> 32 word set" where
  "cleared fr = {fr + 4, fr + 8, fr + 12, fr + 16, fr + 20, fr + 24, fr + 28, fr + 32,
     fr + 36, fr + 40, fr + 44, fr + 48, fr + 52, fr + 56, fr + 60}"

lemma clear_stack_frame:
  "clear_stack m (fr + 64) fr = Some (\<lambda>a. if a \<in> cleared fr then 0 else m a)"
  by (simp add: clear_stack.simps cleared_def fun_eq_iff)

text \<open>What is in memory after \<open>taskcontext_init\<close>.\<close>

definition frame_image ::
  "image \<Rightarrow> 32 word \<Rightarrow> 32 word \<Rightarrow> 32 word \<Rightarrow> (32 word \<Rightarrow> 32 word) \<Rightarrow> 32 word \<Rightarrow> 32 word" where
  "frame_image im fr init_pc user_data m a =
     (if a = fr + OFF_xpsr then EPSR_T else if a = fr + OFF_pc then init_pc
      else if a = fr + OFF_lr then im_dead_end im else if a = fr + OFF_r0 then user_data
      else if a \<in> cleared fr then 0 else m a)"

lemma taskcontext_init_apply:
  assumes "task \<noteq> NULL" and "stack mod 4 = 0" and "stack_size mod 4 = 0"
  defines "tos \<equiv> stack + stack_size" and "fr \<equiv> stack + stack_size - 64"
  shows "taskcontext_init im task init_pc user_data stack stack_size s =
     (if stack \<le> fr \<and> fr + 64 \<le> tos
      then Inr ((), s\<lparr>tasks := (tasks s)(task := (tasks s task)
             \<lparr>tk_context := \<lparr>cx_frame = fr, cx_bos = stack, cx_tos = tos\<rparr>\<rparr>),
           ram := frame_image im fr init_pc user_data (ram s)\<rparr>)
      else Inl AssertFailed)"
proof -
  have tos: "stack + stack_size = fr + 64" by (simp add: fr_def)
  have c: "c\<lparr>cx_tos := a, cx_bos := b, cx_frame := d\<rparr> = \<lparr>cx_frame = d, cx_bos = b, cx_tos = a\<rparr>"
    for c :: TaskContext and a b d by (cases c) simp
  have m: "(\<lambda>a. if a \<in> cleared fr then 0 else ram s a)(32 + fr := user_data,
      52 + fr := im_dead_end im, 56 + fr := init_pc, 60 + fr := EPSR_T) =
      frame_image im fr init_pc user_data (ram s)"
    by (simp add: frame_image_def frame_offsets fun_eq_iff add.commute)
  show ?thesis
    using assms(1-3)
    by (simp add: c m taskcontext_init_def run_apply Let_def upd_context_def clear_frame_def store_def
        taskcontext_verify_def frame_offsets tos_def tos clear_stack_frame cong: if_cong)
qed

text \<open>Addresses inside a stack that does not wrap around the end of memory.\<close>

lemma frame_in_stack:
  fixes stack size off :: "32 word"
  assumes "unat stack + unat size < 2 ^ 32" and "64 \<le> size" and "off < 64"
  shows "stack \<le> stack + size - 64 + off" and "stack + size - 64 + off < stack + size"
proof -
  have s: "unat (stack + size) = unat stack + unat size"
    using assms(1) by (intro unat_add_lem [THEN iffD1]) simp
  have "64 \<le> unat size" using assms(2) by (simp add: word_le_nat_alt)
  then have f: "unat (stack + size - 64) = unat stack + unat size - 64"
    using s unat_sub [of 64 "stack + size"] by (simp add: word_le_nat_alt)
  have o: "unat off < 64" using assms(3) by (simp add: word_less_nat_alt)
  then have "unat (stack + size - 64 + off) = unat stack + unat size - 64 + unat off"
    using f assms(1) \<open>64 \<le> unat size\<close> by (subst unat_add_lem [THEN iffD1]) simp_all
  with s o \<open>64 \<le> unat size\<close>
  show "stack \<le> stack + size - 64 + off" "stack + size - 64 + off < stack + size"
    by (simp_all add: word_le_nat_alt word_less_nat_alt)
qed

lemma small_stack:
  fixes stack size :: "32 word"
  assumes "64 \<le> unat stack + unat size" and "unat stack + unat size < 2 ^ 32" and "size < 64"
  shows "\<not> stack \<le> stack + size - 64"
proof -
  have s: "unat (stack + size) = unat stack + unat size"
    using assms(2) by (intro unat_add_lem [THEN iffD1]) simp
  then have "unat (stack + size - 64) = unat stack + unat size - 64"
    using assms(1) unat_sub [of 64 "stack + size"] by (simp add: word_le_nat_alt)
  moreover have "unat size < 64" using assms(3) by (simp add: word_less_nat_alt)
  ultimately show ?thesis using assms(1) by (simp add: word_le_nat_alt)
qed

lemma cleared_offset: "a \<in> insert fr (cleared fr) \<Longrightarrow> \<exists>off < 64. a = fr + off"
  by (auto simp: cleared_def)

lemma frame_image_other: "a \<notin> insert fr (cleared fr) \<Longrightarrow> frame_image im fr pc ud m a = m a"
  by (auto simp: frame_image_def cleared_def frame_offsets)

lemma frame_image_fields:
  "frame_image im fr pc ud m (fr + OFF_r0) = ud"
  "frame_image im fr pc ud m (fr + OFF_lr) = im_dead_end im"
  "frame_image im fr pc ud m (fr + OFF_pc) = pc"
  "frame_image im fr pc ud m (fr + OFF_xpsr) = EPSR_T"
  by (simp_all add: frame_image_def frame_offsets)

section \<open>Properties\<close>

text \<open>
  C39: Critical sections nest.  After \<open>k\<close> calls of \<open>disable\<close> interrupts are masked and the
  nesting count is \<open>k\<close> higher, and the \<open>k\<close> matching calls of \<open>enable\<close> give back exactly
  the state before, whatever the nesting depth at the start.
\<close>

theorem disable_enable_balanced:
  assumes "irq_ok s" and "id_nestcnt s + int k \<le> INT32_MAX"
  shows "runs_to (repeatM k disable) s (\<lambda>_ t. id_nestcnt t = id_nestcnt s + int k
     \<and> (0 < k \<longrightarrow> primask t) \<and> runs_to (repeatM k enable) t (\<lambda>_ u. u = s))"
  by (rule cs.balanced) (use assms in \<open>simp_all add: nest_room_def\<close>)

theorem disable_enable_balanced_witness:
  "runs_to (repeatM 3 disable) blank_state (\<lambda>_ t. id_nestcnt t = id_nestcnt blank_state + int 3
     \<and> (0 < (3 :: nat) \<longrightarrow> primask t) \<and> runs_to (repeatM 3 enable) t (\<lambda>_ u. u = blank_state))"
  by (rule disable_enable_balanced) (simp_all add: irq_ok_def blank_state_def INT32_MAX_def)

text \<open>
  The assertion of \<open>enable\<close> does not catch an \<open>enable\<close> without a \<open>disable\<close>.  It passes
  with the count at -1, and from then on leaving an inner critical section unmasks
  interrupts while the outer one is still open.
\<close>

theorem enable_unmatched:
  assumes "id_nestcnt s = - 1"
  shows "runs_to enable s (\<lambda>_ t. id_nestcnt t = - 2)
     \<and> runs_to (seqM enable (seqM disable (seqM disable enable))) s (\<lambda>_ t. \<not> primask t)"
  using assms by (simp add: run_simps int32_bounds)

theorem enable_unmatched_witness:
  "runs_to enable blank_state (\<lambda>_ t. id_nestcnt t = - 2)
     \<and> runs_to (seqM enable (seqM disable (seqM disable enable))) blank_state (\<lambda>_ t. \<not> primask t)"
  by (rule enable_unmatched) (simp add: blank_state_def)

text \<open>
  C40: \<open>taskcontext_init\<close> on an aligned stack of at least one frame returns; the task's
  context describes the stack with a frame at its top, the frame starts the task at
  \<open>init_pc\<close> with \<open>user_data\<close> in \<open>r0\<close>, \<open>dead_end\<close> as return address and the Thumb bit set,
  and no byte outside the stack is written.
\<close>

theorem taskcontext_init_ok:
  assumes "task \<noteq> NULL" and "stack mod 4 = 0" and "stack_size mod 4 = 0" and "64 \<le> stack_size"
    and "unat stack + unat stack_size < 2 ^ 32"
  shows "runs_to (taskcontext_init im task init_pc user_data stack stack_size) s (\<lambda>_ t.
     tk_context (tasks t task) =
       \<lparr>cx_frame = stack + stack_size - 64, cx_bos = stack, cx_tos = stack + stack_size\<rparr>
     \<and> ram t (stack + stack_size - 64 + OFF_r0) = user_data
     \<and> ram t (stack + stack_size - 64 + OFF_lr) = im_dead_end im
     \<and> ram t (stack + stack_size - 64 + OFF_pc) = init_pc
     \<and> ram t (stack + stack_size - 64 + OFF_xpsr) = EPSR_T
     \<and> (\<forall>a. ram t a \<noteq> ram s a \<longrightarrow> stack \<le> a \<and> a < stack + stack_size))"
proof -
  let ?fr = "stack + stack_size - 64"
  note in_stack = frame_in_stack [OF assms(5,4)]
  have "stack \<le> ?fr" using in_stack(1) [of 0] by simp
  moreover have "\<forall>a \<in> insert ?fr (cleared ?fr). stack \<le> a \<and> a < stack + stack_size"
  proof
    fix a assume "a \<in> insert ?fr (cleared ?fr)"
    then obtain off where "off < 64" "a = ?fr + off" using cleared_offset by blast
    then show "stack \<le> a \<and> a < stack + stack_size" using in_stack [of off] by simp
  qed
  ultimately have "\<forall>a. frame_image im ?fr init_pc user_data (ram s) a \<noteq> ram s a \<longrightarrow>
      stack \<le> a \<and> a < stack + stack_size"
    using frame_image_other by blast
  then show ?thesis
    using assms(1-3) \<open>stack \<le> ?fr\<close>
    by (simp add: runs_to_def taskcontext_init_apply frame_image_fields)
qed

theorem taskcontext_init_ok_witness:
  "runs_to (taskcontext_init im0 (Obj 5) 0x8000101 7 0x20000000 1024) blank_state (\<lambda>_ t.
     tk_context (tasks t (Obj 5)) =
       \<lparr>cx_frame = 0x20000000 + 1024 - 64, cx_bos = 0x20000000, cx_tos = 0x20000000 + 1024\<rparr>
     \<and> ram t (0x20000000 + 1024 - 64 + OFF_r0) = 7
     \<and> ram t (0x20000000 + 1024 - 64 + OFF_lr) = im_dead_end im0
     \<and> ram t (0x20000000 + 1024 - 64 + OFF_pc) = 0x8000101
     \<and> ram t (0x20000000 + 1024 - 64 + OFF_xpsr) = EPSR_T
     \<and> (\<forall>a. ram t a \<noteq> ram blank_state a \<longrightarrow> 0x20000000 \<le> a \<and> a < 0x20000000 + 1024))"
  by (rule taskcontext_init_ok) simp_all

text \<open>
  On an aligned stack smaller than one frame \<open>taskcontext_init\<close> does not return: the
  assertions of \<open>taskcontext_verify\<close> stop the system.
\<close>

theorem taskcontext_init_small:
  assumes "task \<noteq> NULL" and "stack mod 4 = 0" and "stack_size mod 4 = 0" and "stack_size < 64"
    and "64 \<le> unat stack + unat stack_size" and "unat stack + unat stack_size < 2 ^ 32"
  shows "taskcontext_init im task init_pc user_data stack stack_size s = Inl AssertFailed"
  using assms small_stack [OF assms(5,6,4)] by (simp add: taskcontext_init_apply)

theorem taskcontext_init_small_witness:
  "taskcontext_init im0 (Obj 5) 0x8000101 7 0x20000000 32 blank_state = Inl AssertFailed"
  by (rule taskcontext_init_small) simp_all

end
