(* ===== verification/TaskC.thy ===== *)
theory TaskC
  imports Platform
begin

unbundle bit_operations_syntax

text \<open>
  Tasks and signals, \<open>src/task.c\<close>.  \<open>signal_wait\<close> blocks: it is split at the point where the
  processor leaves the calling task (the context switch requested by \<open>reschedule\<close>) into
  the part before and the part that runs when the task is switched in again.
\<close>

section \<open>The functions of task.c\<close>

definition task_verify :: "ptr \<Rightarrow> unit K" where
  "task_verify task =
     seqM disable (
     seqM (taskcontext_verify task) (
     bindM (get_task task tk_sig_alloc) (\<lambda>alloc.
     seqM (assertM (SIGF_SINGLE AND alloc \<noteq> 0)) (
     bindM (get_task task tk_id_nestcnt) (\<lambda>n.
     seqM (assertM (- 1 \<le> n)) (
     bindM (get_task task tk_state) (\<lambda>st.
     seqM (assertM (st = TASK_INITIALIZED \<or> st = TASK_RUNNING \<or> st = TASK_READY \<or> st = TASK_WAITING)) (
     enable))))))))"

definition task_find :: "string option \<Rightarrow> ptr K" where
  "task_find name = (case name of
       None \<Rightarrow> gets running
     | Some _ \<Rightarrow>
         seqM disable (
         bindM (in_nodes (list_find ready name)) (\<lambda>task.
         bindM (if task = NULL then
                  bindM (in_nodes (list_find waiting name)) (\<lambda>task.
                  if task = NULL then
                    \<comment> \<open>the source compares with the name of \<open>task\<close>, which is null here\<close>
                    bindM (get_name task) (\<lambda>nm.
                    bindM (lift_result (strcmp name nm)) (\<lambda>d.
                    if d = 0 then gets running else ret task))
                  else ret task)
                else ret task) (\<lambda>task.
         seqM enable (ret task)))))"

definition task_init ::
  "image \<Rightarrow> ptr \<Rightarrow> string option \<Rightarrow> Node_Prio \<Rightarrow> 32 word \<Rightarrow> 32 word \<Rightarrow> 32 word \<Rightarrow> 32 word \<Rightarrow> unit K" where
  "task_init im task name prio init_pc user_data stack stack_size =
     seqM (upd_task task (\<lambda>t. t\<lparr>tk_state := TASK_INVALID\<rparr>)) (
     bindM (task_find name) (\<lambda>found.
     seqM (assertM (NULL = found)) (
     seqM (set_name task name) (
     seqM (set_prio task prio) (
     seqM (upd_task task (\<lambda>t. t\<lparr>tk_sig_alloc := SIGF_SINGLE\<rparr>)) (
     seqM (upd_task task (\<lambda>t. t\<lparr>tk_sig_wait := 0\<rparr>)) (
     seqM (upd_task task (\<lambda>t. t\<lparr>tk_sig_recvd := 0\<rparr>)) (
     seqM (upd_task task (\<lambda>t. t\<lparr>tk_id_nestcnt := - 1\<rparr>)) (
     seqM (taskcontext_init im task init_pc user_data stack stack_size) (
     upd_task task (\<lambda>t. t\<lparr>tk_state := TASK_INITIALIZED\<rparr>)))))))))))"

definition task_schedule :: "ptr \<Rightarrow> unit K" where
  "task_schedule task =
     seqM (task_verify task) (
     seqM disable (
     seqM (upd_task task (\<lambda>t. t\<lparr>tk_state := TASK_READY\<rparr>)) (
     seqM (in_nodes (list_enqueue ready task)) (
     seqM enable reschedule))))"

definition task_set_prio :: "ptr \<Rightarrow> Node_Prio \<Rightarrow> unit K" where
  "task_set_prio task prio =
     seqM disable (
     seqM (set_prio task prio) (
     bindM (gets running) (\<lambda>r.
     bindM (if task = r then ret True
            else bindM (get_task task tk_state) (\<lambda>st.
              if st = TASK_READY then
                bindM (get_prio r) (\<lambda>rp. bindM (get_prio task) (\<lambda>tp. ret (rp < tp)))
              else ret False)) (\<lambda>c.
     seqM (whenM c reschedule) enable))))"

text \<open>The search of \<open>signal_allocate\<close>, from bit \<open>n\<close> down: the bit number or -1, and the last mask tried.\<close>

definition sig_mask :: "nat \<Rightarrow> Signals" where
  "sig_mask n = push_bit n 1"

fun alloc_scan :: "Signals \<Rightarrow> nat \<Rightarrow> SignalNumber \<times> Signals" where
  "alloc_scan alloc 0 =
     (if sig_mask 0 AND alloc \<noteq> 0 then (- 1, sig_mask 0) else (0, sig_mask 0))"
| "alloc_scan alloc (Suc n) =
     (if sig_mask (Suc n) AND alloc \<noteq> 0 then alloc_scan alloc n
      else (int (Suc n), sig_mask (Suc n)))"

definition alloc_choose :: "SignalNumber \<Rightarrow> Signals \<Rightarrow> SignalNumber \<times> Signals" where
  "alloc_choose signal alloc =
     (if signal \<noteq> - 1 then
        (if sig_mask (nat signal) AND alloc \<noteq> 0 then (- 1, sig_mask (nat signal))
         else (signal, sig_mask (nat signal)))
      else alloc_scan alloc (nat (SIGNALS_WIDTH - 1)))"

definition signal_allocate :: "SignalNumber \<Rightarrow> SignalNumber K" where
  "signal_allocate signal =
     seqM (assertM (- 1 \<le> signal \<and> signal < SIGNALS_WIDTH)) (
     bindM (gets running) (\<lambda>r.
     bindM (get_task r tk_sig_alloc) (\<lambda>alloc.
     let (signal', target) = alloc_choose signal alloc in
     seqM (whenM (0 < target) (
       seqM (upd_task r (\<lambda>t. t\<lparr>tk_sig_alloc := tk_sig_alloc t OR target\<rparr>)) (
       seqM (upd_task r (\<lambda>t. t\<lparr>tk_sig_wait := tk_sig_wait t AND NOT target\<rparr>)) (
       seqM disable (
       seqM (upd_task r (\<lambda>t. t\<lparr>tk_sig_recvd := tk_sig_recvd t AND NOT target\<rparr>)) (
       enable)))))) (
     ret signal'))))"

definition signal_free :: "Signals \<Rightarrow> unit K" where
  "signal_free signals =
     seqM (assertM (signals AND SIGF_SINGLE = 0)) (
     bindM (gets running) (\<lambda>r.
     bindM (get_task r tk_sig_alloc) (\<lambda>alloc.
     seqM (assertM (signals AND alloc = signals)) (
     upd_task r (\<lambda>t. t\<lparr>tk_sig_alloc := tk_sig_alloc t AND NOT signals\<rparr>)))))"

definition signal_send :: "ptr \<Rightarrow> Signals \<Rightarrow> unit K" where
  "signal_send task signals =
     seqM disable (
     seqM (upd_task task (\<lambda>t. t\<lparr>tk_sig_recvd := tk_sig_recvd t OR signals\<rparr>)) (
     bindM (get_task task tk_state) (\<lambda>st.
     bindM (get_task task tk_sig_wait) (\<lambda>w.
     seqM (whenM (st = TASK_WAITING \<and> signals AND w \<noteq> 0) (
       seqM (in_nodes (list_unlink task)) (
       seqM (upd_task task (\<lambda>t. t\<lparr>tk_state := TASK_READY\<rparr>)) (
       seqM (in_nodes (list_enqueue ready task)) (
       bindM (gets running) (\<lambda>r.
       bindM (get_prio r) (\<lambda>rp.
       bindM (get_prio task) (\<lambda>tp.
       whenM (rp < tp) reschedule))))))))
     enable))))"

text \<open>
  \<open>signal_wait\<close>.  \<open>Blocked n\<close>: the task has put itself on the waiting list and requested a
  switch; \<open>n\<close> is its local \<open>nestcnt\<close>.  \<open>Returned v\<close>: the call returns \<open>v\<close>.
\<close>

datatype wait_result = Returned Signals | Blocked int

definition signal_wait_loop :: "Signals \<Rightarrow> wait_result K" where
  "signal_wait_loop signals =
     bindM (gets running) (\<lambda>r.
     bindM (get_task r tk_sig_recvd) (\<lambda>recvd.
     if signals AND recvd = 0 then
       seqM (upd_task r (\<lambda>t. t\<lparr>tk_state := TASK_WAITING\<rparr>)) (
       seqM (in_nodes (list_add_tail waiting r)) (
       bindM (gets id_nestcnt) (\<lambda>n.
       seqM (set_nestcnt 0) (
       seqM enable (
       seqM reschedule (
       ret (Blocked (to_int16 n))))))))
     else
       seqM (upd_task r (\<lambda>t. t\<lparr>tk_sig_recvd := tk_sig_recvd t AND NOT (signals AND recvd)\<rparr>)) (
       seqM enable (
       ret (Returned (signals AND recvd))))))"

definition signal_wait :: "Signals \<Rightarrow> wait_result K" where
  "signal_wait signals =
     seqM disable (
     bindM (gets running) (\<lambda>r.
     seqM (upd_task r (\<lambda>t. t\<lparr>tk_sig_wait := signals\<rparr>)) (
     signal_wait_loop signals)))"

definition signal_wait_resume :: "Signals \<Rightarrow> int \<Rightarrow> wait_result K" where
  "signal_wait_resume signals nestcnt =
     seqM disable (
     seqM (set_nestcnt nestcnt) (
     signal_wait_loop signals))"

end
