(* ===== verification/Sched.thy ===== *)
theory Sched
  imports TaskC
begin

unbundle bit_operations_syntax

text \<open>
  The scheduler: the context switch \<open>PendSV_Handler_user\<close> and the time slice
  \<open>SysTick_Handler\<close> of \<open>platform.c\<close>, the invariant \<open>kern\<close> of the kernel state, and the
  proof that the operations of \<open>task.c\<close> and the context switch keep it.
\<close>

section \<open>Context switch and time slice\<close>

definition PendSV_Handler_user :: "32 word \<Rightarrow> 32 word K" where
  "PendSV_Handler_user old_frame =
     bindM (gets running) (\<lambda>old.
     seqM (task_verify old) (
     seqM disable_irq (
     seqM (upd_context old (\<lambda>c. c\<lparr>cx_frame := old_frame\<rparr>)) (
     bindM (get_task old tk_state) (\<lambda>st.
     seqM (whenM (st = TASK_RUNNING) (
       seqM (upd_task old (\<lambda>t. t\<lparr>tk_state := TASK_READY\<rparr>)) (
       in_nodes (list_enqueue ready old)))) (
     seqM (if st = TASK_RUNNING \<or> st = TASK_READY \<or> st = TASK_WAITING then
       bindM (gets id_nestcnt) (\<lambda>n.
       seqM (upd_task old (\<lambda>t. t\<lparr>tk_id_nestcnt := n\<rparr>)) (
       bindM (in_nodes (list_rem_head ready)) (\<lambda>new.
       seqM (modify (\<lambda>s. s\<lparr>running := new\<rparr>)) (
       seqM (upd_task new (\<lambda>t. t\<lparr>tk_state := TASK_RUNNING\<rparr>)) (
       bindM (get_task new tk_id_nestcnt) (\<lambda>m.
       seqM (set_nestcnt m) (
       modify (\<lambda>s. s\<lparr>elapsed := QUANTUM\<rparr>))))))))
       else throw Hang) (
     bindM (gets id_nestcnt) (\<lambda>n.
     seqM (whenM (n < 0) enable_irq) (
     bindM (gets running) (\<lambda>new.
     seqM (task_verify new) (
     get_task new (\<lambda>t. cx_frame (tk_context t)))))))))))))"

text \<open>
  The exception entry clears the pending bit; the assembly handler passes the stack
  pointer of the interrupted task, below the registers it pushed.
\<close>

definition PendSV_Handler :: "32 word \<Rightarrow> 32 word K" where
  "PendSV_Handler psp =
     seqM (modify (\<lambda>s. s\<lparr>pendsv := False\<rparr>)) (
     PendSV_Handler_user (psp - 32))"

definition SysTick_Handler :: "unit K" where
  "SysTick_Handler =
     seqM (modify (\<lambda>s. s\<lparr>elapsed := elapsed s - 1\<rparr>)) (
     bindM (gets elapsed) (\<lambda>e.
     whenM (0 = e) (modify (\<lambda>s. s\<lparr>pendsv := True\<rparr>))))"

section \<open>The invariant\<close>

definition ctx_ok :: "TaskContext \<Rightarrow> bool" where
  "ctx_ok c = (cx_bos c \<le> cx_frame c \<and> cx_frame c + SIZEOF_StackFrame \<le> cx_tos c)"

definition task_ok :: "Task \<Rightarrow> bool" where
  "task_ok t = (ctx_ok (tk_context t) \<and> SIGF_SINGLE AND tk_sig_alloc t \<noteq> 0 \<and> tk_id_nestcnt t = - 1)"

text \<open>
  \<open>kern s L r rs ws\<close>: in state \<open>s\<close> the lists of the system hold \<open>L\<close>; the ready list is
  \<open>rs\<close>, the waiting list \<open>ws\<close>, and \<open>r\<close> is the task the processor executes.  The list a
  task is on agrees with its state; no waiting task has received a signal it waits for;
  the ready list is sorted by priority; unless a switch is pending, \<open>r\<close> is running and no
  ready task has a higher priority; the init task never waits.
\<close>

definition kern :: "kstate \<Rightarrow> lists \<Rightarrow> addr \<Rightarrow> addr list \<Rightarrow> addr list \<Rightarrow> bool" where
  "kern s L r rs ws = (
     lists_ok (nodes s) L \<and> L ready = Some rs \<and> L waiting = Some ws \<and> running s = Obj r
     \<and> (\<forall>l xs. L l = Some xs \<longrightarrow> l \<noteq> ready \<longrightarrow> l \<noteq> waiting \<longrightarrow> r \<notin> set xs)
     \<and> (\<forall>t \<in> set rs. tk_state (tasks s (Obj t)) = TASK_READY)
     \<and> (\<forall>t \<in> set ws. tk_state (tasks s (Obj t)) = TASK_WAITING
          \<and> tk_sig_wait (tasks s (Obj t)) AND tk_sig_recvd (tasks s (Obj t)) = 0)
     \<and> (r \<notin> set rs \<union> set ws \<longrightarrow> tk_state (tasks s (Obj r)) = TASK_RUNNING)
     \<and> (\<forall>t \<in> insert r (set rs \<union> set ws). task_ok (tasks s (Obj t)))
     \<and> sorted_prio (prio_of (nodes s)) rs
     \<and> irq_ok s
     \<and> (pendsv s \<or> (r \<notin> set rs \<union> set ws
          \<and> (\<forall>t \<in> set rs. prio_of (nodes s) t \<le> prio_of (nodes s) r)))
     \<and> init_addr \<in> insert r (set rs) \<and> init_addr \<notin> set ws)"

text \<open>What no kernel call on tasks changes.\<close>

definition same_store :: "kstate \<Rightarrow> kstate \<Rightarrow> bool" where
  "same_store s u = (sems u = sems s \<and> reqs u = reqs s \<and> ports u = ports s \<and> msgs u = msgs s
     \<and> tmrs u = tmrs s \<and> timer_now u = timer_now s \<and> null_name u = null_name s
     \<and> ram u = ram s \<and> same_data (nodes s) (nodes u))"

definition same_objs :: "kstate \<Rightarrow> kstate \<Rightarrow> bool" where
  "same_objs s u = (same_store s u \<and> id_nestcnt u = id_nestcnt s \<and> primask u = primask s)"

lemmas same_defs = same_objs_def same_store_def

lemma same_store_refl [simp]: "same_store s s"
  by (simp add: same_store_def)

lemma same_store_trans: "same_store s t \<Longrightarrow> same_store t u \<Longrightarrow> same_store s u"
  by (auto simp: same_store_def intro: same_data_trans)

lemma same_objs_refl [simp]: "same_objs s s"
  by (simp add: same_objs_def)

lemma same_objs_trans: "same_objs s t \<Longrightarrow> same_objs t u \<Longrightarrow> same_objs s u"
  by (auto simp: same_objs_def intro: same_store_trans)

lemma same_objs_prio: "same_objs s u \<Longrightarrow> prio_of (nodes u) = prio_of (nodes s)"
  by (simp add: same_defs same_data_prio_of)

lemma kern_lists:
  assumes "kern s L r rs ws"
  shows "lists_ok (nodes s) L" "L ready = Some rs" "L waiting = Some ws" "running s = Obj r"
    "irq_ok s" "sorted_prio (prio_of (nodes s)) rs"
    "L l = Some xs \<Longrightarrow> l \<noteq> ready \<Longrightarrow> l \<noteq> waiting \<Longrightarrow> r \<notin> set xs"
  using assms by (auto simp: kern_def)

lemma kern_tasks:
  assumes "kern s L r rs ws"
  shows "t \<in> set rs \<Longrightarrow> tk_state (tasks s (Obj t)) = TASK_READY"
    "t \<in> set ws \<Longrightarrow> tk_state (tasks s (Obj t)) = TASK_WAITING"
    "t \<in> set ws \<Longrightarrow> tk_sig_wait (tasks s (Obj t)) AND tk_sig_recvd (tasks s (Obj t)) = 0"
    "r \<notin> set rs \<Longrightarrow> r \<notin> set ws \<Longrightarrow> tk_state (tasks s (Obj r)) = TASK_RUNNING"
    "t \<in> insert r (set rs \<union> set ws) \<Longrightarrow> task_ok (tasks s (Obj t))"
  using assms by (auto simp: kern_def)

lemma kern_sched:
  assumes "kern s L r rs ws"
  shows "\<not> pendsv s \<Longrightarrow> r \<notin> set rs" "\<not> pendsv s \<Longrightarrow> r \<notin> set ws"
    "\<not> pendsv s \<Longrightarrow> t \<in> set rs \<Longrightarrow> prio_of (nodes s) t \<le> prio_of (nodes s) r"
    "init_addr \<in> insert r (set rs)" "init_addr \<notin> set ws"
  using assms by (auto simp: kern_def)

lemma kern_distinct:
  assumes "kern s L r rs ws"
  shows "distinct rs" "distinct ws" "set rs \<inter> set ws = {}"
  using kern_lists [OF assms]
  by (auto dest: lists_ok_distinct lists_ok_disjoint [of _ _ ready rs waiting ws])

lemma kern_unlinked:
  assumes "kern s L r rs ws" "r \<notin> set rs" "r \<notin> set ws"
  shows "unlinked L r"
  unfolding unlinked_def
proof (intro allI impI)
  fix l xs assume "L l = Some xs"
  then show "r \<notin> set xs"
    using kern_lists(2,3) [OF assms(1)] kern_lists(7) [OF assms(1), of l xs] assms(2,3)
    by (cases "l = ready \<or> l = waiting") auto
qed

lemma task_verify_ok:
  assumes "t \<noteq> NULL" "task_ok (tasks s t)" "tk_state (tasks s t) \<noteq> TASK_INVALID" "irq_ok s" "nest_room 1 s"
  shows "runs_to (task_verify t) s P = P () s"
proof -
  have "tk_state (tasks s t) = TASK_INITIALIZED \<or> tk_state (tasks s t) = TASK_RUNNING
      \<or> tk_state (tasks s t) = TASK_READY \<or> tk_state (tasks s t) = TASK_WAITING"
    using assms(3) by (cases "tk_state (tasks s t)") auto
  then show ?thesis
    using assms(1,2,5) irq_ok_range [OF assms(4)]
    by (simp add: task_verify_def taskcontext_verify_def run_simps task_ok_def ctx_ok_def
        irq_ok_primask [OF assms(4)] nest_room_def int32_bounds)
qed

section \<open>Signals\<close>

text \<open>A signal that no waiting task waits for is only recorded.\<close>

lemma kern_record_signal:
  assumes k: "kern s L r rs ws" and a: "a \<in> insert r (set rs \<union> set ws)"
    and nw: "a \<in> set ws \<Longrightarrow> signals AND tk_sig_wait (tasks s (Obj a)) = 0"
    and u: "nodes u = nodes s" "running u = running s" "pendsv u = pendsv s" "irq_ok u"
      "tasks u = (tasks s)(Obj a := (tasks s (Obj a))
         \<lparr>tk_sig_recvd := tk_sig_recvd (tasks s (Obj a)) OR signals\<rparr>)"
  shows "kern u L r rs ws"
proof -
  have "tk_sig_wait (tasks s (Obj a)) AND (tk_sig_recvd (tasks s (Obj a)) OR signals) = 0" if "a \<in> set ws"
    using kern_tasks(3) [OF k that] nw [OF that] by (auto simp: bit_eq_iff bit_simps)
  then show ?thesis
    using k u unfolding kern_def by (auto simp: task_ok_def)
qed

text \<open>A waiting task that receives a signal it waits for moves to the ready list.\<close>

lemma kern_wake:
  assumes k: "kern s L r rs ws" and a: "a \<in> set ws"
    and u: "lists_ok (nodes u) (L(waiting \<mapsto> remove1 a ws, ready \<mapsto> enqueue_spec (prio_of (nodes s)) a rs))"
      "same_data (nodes s) (nodes u)" "running u = running s" "irq_ok u"
      "pendsv u \<longleftrightarrow> pendsv s \<or> prio_of (nodes s) r < prio_of (nodes s) a"
      "tasks u = (tasks s)(Obj a := (tasks s (Obj a))\<lparr>tk_sig_recvd := v, tk_state := TASK_READY\<rparr>)"
  shows "kern u (L(waiting \<mapsto> remove1 a ws, ready \<mapsto> enqueue_spec (prio_of (nodes s)) a rs))
     r (enqueue_spec (prio_of (nodes s)) a rs) (remove1 a ws)"
proof -
  have pr: "prio_of (nodes u) = prio_of (nodes s)" by (rule same_data_prio_of [OF u(2)])
  have ws: "set (remove1 a ws) = set ws - {a}" "a \<notin> set rs"
    using kern_distinct [OF k] a by auto
  have "\<not> pendsv u \<Longrightarrow> t \<in> set (enqueue_spec (prio_of (nodes s)) a rs) \<Longrightarrow>
      prio_of (nodes s) t \<le> prio_of (nodes s) r" for t
    using kern_sched(3) [OF k] u(5) by auto
  moreover have "\<not> pendsv u \<Longrightarrow> r \<noteq> a"
    using kern_sched(2) [OF k] u(5) a by auto
  ultimately show ?thesis
    unfolding kern_def pr ws set_enqueue_spec
    using u kern_lists [OF k] kern_tasks [OF k] kern_sched [OF k] ws a
    by (auto simp: task_ok_def intro: sorted_enqueue_spec split: if_splits)
qed

text \<open>
  The abstract effect of \<open>signal_send\<close>: whether the task wakes up, the ready and the waiting
  list afterwards, and the task's fields.
\<close>

definition wakes :: "kstate \<Rightarrow> addr list \<Rightarrow> addr \<Rightarrow> Signals \<Rightarrow> bool" where
  "wakes s ws a signals = (a \<in> set ws \<and> signals AND tk_sig_wait (tasks s (Obj a)) \<noteq> 0)"

definition send_ready :: "kstate \<Rightarrow> addr list \<Rightarrow> addr list \<Rightarrow> addr \<Rightarrow> Signals \<Rightarrow> addr list" where
  "send_ready s rs ws a signals =
     (if wakes s ws a signals then enqueue_spec (prio_of (nodes s)) a rs else rs)"

definition send_waiting :: "kstate \<Rightarrow> addr list \<Rightarrow> addr \<Rightarrow> Signals \<Rightarrow> addr list" where
  "send_waiting s ws a signals = (if wakes s ws a signals then remove1 a ws else ws)"

definition send_task :: "kstate \<Rightarrow> addr list \<Rightarrow> addr \<Rightarrow> Signals \<Rightarrow> Task" where
  "send_task s ws a signals = (tasks s (Obj a))
     \<lparr>tk_sig_recvd := tk_sig_recvd (tasks s (Obj a)) OR signals,
      tk_state := (if wakes s ws a signals then TASK_READY else tk_state (tasks s (Obj a)))\<rparr>"

definition send_post :: "kstate \<Rightarrow> lists \<Rightarrow> addr \<Rightarrow> addr list \<Rightarrow> addr list \<Rightarrow> addr \<Rightarrow> Signals \<Rightarrow> kstate \<Rightarrow> bool" where
  "send_post s L r rs ws a signals u = (
     kern u (L(waiting \<mapsto> send_waiting s ws a signals, ready \<mapsto> send_ready s rs ws a signals))
       r (send_ready s rs ws a signals) (send_waiting s ws a signals)
     \<and> same_objs s u \<and> elapsed u = elapsed s
     \<and> tasks u = (tasks s)(Obj a := send_task s ws a signals)
     \<and> (pendsv s \<longrightarrow> pendsv u))"

lemma same_state_update:
  "(tasks s (Obj a))\<lparr>tk_sig_recvd := v, tk_state := tk_state (tasks s (Obj a))\<rparr> =
   (tasks s (Obj a))\<lparr>tk_sig_recvd := v\<rparr>"
  by (cases "tasks s (Obj a)") simp

lemma signal_send_record:
  assumes k: "kern s L r rs ws" and a: "a \<in> insert r (set rs \<union> set ws)" and n: "nest_room 1 s"
    and nw: "\<not> wakes s ws a signals"
  shows "runs_to (signal_send (Obj a) signals) s (\<lambda>_ u. send_post s L r rs ws a signals u)"
proof -
  note i = kern_lists(5) [OF k]
  have g: "(tk_state (tasks s (Obj a)) = TASK_WAITING \<and> signals AND tk_sig_wait (tasks s (Obj a)) \<noteq> 0) = False"
    using nw a kern_tasks(1,4) [OF k] by (cases "a \<in> set ws"; cases "a \<in> set rs") (auto simp: wakes_def)
  let ?u = "s\<lparr>tasks := (tasks s)(Obj a := (tasks s (Obj a))
      \<lparr>tk_sig_recvd := tk_sig_recvd (tasks s (Obj a)) OR signals\<rparr>)\<rparr>"
  have "kern ?u L r rs ws"
    by (rule kern_record_signal [OF k a, where signals = signals])
      (use nw i in \<open>auto simp: wakes_def irq_ok_def\<close>)
  then have "send_post s L r rs ws a signals ?u"
    using nw kern_lists(2,3) [OF k]
    by (simp add: send_post_def send_ready_def send_waiting_def send_task_def same_state_update
        same_defs fun_upd_idem)
  then show ?thesis
    using n irq_ok_range [OF i]
    by (simp add: signal_send_def run_simps nest_room_def int32_bounds irq_ok_primask [OF i] g)
qed

lemma signal_send_wake:
  assumes k: "kern s L r rs ws" and n: "nest_room 1 s" and w: "wakes s ws a signals"
  shows "runs_to (signal_send (Obj a) signals) s (\<lambda>_ u. send_post s L r rs ws a signals u)"
proof -
  note i = kern_lists(5) [OF k]
  have a: "a \<in> set ws" "signals AND tk_sig_wait (tasks s (Obj a)) \<noteq> 0"
    using w by (simp_all add: wakes_def)
  let ?L = "L(waiting \<mapsto> remove1 a ws, ready \<mapsto> enqueue_spec (prio_of (nodes s)) a rs)"
  let ?u = "\<lambda>h. s\<lparr>tasks := (tasks s)(Obj a := send_task s ws a signals), nodes := h,
      pendsv := pendsv s \<or> prio_of (nodes s) r < prio_of (nodes s) a\<rparr>"
  have post: "send_post s L r rs ws a signals (?u h)" if "lists_ok h ?L" "same_data (nodes s) h" for h
  proof -
    have "kern (?u h) ?L r (enqueue_spec (prio_of (nodes s)) a rs) (remove1 a ws)"
      by (rule kern_wake [OF k a(1)]) (use that i w in \<open>auto simp: send_task_def irq_ok_def\<close>)
    then show ?thesis
      using w that by (simp add: send_post_def send_ready_def send_waiting_def same_defs)
  qed
  have move: "runs_to (list_unlink (Obj a)) (nodes s) (\<lambda>_ h1. runs_to (list_enqueue ready (Obj a)) h1
      (\<lambda>_ h. lists_ok h ?L \<and> same_data (nodes s) h))"
    using lc.move_enqueue [OF kern_lists(1,3) [OF k] a(1) kern_lists(2) [OF k]] by (simp add: runs_to_seqM)
  have st: "tk_state (tasks s (Obj a)) = TASK_WAITING" by (rule kern_tasks(2) [OF k a(1)])
  have "runs_to (list_unlink (Obj a)) (nodes s) (\<lambda>_ h1. runs_to (list_enqueue ready (Obj a)) h1
      (\<lambda>_ h. same_data (nodes s) h \<and> send_post s L r rs ws a signals (?u h)))"
    by (rule runs_to_weaken [OF move], erule runs_to_weaken) (use post in blast)
  then show ?thesis
    using n irq_ok_range [OF i] a(2) st w
    by (simp add: signal_send_def run_simps nest_room_def int32_bounds irq_ok_primask [OF i]
        kern_lists(4) [OF k] send_task_def)
      (auto elim!: runs_to_weaken simp: same_data_def prio_of_def)
qed

lemma signal_send_kern:
  assumes "kern s L r rs ws" and "a \<in> insert r (set rs \<union> set ws)" and "nest_room 1 s"
  shows "runs_to (signal_send (Obj a) signals) s (\<lambda>_ u. send_post s L r rs ws a signals u)"
  using signal_send_record [OF assms] signal_send_wake [OF assms(1,3)] by blast

section \<open>Waiting for signals\<close>

text \<open>The task that blocks joins the end of the waiting list.\<close>

lemma kern_block:
  assumes k: "kern s L r rs ws" and r: "r \<notin> set rs" "r \<notin> set ws" "r \<noteq> init_addr"
    and w: "tk_sig_wait (tasks s (Obj r)) AND tk_sig_recvd (tasks s (Obj r)) = 0"
    and u: "lists_ok (nodes u) (L(waiting \<mapsto> ws @ [r]))" "same_data (nodes s) (nodes u)"
      "running u = running s" "irq_ok u" "pendsv u"
      "tasks u = (tasks s)(Obj r := (tasks s (Obj r))\<lparr>tk_state := TASK_WAITING\<rparr>)"
  shows "kern u (L(waiting \<mapsto> ws @ [r])) r rs (ws @ [r])"
  using k r w u same_data_prio_of [OF u(2)] unfolding kern_def
  by (auto simp: task_ok_def split: if_splits)

definition wait_block_post :: "kstate \<Rightarrow> lists \<Rightarrow> addr \<Rightarrow> addr list \<Rightarrow> addr list \<Rightarrow> kstate \<Rightarrow> bool" where
  "wait_block_post s L r rs ws u = (
     kern u (L(waiting \<mapsto> ws @ [r])) r rs (ws @ [r]) \<and> pendsv u \<and> id_nestcnt u = - 1 \<and> \<not> primask u
     \<and> tasks u = (tasks s)(Obj r := (tasks s (Obj r))\<lparr>tk_state := TASK_WAITING\<rparr>)
     \<and> same_store s u \<and> elapsed u = elapsed s)"

lemma signal_wait_loop_block:
  assumes k: "kern s L r rs ws" and r: "r \<notin> set rs" "r \<notin> set ws" "r \<noteq> init_addr" and n: "0 \<le> id_nestcnt s"
    and w: "tk_sig_wait (tasks s (Obj r)) = signals" "signals AND tk_sig_recvd (tasks s (Obj r)) = 0"
  shows "runs_to (signal_wait_loop signals) s
     (\<lambda>v u. v = Blocked (to_int16 (id_nestcnt s)) \<and> wait_block_post s L r rs ws u)"
proof -
  let ?L = "L(waiting \<mapsto> ws @ [r])"
  let ?u = "\<lambda>h. s\<lparr>tasks := (tasks s)(Obj r := (tasks s (Obj r))\<lparr>tk_state := TASK_WAITING\<rparr>), nodes := h,
      id_nestcnt := - 1, primask := False, pendsv := True\<rparr>"
  have "wait_block_post s L r rs ws (?u h)" if "lists_ok h ?L \<and> same_data (nodes s) h" for h
  proof -
    have "kern (?u h) ?L r rs (ws @ [r])"
      by (rule kern_block [OF k r]) (use that w in \<open>auto simp: irq_ok_def\<close>)
    then show ?thesis
      using that by (simp add: wait_block_post_def same_defs)
  qed
  then have "runs_to (list_add_tail waiting (Obj r)) (nodes s)
      (\<lambda>_ h. wait_block_post s L r rs ws (?u h))"
    using lc.add_tail_law [OF kern_lists(1,3) [OF k] kern_unlinked [OF k r(1,2)]]
    by (auto elim!: runs_to_weaken)
  then show ?thesis
    using w by (simp add: signal_wait_loop_def run_simps kern_lists(4) [OF k] set_nestcnt_def INT32_MAX_def)
qed

lemma kern_update_running:
  assumes k: "kern s L r rs ws" and r: "r \<notin> set rs" "r \<notin> set ws"
    and u: "nodes u = nodes s" "running u = running s" "pendsv u = pendsv s" "irq_ok u"
      "tasks u = (tasks s)(Obj r := T)" "tk_state T = TASK_RUNNING" "task_ok T"
  shows "kern u L r rs ws"
  using k r u unfolding kern_def by (auto split: if_splits)

lemma signal_wait_loop_return:
  assumes k: "kern s L r rs ws" and r: "r \<notin> set rs" "r \<notin> set ws" and n: "0 \<le> id_nestcnt s" "nest_room 0 s"
    and w: "signals AND tk_sig_recvd (tasks s (Obj r)) \<noteq> 0"
  shows "runs_to (signal_wait_loop signals) s
     (\<lambda>v u. v = Returned (signals AND tk_sig_recvd (tasks s (Obj r))) \<and> kern u L r rs ws
        \<and> same_store s u \<and> id_nestcnt u = id_nestcnt s - 1 \<and> elapsed u = elapsed s \<and> pendsv u = pendsv s
        \<and> tasks u = (tasks s)(Obj r := (tasks s (Obj r))\<lparr>tk_sig_recvd :=
            tk_sig_recvd (tasks s (Obj r)) AND NOT (signals AND tk_sig_recvd (tasks s (Obj r)))\<rparr>))"
proof -
  let ?T = "(tasks s (Obj r))\<lparr>tk_sig_recvd :=
      tk_sig_recvd (tasks s (Obj r)) AND NOT (signals AND tk_sig_recvd (tasks s (Obj r)))\<rparr>"
  let ?u = "s\<lparr>tasks := (tasks s)(Obj r := ?T), id_nestcnt := id_nestcnt s - 1,
      primask := primask s \<and> 1 \<le> id_nestcnt s\<rparr>"
  have "kern ?u L r rs ws"
    by (rule kern_update_running [OF k r, where T = ?T])
      (use kern_tasks(4,5) [OF k] r kern_lists(5) [OF k] n in \<open>auto simp: irq_ok_def task_ok_def\<close>)
  then show ?thesis
    using w n by (simp add: signal_wait_loop_def run_simps kern_lists(4) [OF k] same_defs nest_room_def)
qed

text \<open>The fields of the task when \<open>signal_wait\<close> returns at once.\<close>

definition consume :: "Signals \<Rightarrow> Task \<Rightarrow> Task" where
  "consume signals T = T\<lparr>tk_sig_wait := signals,
     tk_sig_recvd := tk_sig_recvd T AND NOT (signals AND tk_sig_recvd T)\<rparr>"

definition wait_post :: "kstate \<Rightarrow> lists \<Rightarrow> addr \<Rightarrow> addr list \<Rightarrow> addr list \<Rightarrow> Signals \<Rightarrow> int \<Rightarrow> wait_result \<Rightarrow> kstate \<Rightarrow> bool" where
  "wait_post s L r rs ws signals n v u = (same_store s u \<and> elapsed u = elapsed s
     \<and> (let T = tasks s (Obj r) in
        if signals AND tk_sig_recvd T = 0 then
          v = Blocked (to_int16 n) \<and> kern u (L(waiting \<mapsto> ws @ [r])) r rs (ws @ [r]) \<and> pendsv u
          \<and> id_nestcnt u = - 1 \<and> tasks u = (tasks s)(Obj r := T\<lparr>tk_sig_wait := signals, tk_state := TASK_WAITING\<rparr>)
        else
          v = Returned (signals AND tk_sig_recvd T) \<and> kern u L r rs ws \<and> pendsv u = pendsv s
          \<and> id_nestcnt u = n - 1 \<and> tasks u = (tasks s)(Obj r := consume signals T)))"

lemma signal_wait_loop_kern:
  fixes signals :: Signals
  assumes k: "kern s L r rs ws" and r: "r \<notin> set rs" "r \<notin> set ws" "r \<noteq> init_addr"
    and n: "0 \<le> n" "n \<le> INT32_MAX"
  defines "s1 \<equiv> s\<lparr>primask := True, id_nestcnt := n,
      tasks := (tasks s)(Obj r := (tasks s (Obj r))\<lparr>tk_sig_wait := signals\<rparr>)\<rparr>"
  shows "runs_to (signal_wait_loop signals) s1 (\<lambda>v u. wait_post s L r rs ws signals n v u)"
proof -
  have k1: "kern s1 L r rs ws"
    by (rule kern_update_running [OF k r(1,2), where T = "(tasks s (Obj r))\<lparr>tk_sig_wait := signals\<rparr>"])
      (use kern_tasks(4,5) [OF k] r kern_lists(5) [OF k] n in \<open>auto simp: s1_def irq_ok_def task_ok_def\<close>)
  have s1: "tk_sig_recvd (tasks s1 (Obj r)) = tk_sig_recvd (tasks s (Obj r))"
    "tk_sig_wait (tasks s1 (Obj r)) = signals" "id_nestcnt s1 = n" "same_store s s1"
    "nest_room 0 s1" "pendsv s1 = pendsv s" "elapsed s1 = elapsed s"
    using n by (simp_all add: s1_def nest_room_def same_store_def)
  show ?thesis
  proof (cases "signals AND tk_sig_recvd (tasks s (Obj r)) = 0")
    case True
    show ?thesis
      by (rule runs_to_weaken [OF signal_wait_loop_block [OF k1 r, where signals = signals]])
        (use True s1 n in \<open>auto simp: wait_post_def wait_block_post_def Let_def s1_def
          intro: same_store_trans\<close>)
  next
    case False
    show ?thesis
      by (rule runs_to_weaken [OF signal_wait_loop_return [OF k1 r(1,2), where signals = signals]])
        (use False s1 n in \<open>auto simp: wait_post_def consume_def Let_def s1_def intro: same_store_trans\<close>)
  qed
qed

lemma signal_wait_kern:
  assumes k: "kern s L r rs ws" and r: "r \<notin> set rs" "r \<notin> set ws" "r \<noteq> init_addr" and n: "nest_room 1 s"
  shows "runs_to (signal_wait signals) s (\<lambda>v u. wait_post s L r rs ws signals (id_nestcnt s + 1) v u)"
  using signal_wait_loop_kern [OF k r, of "id_nestcnt s + 1" signals] n irq_ok_range [OF kern_lists(5) [OF k]]
  by (simp add: signal_wait_def run_simps nest_room_def INT32_MIN_def kern_lists(4) [OF k])

lemma signal_wait_resume_kern:
  assumes k: "kern s L r rs ws" and r: "r \<notin> set rs" "r \<notin> set ws" "r \<noteq> init_addr"
    and w: "tk_sig_wait (tasks s (Obj r)) = signals" and s: "id_nestcnt s = - 1"
    and n: "0 \<le> n" "n \<le> INT32_MAX"
  shows "runs_to (signal_wait_resume signals n) s (\<lambda>v u. wait_post s L r rs ws signals n v u)"
proof -
  have "(tasks s)(Obj r := (tasks s (Obj r))\<lparr>tk_sig_wait := signals\<rparr>) = tasks s"
    using w by (simp add: fun_upd_idem)
  then show ?thesis
    using signal_wait_loop_kern [OF k r n, of signals] s
    by (simp add: signal_wait_resume_def run_simps int32_bounds set_nestcnt_def)
qed

section \<open>The context switch\<close>

definition switch_queue :: "kstate \<Rightarrow> addr \<Rightarrow> addr list \<Rightarrow> addr list \<Rightarrow> addr list" where
  "switch_queue s r rs ws =
     (if r \<notin> set rs \<union> set ws then enqueue_spec (prio_of (nodes s)) r rs else rs)"

lemma switch_queue_props:
  assumes k: "kern s L r rs ws"
  shows "switch_queue s r rs ws \<noteq> []" "sorted_prio (prio_of (nodes s)) (switch_queue s r rs ws)"
    "distinct (switch_queue s r rs ws)" "set (switch_queue s r rs ws) \<inter> set ws = {}"
    "set (switch_queue s r rs ws) \<subseteq> insert r (set rs)" "init_addr \<in> set (switch_queue s r rs ws)"
proof -
  note f = kern_distinct [OF k] kern_lists(6) [OF k] kern_sched(4,5) [OF k]
  show "init_addr \<in> set (switch_queue s r rs ws)"
    using f by (auto simp: switch_queue_def)
  then show "switch_queue s r rs ws \<noteq> []" by auto
qed (use kern_distinct [OF k] kern_lists(6) [OF k] in
      \<open>auto simp: switch_queue_def intro: sorted_enqueue_spec\<close>)

text \<open>The task fields across a switch: of the task switched out, and of the one switched in.\<close>

definition switched_out :: "32 word \<Rightarrow> Task \<Rightarrow> Task" where
  "switched_out fr T = T\<lparr>tk_context := (tk_context T)\<lparr>cx_frame := fr\<rparr>,
     tk_state := (if tk_state T = TASK_RUNNING then TASK_READY else tk_state T), tk_id_nestcnt := - 1\<rparr>"

definition switch_tasks :: "kstate \<Rightarrow> addr \<Rightarrow> addr \<Rightarrow> 32 word \<Rightarrow> ptr \<Rightarrow> Task" where
  "switch_tasks s r y fr =
     (let m = (tasks s)(Obj r := switched_out fr (tasks s (Obj r)))
      in m(Obj y := (m (Obj y))\<lparr>tk_state := TASK_RUNNING\<rparr>))"

definition frame_fits :: "32 word \<Rightarrow> TaskContext \<Rightarrow> bool" where
  "frame_fits fr c = (cx_bos c \<le> fr \<and> fr + SIZEOF_StackFrame \<le> cx_tos c)"

lemma kern_switch:
  assumes k: "kern s L r rs ws" and q: "switch_queue s r rs ws = y # ys"
    and f: "frame_fits fr (tk_context (tasks s (Obj r)))"
    and u: "lists_ok (nodes u) (L(ready \<mapsto> ys))" "same_data (nodes s) (nodes u)" "running u = Obj y"
      "irq_ok u" "tasks u = switch_tasks s r y fr"
  shows "kern u (L(ready \<mapsto> ys)) y ys ws \<and> (\<forall>t \<in> set ys. prio_of (nodes u) t \<le> prio_of (nodes u) y)"
proof -
  note pr = same_data_prio_of [OF u(2)]
  note Q = switch_queue_props [OF k, unfolded q]
  have sub: "y \<in> insert r (set rs)" "set ys \<subseteq> insert r (set rs)" using Q(5) by auto
  have y: "y \<notin> set ys" "y \<notin> set ws" "set ys \<inter> set ws = {}" using Q(3,4) by auto
  have tk: "task_ok (switched_out fr (tasks s (Obj r)))"
    using kern_tasks(5) [OF k, of r] f by (auto simp: task_ok_def ctx_ok_def switched_out_def frame_fits_def)
  have ro: "t = r \<Longrightarrow> t \<in> set ys \<Longrightarrow> tk_state (switched_out fr (tasks s (Obj r))) = TASK_READY" for t
    using kern_tasks(1,2,4) [OF k] y(3) by (cases "r \<in> set rs"; cases "r \<in> set ws") (auto simp: switched_out_def)
  have rw: "r \<in> set ws \<Longrightarrow> tk_state (switched_out fr (tasks s (Obj r))) = TASK_WAITING
      \<and> tk_sig_wait (switched_out fr (tasks s (Obj r))) AND tk_sig_recvd (switched_out fr (tasks s (Obj r))) = 0"
    using kern_tasks(2,3) [OF k] by (simp add: switched_out_def)
  have other: "L l = Some xs \<Longrightarrow> l \<noteq> ready \<Longrightarrow> l \<noteq> waiting \<Longrightarrow> y \<notin> set xs" for l xs
    using sub(1) kern_lists(7) [OF k] lists_ok_disjoint [OF kern_lists(1,2) [OF k], of l xs] by auto
  have s: "sorted_prio (prio_of (nodes s)) ys" "\<forall>t \<in> set ys. prio_of (nodes s) t \<le> prio_of (nodes s) y"
    using Q(2) by (simp_all add: sorted_prio_def)
  have T: "tasks u (Obj t) = (if t = y then (if y = r then switched_out fr (tasks s (Obj r)) else tasks s (Obj y))
      \<lparr>tk_state := TASK_RUNNING\<rparr> else if t = r then switched_out fr (tasks s (Obj r)) else tasks s (Obj t))" for t
    using u(5) by (simp add: switch_tasks_def Let_def)
  have ok: "task_ok (tasks u (Obj t))" if "t \<in> insert y (set ys \<union> set ws)" for t
  proof -
    have "t \<in> insert r (set rs \<union> set ws)" using that sub by auto
    then have "task_ok (tasks s (Obj t))" by (rule kern_tasks(5) [OF k])
    then show ?thesis using tk unfolding T by (auto simp: task_ok_def)
  qed
  show ?thesis
    unfolding kern_def pr
    using u(1,3,4) kern_lists(3) [OF k] kern_sched(5) [OF k] y s other ok Q(6) ro rw sub
      kern_tasks(1,2,3) [OF k]
    by (auto simp: T)
qed

definition switch_post ::
  "kstate \<Rightarrow> lists \<Rightarrow> addr \<Rightarrow> addr list \<Rightarrow> addr list \<Rightarrow> 32 word \<Rightarrow> 32 word \<Rightarrow> kstate \<Rightarrow> bool" where
  "switch_post s L r rs ws fr v u = (let y = hd (switch_queue s r rs ws); ys = tl (switch_queue s r rs ws) in
     kern u (L(ready \<mapsto> ys)) y ys ws \<and> \<not> pendsv u \<and> same_objs s u \<and> elapsed u = QUANTUM
     \<and> tasks u = switch_tasks s r y fr \<and> v = cx_frame (tk_context (tasks u (Obj y))))"

lemma task_verify_intro:
  "t \<noteq> NULL \<Longrightarrow> task_ok (tasks s t) \<Longrightarrow> tk_state (tasks s t) \<noteq> TASK_INVALID \<Longrightarrow> irq_ok s \<Longrightarrow>
   nest_room 1 s \<Longrightarrow> P () s \<Longrightarrow> runs_to (task_verify t) s P"
  by (simp add: task_verify_ok)

lemma kern_state_valid:
  assumes "kern s L r rs ws"
  shows "tk_state (tasks s (Obj r)) \<in> {TASK_RUNNING, TASK_READY, TASK_WAITING}"
    and "tk_state (tasks s (Obj r)) = TASK_RUNNING \<longleftrightarrow> r \<notin> set rs \<union> set ws"
  using kern_tasks(1,2) [OF assms, of r] kern_tasks(4) [OF assms] by auto

text \<open>The second half of the handler, from the queue \<open>y # ys\<close> on.\<close>

lemma switch_finish:
  assumes k: "kern s L r rs ws" and p: "\<not> primask s" "id_nestcnt s = - 1"
    and q: "switch_queue s r rs ws = y # ys" and f: "frame_fits fr (tk_context (tasks s (Obj r)))"
    and h: "lists_ok h (L(ready \<mapsto> ys))" "same_data (nodes s) h"
  defines "u \<equiv> s\<lparr>pendsv := False, nodes := h, running := Obj y, tasks := switch_tasks s r y fr,
      id_nestcnt := - 1, elapsed := QUANTUM, primask := False\<rparr>"
  shows "runs_to (seqM (task_verify (Obj y)) (get_task (Obj y) (\<lambda>t. cx_frame (tk_context t)))) u
     (\<lambda>v u. switch_post s L r rs ws fr v u)"
proof -
  have K: "kern u (L(ready \<mapsto> ys)) y ys ws"
    using kern_switch [OF k q f, of u] h p by (simp add: u_def irq_ok_def)
  have "tk_state (tasks u (Obj y)) \<noteq> TASK_INVALID"
    using kern_state_valid(1) [OF K] by auto
  then show ?thesis
    unfolding runs_to_seqM
    using K kern_tasks(5) [OF K, of y] kern_lists(5) [OF K] p h q
    by (intro task_verify_intro)
      (simp_all add: u_def nest_room_def INT32_MAX_def run_simps switch_post_def same_defs Let_def)
qed

lemma switched_out_cases:
  "tk_state T \<noteq> TASK_RUNNING \<Longrightarrow> switched_out fr T =
     T\<lparr>tk_context := (tk_context T)\<lparr>cx_frame := fr\<rparr>, tk_id_nestcnt := - 1\<rparr>"
  "tk_state T = TASK_RUNNING \<Longrightarrow> switched_out fr T =
     T\<lparr>tk_context := (tk_context T)\<lparr>cx_frame := fr\<rparr>, tk_state := TASK_READY, tk_id_nestcnt := - 1\<rparr>"
  by (cases T; simp add: switched_out_def)+

lemma switch_nestcnt:
  assumes "kern s L r rs ws" and "y \<in> insert r (set rs)"
  shows "tk_id_nestcnt (switch_tasks s r y fr (Obj y)) = - 1"
  using kern_tasks(5) [OF assms(1), of y] assms(2)
  by (auto simp: switch_tasks_def Let_def switched_out_def task_ok_def)

lemma PendSV_kern:
  assumes k: "kern s L r rs ws" and p: "\<not> primask s"
    and f: "frame_fits (psp - 32) (tk_context (tasks s (Obj r)))"
  shows "runs_to (PendSV_Handler psp) s (\<lambda>v u. switch_post s L r rs ws (psp - 32) v u)"
proof -
  let ?fr = "psp - 32"
  have n: "id_nestcnt s = - 1" using kern_lists(5) [OF k] p by (simp add: irq_ok_def)
  obtain y ys where q: "switch_queue s r rs ws = y # ys"
    using switch_queue_props(1) [OF k] by (cases "switch_queue s r rs ws") auto
  have "y \<in> insert r (set rs)" using switch_queue_props(5) [OF k] q by auto
  note cnt = switch_nestcnt [OF k this, of ?fr, unfolded switch_tasks_def Let_def fun_upd_same]
  note fin = switch_finish [OF k p n q f]
  have ver: "runs_to (task_verify (Obj r)) (s\<lparr>pendsv := False\<rparr>) P = P () (s\<lparr>pendsv := False\<rparr>)" for P
    using kern_tasks(5) [OF k, of r] kern_state_valid(1) [OF k] kern_lists(5) [OF k] n
    by (intro task_verify_ok) (auto simp: irq_ok_def nest_room_def INT32_MAX_def)
  note run = PendSV_Handler_def PendSV_Handler_user_def run_simps ver kern_lists(4) [OF k]
    disable_irq_def enable_irq_def upd_context_def set_nestcnt_def n
  show ?thesis
  proof (cases "r \<in> set rs \<union> set ws")
    case True
    then have qr: "rs = y # ys" using q by (auto simp: switch_queue_def)
    have st: "tk_state (tasks s (Obj r)) \<noteq> TASK_RUNNING"
      "tk_state (tasks s (Obj r)) = TASK_READY \<or> tk_state (tasks s (Obj r)) = TASK_WAITING"
      using kern_state_valid [OF k] True by auto
    have rem: "runs_to (list_rem_head ready) (nodes s)
        (\<lambda>x h. x = Obj y \<and> lists_ok h (L(ready \<mapsto> ys)) \<and> same_data (nodes s) h)"
      using lc.rem_head_law [OF kern_lists(1,2) [OF k]] qr by simp
    show ?thesis
      using st
      apply (simp add: run)
      apply (rule runs_to_weaken [OF rem])
      apply (clarsimp split del: if_split)
      using cnt fin
      by (cases "y = r"; simp add: switched_out_cases switch_tasks_def run_simps n)
  next
    case False
    then have st: "tk_state (tasks s (Obj r)) = TASK_RUNNING" using kern_state_valid [OF k] by auto
    have q': "enqueue_spec (prio_of (nodes s)) r rs = y # ys" using q False by (simp add: switch_queue_def)
    have rem: "runs_to (list_enqueue ready (Obj r)) (nodes s) (\<lambda>_ h1. runs_to (list_rem_head ready) h1
        (\<lambda>x h. x = Obj y \<and> lists_ok h (L(ready \<mapsto> ys)) \<and> same_data (nodes s) h))"
      using lc.enqueue_rem_head [OF kern_lists(1,2) [OF k] kern_unlinked [OF k]] False q'
      by (simp add: run_simps)
    show ?thesis
      using st
      apply (simp add: run)
      apply (rule runs_to_weaken [OF rem], erule runs_to_weaken)
      apply (clarsimp split del: if_split)
      using cnt fin
      by (cases "y = r"; simp add: switched_out_cases switch_tasks_def run_simps n)

  qed
qed

end
