(* ===== verification/Tasks.thy ===== *)
theory Tasks
  imports Sched
begin

unbundle bit_operations_syntax

text \<open>
  The rest of \<open>task.c\<close> against the invariant \<open>kern\<close>: making a task ready, changing a
  priority, allocating and freeing signals, finding and initialising tasks; the time slice; the
  service that the semaphores, ports and timers build on; and the properties of tasks,
  signals and the scheduler.
\<close>

section \<open>Changes outside the ready and the waiting list\<close>

lemma kern_other_list:
  assumes k: "kern s L r rs ws" and l: "l \<noteq> ready" "l \<noteq> waiting" "r \<notin> set xs"
    and u: "lists_ok (nodes u) (L(l \<mapsto> xs))" "same_data (nodes s) (nodes u)" "running u = running s"
      "pendsv u = pendsv s" "irq_ok u" "tasks u = tasks s"
  shows "kern u (L(l \<mapsto> xs)) r rs ws"
  using k l u same_data_prio_of [OF u(2)] unfolding kern_def by (auto split: if_splits)

lemma kern_cong:
  assumes k: "kern s L r rs ws"
    and u: "nodes u = nodes s" "running u = running s" "pendsv s \<longrightarrow> pendsv u" "irq_ok u" "tasks u = tasks s"
  shows "kern u L r rs ws"
  using k u unfolding kern_def by auto

section \<open>Making a task ready\<close>

definition schedule_post :: "kstate \<Rightarrow> lists \<Rightarrow> addr \<Rightarrow> addr list \<Rightarrow> addr list \<Rightarrow> addr \<Rightarrow> kstate \<Rightarrow> bool" where
  "schedule_post s L r rs ws a u = (
     kern u (L(ready \<mapsto> enqueue_spec (prio_of (nodes s)) a rs)) r (enqueue_spec (prio_of (nodes s)) a rs) ws
     \<and> pendsv u \<and> same_objs s u \<and> elapsed u = elapsed s
     \<and> tasks u = (tasks s)(Obj a := (tasks s (Obj a))\<lparr>tk_state := TASK_READY\<rparr>))"

lemma kern_schedule:
  assumes k: "kern s L r rs ws" and a: "unlinked L a" "a \<noteq> r" "task_ok (tasks s (Obj a))"
    and u: "lists_ok (nodes u) (L(ready \<mapsto> enqueue_spec (prio_of (nodes s)) a rs))"
      "same_data (nodes s) (nodes u)" "running u = running s" "irq_ok u" "pendsv u"
      "tasks u = (tasks s)(Obj a := (tasks s (Obj a))\<lparr>tk_state := TASK_READY\<rparr>)"
  shows "kern u (L(ready \<mapsto> enqueue_spec (prio_of (nodes s)) a rs)) r (enqueue_spec (prio_of (nodes s)) a rs) ws"
proof -
  have pr: "prio_of (nodes u) = prio_of (nodes s)" by (rule same_data_prio_of [OF u(2)])
  have "a \<notin> set rs" "a \<notin> set ws"
    using kern_lists(2,3) [OF k] a(1) by (auto dest: unlinkedD)
  then show ?thesis
    unfolding kern_def pr
    using u a kern_lists [OF k] kern_tasks [OF k] kern_sched(4,5) [OF k]
    by (auto simp: task_ok_def intro: sorted_enqueue_spec split: if_splits)
qed

lemma task_schedule_kern:
  assumes k: "kern s L r rs ws" and a: "unlinked L a" "a \<noteq> r" "task_ok (tasks s (Obj a))"
      "tk_state (tasks s (Obj a)) = TASK_INITIALIZED" and n: "nest_room 1 s"
  shows "runs_to (task_schedule (Obj a)) s (\<lambda>_ u. schedule_post s L r rs ws a u)"
proof -
  note i = kern_lists(5) [OF k]
  let ?u = "\<lambda>h. s\<lparr>tasks := (tasks s)(Obj a := (tasks s (Obj a))\<lparr>tk_state := TASK_READY\<rparr>), nodes := h,
      pendsv := True\<rparr>"
  have ver: "runs_to (task_verify (Obj a)) s P = P () s" for P
    using a n i by (intro task_verify_ok) auto
  have "schedule_post s L r rs ws a (?u h)"
    if "lists_ok h (L(ready \<mapsto> enqueue_spec (prio_of (nodes s)) a rs)) \<and> same_data (nodes s) h" for h
    using kern_schedule [OF k a(1-3), of "?u h"] that i
    by (simp add: schedule_post_def same_defs irq_ok_def)
  then have "runs_to (list_enqueue ready (Obj a)) (nodes s) (\<lambda>_ h. schedule_post s L r rs ws a (?u h))"
    using lc.enqueue_law [OF kern_lists(1,2) [OF k] a(1)] by (auto elim!: runs_to_weaken)
  then show ?thesis
    using n irq_ok_range [OF i]
    by (simp add: task_schedule_def ver run_simps nest_room_def int32_bounds irq_ok_primask [OF i])
qed

section \<open>Priorities\<close>

lemma lists_ok_set_prio:
  assumes "lists_ok h L"
  shows "lists_ok (h(p := (h p)\<lparr>nd_prio := v\<rparr>)) L"
proof -
  have "dll (h(p := (h p)\<lparr>nd_prio := v\<rparr>)) l xs = dll h l xs" for l xs
    unfolding dll_def by (subst linked_cong [of _ _ h]) auto
  then show ?thesis using assms by (simp add: lists_ok_def)
qed

definition with_prio :: "heap \<Rightarrow> addr \<Rightarrow> Node_Prio \<Rightarrow> heap" where
  "with_prio h a v = h(Obj a := (h (Obj a))\<lparr>nd_prio := v\<rparr>)"

lemma prio_of_with_prio [simp]: "prio_of (with_prio h a v) = (prio_of h)(a := v)"
  by (auto simp: prio_of_def with_prio_def)

text \<open>
  A priority change keeps the invariant where the ready list stays sorted: always for the
  running or a waiting task, and for a ready task only if its new priority fits the place it
  has.
\<close>

definition set_prio_post :: "kstate \<Rightarrow> lists \<Rightarrow> addr \<Rightarrow> addr list \<Rightarrow> addr list \<Rightarrow> addr \<Rightarrow> Node_Prio \<Rightarrow> kstate \<Rightarrow> bool" where
  "set_prio_post s L r rs ws a v u = (kern u L r rs ws
     \<and> u = s\<lparr>nodes := with_prio (nodes s) a v,
         pendsv := pendsv s \<or> a = r \<or> (a \<in> set rs \<and> prio_of (nodes s) r < v)\<rparr>)"

lemma kern_set_prio:
  assumes k: "kern s L r rs ws" and a: "a \<in> insert r (set rs \<union> set ws)"
    and so: "sorted_prio ((prio_of (nodes s))(a := v)) rs"
    and u: "u = s\<lparr>nodes := with_prio (nodes s) a v,
         pendsv := pendsv s \<or> a = r \<or> (a \<in> set rs \<and> prio_of (nodes s) r < v)\<rparr>"
  shows "kern u L r rs ws"
proof -
  have "lists_ok (nodes u) L"
    unfolding u using lists_ok_set_prio [OF kern_lists(1) [OF k]] by (simp add: with_prio_def)
  moreover have "\<not> pendsv u \<Longrightarrow> t \<in> set rs \<Longrightarrow> prio_of (nodes u) t \<le> prio_of (nodes u) r" for t
    using kern_sched(3) [OF k, of t] unfolding u by auto
  ultimately show ?thesis
    using so kern_lists [OF k] kern_tasks [OF k] kern_sched [OF k] unfolding kern_def u
    by (auto simp: irq_ok_def)
qed

lemma task_set_prio_kern:
  assumes k: "kern s L r rs ws" and a: "a \<in> insert r (set rs \<union> set ws)" and n: "nest_room 1 s"
    and so: "sorted_prio ((prio_of (nodes s))(a := v)) rs"
  shows "runs_to (task_set_prio (Obj a) v) s (\<lambda>_ u. set_prio_post s L r rs ws a v u)"
proof -
  note i = kern_lists(5) [OF k]
  have st: "a \<noteq> r \<Longrightarrow> tk_state (tasks s (Obj a)) = TASK_READY \<longleftrightarrow> a \<in> set rs"
    using a kern_tasks(1,2) [OF k, of a] by auto
  note K = kern_set_prio [OF k a so refl]
  show ?thesis
    using n irq_ok_range [OF i] K
    by (simp add: task_set_prio_def run_simps nest_room_def int32_bounds irq_ok_primask [OF i]
        kern_lists(4) [OF k] set_prio_post_def st with_prio_def prio_of_def)
      (auto simp: st)
qed

section \<open>Allocating and freeing signals\<close>

lemma bit_sig_mask: "bit (sig_mask n) k \<longleftrightarrow> n < 16 \<and> k = n"
  by (auto simp: sig_mask_def bit_simps)

lemma sig_mask_and: "n < 16 \<Longrightarrow> sig_mask n AND m \<noteq> 0 \<longleftrightarrow> bit m n"
  by (auto simp: bit_eq_iff [where 'a = "16 word"] bit_and_iff bit_sig_mask)

lemma sig_mask_nonzero: "n < 16 \<Longrightarrow> sig_mask n \<noteq> 0"
  using sig_mask_and [of n "- 1"] by auto

text \<open>The search returns the highest free bit at or below its starting point, or -1 when none is free.\<close>

lemma alloc_scan_spec:
  assumes "n < 16"
  shows "alloc_scan m n = (let F = {k. k \<le> n \<and> \<not> bit m k} in
     if F = {} then (- 1, sig_mask 0) else (int (Max F), sig_mask (Max F)))"
  using assms
proof (induction n)
  case 0
  have "{k. k \<le> 0 \<and> \<not> bit m k} = (if bit m 0 then {} else {0})"
    by (auto intro: gr_zeroI)
  then show ?case by (simp only: alloc_scan.simps sig_mask_and [OF 0]) simp
next
  case (Suc n)
  show ?case
  proof (cases "bit m (Suc n)")
    case True
    then have "{k. k \<le> Suc n \<and> \<not> bit m k} = {k. k \<le> n \<and> \<not> bit m k}"
      by (auto simp: le_Suc_eq)
    with Suc True show ?thesis by (simp add: sig_mask_and)
  next
    case False
    then have "Max {k. k \<le> Suc n \<and> \<not> bit m k} = Suc n" by (intro Max_eqI) auto
    moreover have "{k. k \<le> Suc n \<and> \<not> bit m k} \<noteq> {}" using False by auto
    ultimately show ?thesis using Suc.prems False by (simp add: sig_mask_and Let_def)
  qed
qed

text \<open>The abstract choice: the requested bit if it is free, else the highest free one.\<close>

definition alloc_result :: "SignalNumber \<Rightarrow> Signals \<Rightarrow> SignalNumber" where
  "alloc_result signal m =
     (if signal \<noteq> - 1 then (if bit m (nat signal) then - 1 else signal)
      else if (\<forall>k < 16. bit m k) then - 1 else int (Max {k. k < 16 \<and> \<not> bit m k}))"

definition alloc_target :: "SignalNumber \<Rightarrow> Signals \<Rightarrow> nat" where
  "alloc_target signal m = (if signal \<noteq> - 1 then nat signal else nat (alloc_result signal m))"

lemma alloc_choose_spec:
  assumes "- 1 \<le> signal" "signal < SIGNALS_WIDTH"
  shows "alloc_choose signal m = (alloc_result signal m, sig_mask (alloc_target signal m))"
proof (cases "signal = - 1")
  case True
  have "{k. k \<le> 15 \<and> \<not> bit m k} = {k. k < 16 \<and> \<not> bit m k}" by auto
  then show ?thesis
    using True alloc_scan_spec [of 15 m]
    by (auto simp: alloc_choose_def alloc_result_def alloc_target_def SIGNALS_WIDTH_def Let_def)
next
  case False
  then have "nat signal < 16" using assms by (simp add: SIGNALS_WIDTH_def)
  then show ?thesis using False
    by (simp add: alloc_choose_def alloc_result_def alloc_target_def sig_mask_and)
qed

lemma alloc_target_less: "- 1 \<le> signal \<Longrightarrow> signal < SIGNALS_WIDTH \<Longrightarrow> alloc_target signal m < 16"
proof -
  assume a: "- 1 \<le> signal" "signal < SIGNALS_WIDTH"
  have "Max {k. k < 16 \<and> \<not> bit m k} < 16" if "\<exists>k < 16. \<not> bit m k"
    using that Max_in [of "{k. k < 16 \<and> \<not> bit m k}"] by auto
  then show ?thesis
    using a by (auto simp: alloc_target_def alloc_result_def SIGNALS_WIDTH_def)
qed

definition allocated :: "Signals \<Rightarrow> Task \<Rightarrow> Task" where
  "allocated target T = T\<lparr>tk_sig_alloc := tk_sig_alloc T OR target,
     tk_sig_wait := tk_sig_wait T AND NOT target, tk_sig_recvd := tk_sig_recvd T AND NOT target\<rparr>"

lemma signal_allocate_kern:
  assumes k: "kern s L r rs ws" and r: "r \<notin> set rs" "r \<notin> set ws" and n: "nest_room 1 s"
    and g: "- 1 \<le> signal" "signal < SIGNALS_WIDTH"
  defines "T \<equiv> tasks s (Obj r)"
  defines "target \<equiv> sig_mask (alloc_target signal (tk_sig_alloc T))"
  shows "runs_to (signal_allocate signal) s (\<lambda>v u. v = alloc_result signal (tk_sig_alloc T)
     \<and> kern u L r rs ws \<and> u = s\<lparr>tasks := (tasks s)(Obj r := allocated target T)\<rparr>)"
proof -
  note i = kern_lists(5) [OF k]
  have t: "0 < target"
    using sig_mask_nonzero [OF alloc_target_less [OF g]] by (simp add: target_def word_neq_0_conv)
  have "task_ok (allocated target T)"
    using kern_tasks(5) [OF k, of r]
    by (auto simp: task_ok_def allocated_def T_def bit_eq_iff bit_simps)
  then have "kern (s\<lparr>tasks := (tasks s)(Obj r := allocated target T)\<rparr>) L r rs ws"
    by (intro kern_update_running [OF k r, where T = "allocated target T"])
      (use kern_tasks(4) [OF k r] i in \<open>simp_all add: allocated_def T_def irq_ok_def\<close>)
  then show ?thesis
    using t g n irq_ok_range [OF i]
    by (simp add: signal_allocate_def run_simps kern_lists(4) [OF k] alloc_choose_spec [OF g] T_def target_def
        nest_room_def int32_bounds irq_ok_primask [OF i] allocated_def)
qed

lemma signal_free_kern:
  assumes k: "kern s L r rs ws" and r: "r \<notin> set rs" "r \<notin> set ws"
    and g: "signals AND SIGF_SINGLE = 0" "signals AND tk_sig_alloc (tasks s (Obj r)) = signals"
  shows "runs_to (signal_free signals) s (\<lambda>_ u. kern u L r rs ws
     \<and> u = s\<lparr>tasks := (tasks s)(Obj r := (tasks s (Obj r))
         \<lparr>tk_sig_alloc := tk_sig_alloc (tasks s (Obj r)) AND NOT signals\<rparr>)\<rparr>)"
proof -
  let ?T = "(tasks s (Obj r))\<lparr>tk_sig_alloc := tk_sig_alloc (tasks s (Obj r)) AND NOT signals\<rparr>"
  have "SIGF_SINGLE AND (tk_sig_alloc (tasks s (Obj r)) AND NOT signals) = SIGF_SINGLE AND tk_sig_alloc (tasks s (Obj r))"
    using g(1) by (auto simp: bit_eq_iff bit_simps)
  then have "task_ok ?T"
    using kern_tasks(5) [OF k, of r] by (auto simp: task_ok_def)
  then have "kern (s\<lparr>tasks := (tasks s)(Obj r := ?T)\<rparr>) L r rs ws"
    by (intro kern_update_running [OF k r, where T = ?T])
      (use kern_tasks(4) [OF k r] kern_lists(5) [OF k] in \<open>simp_all add: irq_ok_def\<close>)
  then show ?thesis
    using g by (simp add: signal_free_def run_simps kern_lists(4) [OF k])
qed

section \<open>The time slice\<close>

lemma SysTick_kern:
  assumes "kern s L r rs ws"
  shows "runs_to SysTick_Handler s (\<lambda>_ u. kern u L r rs ws
     \<and> u = s\<lparr>elapsed := elapsed s - 1, pendsv := pendsv s \<or> elapsed s = 1\<rparr>)"
proof -
  have "kern (s\<lparr>elapsed := elapsed s - 1, pendsv := pendsv s \<or> elapsed s = 1\<rparr>) L r rs ws"
    by (rule kern_cong [OF assms]) (use kern_lists(5) [OF assms] in \<open>simp_all add: irq_ok_def\<close>)
  then show ?thesis
    by (cases "elapsed s = 1") (simp_all add: SysTick_Handler_def run_simps)
qed

section \<open>Finding and initialising tasks\<close>

lemma find_spec_append:
  "find_spec h name (xs @ ys) = (if find_spec h name xs = NULL then find_spec h name ys else find_spec h name xs)"
  by (induction xs) (auto simp: find_spec_def)

lemma find_spec_NULL:
  "find_spec h name xs = NULL \<longleftrightarrow> (\<forall>x \<in> set xs. nd_name (h (Obj x)) \<noteq> Some name)"
  by (induction xs) (auto simp: find_spec_def split: option.splits)

lemma disable_in_range:
  "irq_ok s \<Longrightarrow> nest_room 1 s \<Longrightarrow> disable s = Inr ((), s\<lparr>primask := True, id_nestcnt := id_nestcnt s + 1\<rparr>)"
  by (auto simp: disable_def disable_irq_def set_nestcnt_def run_apply irq_ok_def nest_room_def int32_bounds)

lemma enable_after_disable:
  "irq_ok s \<Longrightarrow> nest_room 1 s \<Longrightarrow> enable (s\<lparr>primask := True, id_nestcnt := id_nestcnt s + 1\<rparr>) = Inr ((), s)"
  by (auto simp: enable_def enable_irq_def set_nestcnt_def run_apply irq_ok_def nest_room_def int32_bounds)

text \<open>
  The result of \<open>task_find\<close>: the first task of that name on the ready, then on the waiting list.
  When there is none the code reads the name of a null pointer: the access traps, or
  the running task is returned if the bytes at address zero happen to equal the name.
\<close>

lemma task_find_kern:
  assumes k: "kern s L r rs ws" and n: "nest_room 1 s"
    and nm: "names_ok (nodes s) (rs @ ws)" "c_string name"
  shows "task_find (Some name) s = (
     if find_spec (nodes s) name (rs @ ws) \<noteq> NULL then Inr (find_spec (nodes s) name (rs @ ws), s)
     else case null_name s of None \<Rightarrow> Inl NullDeref
       | Some b \<Rightarrow> Inr (if strcmp_chars name b = 0 then Obj r else NULL, s))"
proof -
  note i = kern_lists(5) [OF k]
  have "names_ok (nodes s) rs" "names_ok (nodes s) ws"
    using nm(1) by (simp_all add: names_ok_def)
  then have "list_find ready (Some name) (nodes s) = Inr (find_spec (nodes s) name rs, nodes s)"
    "list_find waiting (Some name) (nodes s) = Inr (find_spec (nodes s) name ws, nodes s)"
    using kern_lists(1-3) [OF k] nm(2) by (auto intro: list_find_dll lists_ok_dll)
  then show ?thesis
    by (simp add: task_find_def run_apply disable_in_range [OF i n] enable_after_disable [OF i n]
        find_spec_append get_name_def strcmp_def kern_lists(4) [OF k] split: option.split)
qed

lemma task_init_apply:
  assumes f: "task_find name (s\<lparr>tasks := (tasks s)(Obj a := (tasks s (Obj a))\<lparr>tk_state := TASK_INVALID\<rparr>)\<rparr>)
      = Inr (NULL, s\<lparr>tasks := (tasks s)(Obj a := (tasks s (Obj a))\<lparr>tk_state := TASK_INVALID\<rparr>)\<rparr>)"
    and st: "stack mod 4 = 0" "stack_size mod 4 = 0" "64 \<le> stack_size" "unat stack + unat stack_size < 2 ^ 32"
  shows "task_init im (Obj a) name prio init_pc user_data stack stack_size s = Inr ((),
     s\<lparr>nodes := (nodes s)(Obj a := (nodes s (Obj a))\<lparr>nd_name := name, nd_prio := prio\<rparr>),
       tasks := (tasks s)(Obj a := \<lparr>tk_context = \<lparr>cx_frame = stack + stack_size - 64, cx_bos = stack,
           cx_tos = stack + stack_size\<rparr>, tk_sig_alloc = SIGF_SINGLE, tk_sig_wait = 0, tk_sig_recvd = 0,
           tk_id_nestcnt = - 1, tk_state = TASK_INITIALIZED\<rparr>),
       ram := frame_image im (stack + stack_size - 64) init_pc user_data (ram s)\<rparr>)"
proof -
  have "stack \<le> stack + stack_size - 64" using frame_in_stack(1) [OF st(4,3), of 0] by simp
  then show ?thesis
    using f st
    by (simp add: task_init_def run_apply set_name_def set_prio_def taskcontext_init_apply)
      (cases "tasks s (Obj a)"; cases s; simp)
qed

lemma sorted_prio_cong:
  "(\<And>x. x \<in> set xs \<Longrightarrow> f x = g x) \<Longrightarrow> sorted_prio f xs = sorted_prio g xs"
  by (induction xs) (auto simp: sorted_prio_def)

lemma kern_fresh_task:
  assumes k: "kern s L r rs ws" and a: "unlinked L a" "a \<noteq> r"
    and u: "nodes u = (nodes s)(Obj a := (nodes s (Obj a))\<lparr>nd_name := nm, nd_prio := v\<rparr>)"
      "running u = running s" "pendsv u = pendsv s" "irq_ok u" "tasks u = (tasks s)(Obj a := T)"
  shows "kern u L r rs ws"
proof -
  have out: "a \<notin> set rs" "a \<notin> set ws"
    using kern_lists(2,3) [OF k] a(1) by (auto dest: unlinkedD)
  have "dll (nodes u) l xs = dll (nodes s) l xs" for l xs
    unfolding dll_def u(1) by (subst linked_cong [of _ _ "nodes s"]) auto
  then have "lists_ok (nodes u) L" using kern_lists(1) [OF k] by (simp add: lists_ok_def)
  moreover have pr: "prio_of (nodes u) r = prio_of (nodes s) r"
    "x \<in> set rs \<Longrightarrow> prio_of (nodes u) x = prio_of (nodes s) x" for x
    using a(2) out(1) by (auto simp: u(1) prio_of_def)
  moreover have "sorted_prio (prio_of (nodes u)) rs = sorted_prio (prio_of (nodes s)) rs"
    by (intro sorted_prio_cong pr(2))
  ultimately show ?thesis
    using k a u(2-) out unfolding kern_def by (auto simp: pr)
qed

lemma task_init_kern:
  assumes k: "kern s L r rs ws" and n: "nest_room 1 s" and a: "unlinked L a" "a \<noteq> r"
    and nm: "names_ok (nodes s) (rs @ ws)" "c_string name" "find_spec (nodes s) name (rs @ ws) = NULL"
    and z: "null_name s = Some b" "strcmp_chars name b \<noteq> 0"
    and st: "stack mod 4 = 0" "stack_size mod 4 = 0" "64 \<le> stack_size" "unat stack + unat stack_size < 2 ^ 32"
  shows "runs_to (task_init im (Obj a) (Some name) prio init_pc user_data stack stack_size) s (\<lambda>_ u.
     kern u L r rs ws \<and> pendsv u = pendsv s \<and> id_nestcnt u = id_nestcnt s \<and> primask u = primask s
     \<and> nodes u = (nodes s)(Obj a := (nodes s (Obj a))\<lparr>nd_name := Some name, nd_prio := prio\<rparr>)
     \<and> ram u = frame_image im (stack + stack_size - 64) init_pc user_data (ram s)
     \<and> tasks u = (tasks s)(Obj a := tasks u (Obj a)) \<and> task_ok (tasks u (Obj a))
     \<and> tk_context (tasks u (Obj a)) =
         \<lparr>cx_frame = stack + stack_size - 64, cx_bos = stack, cx_tos = stack + stack_size\<rparr>
     \<and> tk_sig_recvd (tasks u (Obj a)) = 0 \<and> tk_state (tasks u (Obj a)) = TASK_INITIALIZED \<and> tmrs u = tmrs s
     \<and> sems u = sems s \<and> reqs u = reqs s \<and> ports u = ports s \<and> msgs u = msgs s \<and> null_name u = null_name s)"
proof -
  let ?s = "s\<lparr>tasks := (tasks s)(Obj a := (tasks s (Obj a))\<lparr>tk_state := TASK_INVALID\<rparr>)\<rparr>"
  have i: "irq_ok s" by (rule kern_lists(5) [OF k])
  have id: "nodes s = (nodes s)(Obj a := (nodes s (Obj a))\<lparr>nd_name := nd_name (nodes s (Obj a)),
      nd_prio := nd_prio (nodes s (Obj a))\<rparr>)" by (simp add: fun_upd_idem)
  have "kern ?s L r rs ws"
    by (rule kern_fresh_task [OF k a, of ?s "nd_prio (nodes s (Obj a))" "nd_name (nodes s (Obj a))"])
      (use i id in \<open>simp_all add: irq_ok_def\<close>)
  then have f: "task_find (Some name) ?s = Inr (NULL, ?s)"
    using task_find_kern [of ?s L r rs ws name] n nm z by (simp add: nest_room_def)
  have "stack \<le> stack + stack_size - 64" using frame_in_stack(1) [OF st(4,3), of 0] by simp
  then show ?thesis
    using kern_fresh_task [OF k a] i
    by (simp add: runs_to_def task_init_apply [OF f st] irq_ok_def task_ok_def ctx_ok_def SIZEOF_StackFrame_def SIGF_SINGLE_def)
qed

section \<open>The signalling service\<close>

text \<open>
  What semaphores, message ports and timers rely on.  \<open>alive s L r ts\<close>: the invariant holds,
  \<open>r\<close> is the current task and \<open>ts\<close> are the tasks of the system.
\<close>

definition alive :: "kstate \<Rightarrow> lists \<Rightarrow> addr \<Rightarrow> addr set \<Rightarrow> bool" where
  "alive s L r ts = (\<exists>rs ws. kern s L r rs ws \<and> ts = insert r (set rs \<union> set ws))"

lemma aliveI: "kern s L r rs ws \<Longrightarrow> alive s L r (insert r (set rs \<union> set ws))"
  by (auto simp: alive_def)

definition other_lists :: "lists \<Rightarrow> lists \<Rightarrow> bool" where
  "other_lists L L' = (\<forall>l. l \<noteq> ready \<longrightarrow> l \<noteq> waiting \<longrightarrow> L' l = L l)"

lemma other_lists_trans: "other_lists L L' \<Longrightarrow> other_lists L' L'' \<Longrightarrow> other_lists L L''"
  by (simp add: other_lists_def)

lemma other_lists_refl [simp]: "other_lists L L"
  by (simp add: other_lists_def)

text \<open>Signals have been recorded, and nothing else of the tasks but their scheduling state has changed.\<close>

definition recorded :: "kstate \<Rightarrow> kstate \<Rightarrow> (addr \<Rightarrow> Signals) \<Rightarrow> bool" where
  "recorded s u f = (\<forall>b. tk_sig_recvd (tasks u (Obj b)) = tk_sig_recvd (tasks s (Obj b)) OR f b
     \<and> tk_sig_alloc (tasks u (Obj b)) = tk_sig_alloc (tasks s (Obj b))
     \<and> tk_sig_wait (tasks u (Obj b)) = tk_sig_wait (tasks s (Obj b))
     \<and> tk_context (tasks u (Obj b)) = tk_context (tasks s (Obj b)))"

lemma recorded_trans: "recorded s t f \<Longrightarrow> recorded t u g \<Longrightarrow> recorded s u (\<lambda>b. f b OR g b)"
  by (simp add: recorded_def or.assoc)

lemma recorded_refl: "recorded s s (\<lambda>_. 0)"
  by (simp add: recorded_def)

definition notified :: "kstate \<Rightarrow> lists \<Rightarrow> addr \<Rightarrow> addr set \<Rightarrow> kstate \<Rightarrow> lists \<Rightarrow> (addr \<Rightarrow> Signals) \<Rightarrow> bool" where
  "notified s L r ts u L' f = (alive u L' r ts \<and> other_lists L L' \<and> same_objs s u \<and> recorded s u f
     \<and> (tk_state (tasks s (Obj r)) = TASK_RUNNING \<longrightarrow> tk_state (tasks u (Obj r)) = TASK_RUNNING)
     \<and> (pendsv s \<longrightarrow> pendsv u))"

primrec send_all :: "(ptr \<Rightarrow> Signals \<Rightarrow> unit K) \<Rightarrow> (addr \<times> Signals) list \<Rightarrow> unit K" where
  "send_all send [] = ret ()"
| "send_all send (m # ms) = seqM (send (Obj (fst m)) (snd m)) (send_all send ms)"

primrec sent_to :: "(addr \<times> Signals) list \<Rightarrow> addr \<Rightarrow> Signals" where
  "sent_to [] b = 0"
| "sent_to (m # ms) b = (if fst m = b then snd m else 0) OR sent_to ms b"

locale signal_service =
  fixes inv :: "kstate \<Rightarrow> lists \<Rightarrow> addr \<Rightarrow> addr set \<Rightarrow> bool"
    and send :: "ptr \<Rightarrow> Signals \<Rightarrow> unit K"
  assumes inv_alive: "inv s L r ts \<longleftrightarrow> alive s L r ts"
    and send_law: "inv s L r ts \<Longrightarrow> a \<in> ts \<Longrightarrow> nest_room 1 s \<Longrightarrow>
      runs_to (send (Obj a) sg) s (\<lambda>_ u. \<exists>L'. notified s L r ts u L' ((\<lambda>_. 0)(a := sg)))"
begin

text \<open>A sequence of signals: every task has received all that was sent to it.\<close>

lemma send_all_law:
  "inv s L r ts \<Longrightarrow> fst ` set ms \<subseteq> ts \<Longrightarrow> nest_room 1 s \<Longrightarrow>
   runs_to (send_all send ms) s (\<lambda>_ u. \<exists>L'. notified s L r ts u L' (sent_to ms))"
proof (induction ms arbitrary: s L)
  case Nil
  then show ?case
    by (auto simp: run_simps notified_def inv_alive recorded_refl intro!: exI [of _ L])
next
  case (Cons m ms)
  show ?case
    unfolding send_all.simps runs_to_seqM
  proof (rule runs_to_weaken [OF send_law [OF Cons.prems(1) _ Cons.prems(3)]], use Cons.prems in simp)
    fix x t assume "\<exists>L'. notified s L r ts t L' ((\<lambda>_. 0)(fst m := snd m))"
    then obtain L1 where t: "notified s L r ts t L1 ((\<lambda>_. 0)(fst m := snd m))" by blast
    then have "inv t L1 r ts" "nest_room 1 t"
      using Cons.prems(3) by (simp_all add: notified_def inv_alive nest_room_def same_objs_def)
    then have "runs_to (send_all send ms) t (\<lambda>_ u. \<exists>L'. notified t L1 r ts u L' (sent_to ms))"
      using Cons.prems(2) by (intro Cons.IH) auto
    moreover have "notified s L r ts u L2 (sent_to (m # ms))" if "notified t L1 r ts u L2 (sent_to ms)" for u L2
    proof -
      have "(\<lambda>b. ((\<lambda>_. 0)(fst m := snd m)) b OR sent_to ms b) = sent_to (m # ms)" by (auto simp: fun_eq_iff)
      then have "recorded s u (sent_to (m # ms))"
        using recorded_trans [of s t "(\<lambda>_. 0)(fst m := snd m)" u "sent_to ms"] t that
        by (simp add: notified_def)
      with t that show ?thesis
        by (auto simp: notified_def intro: other_lists_trans same_objs_trans)
    qed
    ultimately show "runs_to (send_all send ms) t (\<lambda>_ u. \<exists>L'. notified s L r ts u L' (sent_to (m # ms)))"
      by (auto elim!: runs_to_weaken)
  qed
qed

end

lemma send_sets:
  assumes "kern s L r rs ws"
  shows "set (send_ready s rs ws a sg) \<union> set (send_waiting s ws a sg) = set rs \<union> set ws"
  using kern_distinct [OF assms] by (auto simp: send_ready_def send_waiting_def wakes_def)

lemma send_post_notified:
  assumes k: "kern s L r rs ws" and p: "send_post s L r rs ws a sg u"
  shows "notified s L r (insert r (set rs \<union> set ws)) u
     (L(waiting \<mapsto> send_waiting s ws a sg, ready \<mapsto> send_ready s rs ws a sg)) ((\<lambda>_. 0)(a := sg))"
proof -
  have "tk_state (tasks u (Obj r)) = TASK_RUNNING" if "tk_state (tasks s (Obj r)) = TASK_RUNNING"
  proof -
    have "r \<notin> set ws" using that kern_tasks(2) [OF k, of r] by auto
    then show ?thesis using that p by (auto simp: send_post_def send_task_def wakes_def)
  qed
  then show ?thesis
    using p send_sets [OF k, of a sg]
    by (auto simp: notified_def send_post_def alive_def other_lists_def recorded_def send_task_def)
qed

text \<open>
  \<open>signal_send\<close> inside a critical section of the caller: after the caller's own \<open>enable\<close> the state
  is as if it had been called outside.
\<close>

definition masked :: "kstate \<Rightarrow> kstate" where
  "masked s = s\<lparr>primask := True, id_nestcnt := id_nestcnt s + 1\<rparr>"

definition unmasked :: "kstate \<Rightarrow> kstate \<Rightarrow> kstate" where
  "unmasked s u = u\<lparr>id_nestcnt := id_nestcnt s, primask := primask s\<rparr>"

lemma kern_masked:
  assumes "kern s L r rs ws"
  shows "kern (masked s) L r rs ws"
  by (rule kern_cong [OF assms]) (use kern_lists(5) [OF assms] in \<open>auto simp: masked_def irq_ok_def\<close>)

lemma enter_critical: "irq_ok s \<Longrightarrow> nest_room 1 s \<Longrightarrow> runs_to disable s P = P () (masked s)"
  by (simp add: run_simps crit masked_def)

lemma leave_critical:
  "irq_ok s \<Longrightarrow> nest_room 1 s \<Longrightarrow> id_nestcnt u = id_nestcnt s + 1 \<Longrightarrow> primask u \<Longrightarrow>
   runs_to enable u P = P () (unmasked s u)"
  by (simp add: run_simps crit unmasked_def)

lemma masked_simps [simp]:
  "nodes (masked s) = nodes s" "tasks (masked s) = tasks s" "running (masked s) = running s"
  "sems (masked s) = sems s" "reqs (masked s) = reqs s" "ports (masked s) = ports s" "msgs (masked s) = msgs s"
  "tmrs (masked s) = tmrs s" "timer_now (masked s) = timer_now s" "pendsv (masked s) = pendsv s"
  "(masked s)\<lparr>nodes := h\<rparr> = masked (s\<lparr>nodes := h\<rparr>)" "(masked s)\<lparr>sems := x\<rparr> = masked (s\<lparr>sems := x\<rparr>)"
  "(masked s)\<lparr>tmrs := y\<rparr> = masked (s\<lparr>tmrs := y\<rparr>)"
  "unmasked (s\<lparr>nodes := h\<rparr>) = unmasked s" "unmasked (s\<lparr>sems := x\<rparr>) = unmasked s"
  "unmasked (s\<lparr>tmrs := y\<rparr>) = unmasked s"
  by (simp_all add: masked_def unmasked_def fun_eq_iff)

lemma unmasked_masked: "irq_ok s \<Longrightarrow> unmasked s (masked t) = t\<lparr>id_nestcnt := id_nestcnt s, primask := primask s\<rparr>"
  by (simp add: unmasked_def masked_def)

lemma send_ready_masked: "send_ready (masked s) = send_ready s" "send_waiting (masked s) = send_waiting s"
    "send_task (masked s) = send_task s"
  by (simp_all add: fun_eq_iff send_ready_def send_waiting_def send_task_def wakes_def masked_def)

lemma signal_send_nested:
  assumes k: "kern s L r rs ws" and a: "a \<in> insert r (set rs \<union> set ws)" and n: "nest_room 2 s"
  shows "runs_to (signal_send (Obj a) sg) (masked s)
     (\<lambda>_ u. id_nestcnt u = id_nestcnt s + 1 \<and> primask u \<and> send_post s L r rs ws a sg (unmasked s u))"
proof (rule runs_to_weaken [OF signal_send_kern [OF kern_masked [OF k] a]])
  show "nest_room 1 (masked s)" using n by (simp add: nest_room_def masked_def)
  fix x u assume p: "send_post (masked s) L r rs ws a sg u"
  let ?rs = "send_ready s rs ws a sg" and ?ws = "send_waiting s ws a sg"
  have ku: "kern u (L(waiting \<mapsto> ?ws, ready \<mapsto> ?rs)) r ?rs ?ws"
    using p by (simp add: send_post_def send_ready_masked)
  have "kern (unmasked s u) (L(waiting \<mapsto> ?ws, ready \<mapsto> ?rs)) r ?rs ?ws"
    by (rule kern_cong [OF ku]) (use kern_lists(5) [OF k] in \<open>simp_all add: unmasked_def irq_ok_def\<close>)
  then show "id_nestcnt u = id_nestcnt s + 1 \<and> primask u \<and> send_post s L r rs ws a sg (unmasked s u)"
    using p by (simp add: send_post_def send_ready_masked) (simp add: same_defs masked_def unmasked_def)
qed

interpretation sg: signal_service alive signal_send
proof
  fix s L r ts a sg
  assume a: "alive s L r ts" "a \<in> ts" "nest_room 1 s"
  then obtain rs ws where k: "kern s L r rs ws" "ts = insert r (set rs \<union> set ws)"
    by (auto simp: alive_def)
  show "runs_to (signal_send (Obj a) sg) s (\<lambda>_ u. \<exists>L'. notified s L r ts u L' ((\<lambda>_. 0)(a := sg)))"
    by (rule runs_to_weaken [OF signal_send_kern [OF k(1)]])
      (use a k send_post_notified [OF k(1)] in auto)
qed simp

end
