(* ===== verification/TaskProps.thy ===== *)
theory TaskProps
  imports Tasks
begin

unbundle bit_operations_syntax

text \<open>
  The properties of tasks, signals and the scheduler, and a concrete system of four tasks on
  which they are exercised.
\<close>

section \<open>A system of four tasks\<close>

text \<open>
  Task 5 is running at priority 3, task 6 is ready at the same priority, the init task 0 is
  ready at the lowest, and task 7, of priority 9, waits for signal \<open>0x10\<close>.
\<close>

definition demo_prio :: "addr \<Rightarrow> Node_Prio" where
  "demo_prio n = mk_prio (if n = 7 then 9 else if n = 5 \<or> n = 6 then 3 else - 32768)"

definition demo_name :: "addr \<Rightarrow> string option" where
  "demo_name n = Some (if n = 0 then ''init'' else if n = 5 then ''five'' else if n = 6 then ''six'' else ''seven'')"

definition demo_nodes :: heap where
  "demo_nodes = link_in (link_in (link_in (blank_heap demo_prio demo_name)
     (Head 1) (Obj 6) (Tail 1)) (Obj 6) (Obj 0) (Tail 1)) (Head 2) (Obj 7) (Tail 2)"

definition demo_task :: "Task_State \<Rightarrow> Signals \<Rightarrow> Task" where
  "demo_task st w = blank_task\<lparr>tk_state := st, tk_sig_wait := w, tk_sig_alloc := 0x11\<rparr>"

definition demo_tasks :: "ptr \<Rightarrow> Task" where
  "demo_tasks p = (if p = Obj 5 then demo_task TASK_RUNNING 0
     else if p = Obj 6 \<or> p = Obj 0 then demo_task TASK_READY 0
     else if p = Obj 7 then demo_task TASK_WAITING 0x10 else blank_task)"

definition demo_state :: kstate where
  "demo_state = blank_state\<lparr>nodes := demo_nodes, tasks := demo_tasks, running := Obj 5, null_name := Some ''''\<rparr>"

text \<open>Every list object other than these two is initialised and empty.\<close>

definition demo_lists :: lists where
  "demo_lists l = Some (if l = ready then [6, 0] else if l = waiting then [7] else [])"

lemma demo_dll: "dll demo_nodes ready [6, 0]" "dll demo_nodes waiting [7]"
    "l \<noteq> ready \<Longrightarrow> l \<noteq> waiting \<Longrightarrow> dll demo_nodes l []"
  by (simp_all add: dll_def cells_def demo_nodes_def link_in_def blank_heap_def ready_def waiting_def)

lemma demo_lists_ok: "lists_ok demo_nodes demo_lists"
  using demo_dll by (auto simp: lists_ok_def demo_lists_def)

lemma demo_prio_of: "prio_of demo_nodes = demo_prio"
  by (auto simp: prio_of_def demo_nodes_def link_in_def blank_heap_def)

lemma demo_fields [simp]:
  "nodes demo_state = demo_nodes" "tasks demo_state = demo_tasks" "running demo_state = Obj 5"
  "id_nestcnt demo_state = - 1" "\<not> primask demo_state" "\<not> pendsv demo_state"
  "null_name demo_state = Some ''''" "elapsed demo_state = QUANTUM"
  by (simp_all add: demo_state_def blank_state_def)

lemma demo_order: "demo_prio 6 \<le> demo_prio 5" "demo_prio 0 \<le> demo_prio 5" "demo_prio 0 \<le> demo_prio 6"
    "demo_prio 6 = demo_prio 5" "demo_prio 0 < demo_prio 5" "demo_prio 5 < demo_prio 7"
  by (simp_all add: demo_prio_def less_eq_Node_Prio_def less_Node_Prio_def prio_val_mk_prio)

lemma demo_kern: "kern demo_state demo_lists 5 [6, 0] [7]"
  unfolding kern_def
  by (auto simp: demo_lists_ok demo_prio_of demo_order sorted_prio_def demo_tasks_def demo_task_def demo_lists_def
      blank_task_def task_ok_def ctx_ok_def SIZEOF_StackFrame_def SIGF_SINGLE_def irq_ok_def init_addr_def
      split: if_splits)

text \<open>The heap after adding nodes to the end of a list, and the demonstration system with more lists filled.\<close>

primrec link_all :: "addr \<Rightarrow> addr list \<Rightarrow> addr list \<Rightarrow> heap \<Rightarrow> heap" where
  "link_all l xs [] h = h"
| "link_all l xs (n # ns) h = link_all l (xs @ [n]) ns (link_in h (before l xs) (Obj n) (Tail l))"

lemma lists_ok_link_all:
  "lists_ok h L \<Longrightarrow> L l = Some xs \<Longrightarrow> distinct ns \<Longrightarrow> \<forall>n \<in> set ns. unlinked L n \<Longrightarrow>
   lists_ok (link_all l xs ns h) (L(l \<mapsto> xs @ ns)) \<and> same_data h (link_all l xs ns h)"
proof (induction ns arbitrary: h L xs)
  case Nil
  then show ?case by (simp add: fun_upd_idem same_data_def)
next
  case (Cons n ns)
  let ?h = "link_in h (before l xs) (Obj n) (Tail l)" and ?L = "L(l \<mapsto> xs @ [n])"
  have "list_add_tail l (Obj n) h = Inr ((), ?h)"
    using list_add_tail_dll [OF lists_ok_dll [OF Cons.prems(1,2)]] Cons.prems by (auto dest: unlinkedD)
  then have h: "lists_ok ?h ?L" "same_data h ?h"
    using list_add_tail_lists [OF Cons.prems(1,2), of n] Cons.prems(4) by (simp_all add: runs_to_def)
  have un: "\<forall>m \<in> set ns. unlinked ?L m"
    using Cons.prems by (fastforce simp: unlinked_def split: if_splits)
  have "lists_ok (link_all l (xs @ [n]) ns ?h) (?L(l \<mapsto> (xs @ [n]) @ ns))
      \<and> same_data ?h (link_all l (xs @ [n]) ns ?h)"
    using Cons.prems(3) by (intro Cons.IH [OF h(1) _ _ un]) auto
  then show ?case
    using same_data_trans [OF h(2)] by (simp only: link_all.simps append_assoc append_Cons append_Nil fun_upd_upd)
qed

lemma demo_room: "nest_room 1 demo_state"
  by (simp add: nest_room_def INT32_MAX_def)

section \<open>Signals\<close>

text \<open>
  C5: \<open>signal_send\<close> to any task of the system returns and keeps the invariant.  The signals
  are added to those the task has received.  A waiting task that waits for one of them moves
  from the waiting list to the ready list, behind the tasks of its priority, and if its
  priority is above the running task's a context switch is pending; otherwise no list
  changes.  No other task and no other object changes.
\<close>

theorem signal_send_delivers:
  assumes "kern s L r rs ws" and "a \<in> insert r (set rs \<union> set ws)" and "nest_room 1 s"
  shows "runs_to (signal_send (Obj a) sg) s (\<lambda>_ u. \<exists>rs' ws'.
     kern u (L(waiting \<mapsto> ws', ready \<mapsto> rs')) r rs' ws'
     \<and> (if a \<in> set ws \<and> sg AND tk_sig_wait (tasks s (Obj a)) \<noteq> 0
        then rs' = enqueue_spec (prio_of (nodes s)) a rs \<and> ws' = remove1 a ws
          \<and> (prio_of (nodes s) r < prio_of (nodes s) a \<longrightarrow> pendsv u)
        else rs' = rs \<and> ws' = ws)
     \<and> tk_sig_recvd (tasks u (Obj a)) = tk_sig_recvd (tasks s (Obj a)) OR sg
     \<and> (\<forall>b. b \<noteq> a \<longrightarrow> tasks u (Obj b) = tasks s (Obj b)) \<and> same_objs s u)" (is "runs_to _ _ ?Q")
proof (rule runs_to_weaken [OF signal_send_kern [OF assms]])
  fix x u assume p: "send_post s L r rs ws a sg u"
  let ?rs = "send_ready s rs ws a sg" and ?ws = "send_waiting s ws a sg"
  have k: "kern u (L(waiting \<mapsto> ?ws, ready \<mapsto> ?rs)) r ?rs ?ws" and d: "same_objs s u"
    using p by (simp_all add: send_post_def)
  have "pendsv u" if "wakes s ws a sg" "prio_of (nodes s) r < prio_of (nodes s) a"
    using that kern_sched(3) [OF k, of a] unfolding same_objs_prio [OF d]
    by (cases "pendsv u") (auto simp: send_ready_def)
  then show "?Q x u"
    using k d p
    by (intro exI [of _ ?rs] exI [of _ ?ws])
      (auto simp: send_post_def send_ready_def send_waiting_def send_task_def wakes_def)
qed

theorem signal_send_delivers_witness:
  "runs_to (signal_send (Obj 7) 0x10) demo_state (\<lambda>_ u. \<exists>rs' ws'.
     kern u (demo_lists(waiting \<mapsto> ws', ready \<mapsto> rs')) 5 rs' ws'
     \<and> (if 7 \<in> set [7 :: addr] \<and> 0x10 AND tk_sig_wait (tasks demo_state (Obj 7)) \<noteq> 0
        then rs' = enqueue_spec (prio_of (nodes demo_state)) 7 [6, 0] \<and> ws' = remove1 7 [7]
          \<and> (prio_of (nodes demo_state) 5 < prio_of (nodes demo_state) 7 \<longrightarrow> pendsv u)
        else rs' = [6, 0] \<and> ws' = [7])
     \<and> tk_sig_recvd (tasks u (Obj 7)) = tk_sig_recvd (tasks demo_state (Obj 7)) OR 0x10
     \<and> (\<forall>b. b \<noteq> 7 \<longrightarrow> tasks u (Obj b) = tasks demo_state (Obj b)) \<and> same_objs demo_state u)"
  by (rule signal_send_delivers [OF demo_kern _ demo_room]) simp

text \<open>
  C6: \<open>signal_wait\<close>, called by the running task, either returns at once or blocks.  If a
  signal it waits for has been received it returns exactly the received ones of them and
  clears these and no others.  Otherwise the task is at the end of the waiting list in state
  waiting with its mask recorded, interrupts are unmasked whatever the nesting depth of the
  caller, and a context switch is pending.
\<close>

theorem signal_wait_returns_or_blocks:
  assumes "kern s L r rs ws" and "r \<notin> set rs" and "r \<notin> set ws" and "r \<noteq> init_addr" and "nest_room 1 s"
  defines "T \<equiv> tasks s (Obj r)"
  shows "runs_to (signal_wait signals) s (\<lambda>v u.
     if signals AND tk_sig_recvd T \<noteq> 0
     then v = Returned (signals AND tk_sig_recvd T) \<and> kern u L r rs ws
       \<and> tk_sig_recvd (tasks u (Obj r)) = tk_sig_recvd T AND NOT signals
       \<and> id_nestcnt u = id_nestcnt s
     else v = Blocked (to_int16 (id_nestcnt s + 1)) \<and> kern u (L(waiting \<mapsto> ws @ [r])) r rs (ws @ [r])
       \<and> tk_sig_wait (tasks u (Obj r)) = signals \<and> tk_sig_recvd (tasks u (Obj r)) = tk_sig_recvd T
       \<and> id_nestcnt u = - 1 \<and> \<not> primask u \<and> pendsv u)" (is "runs_to _ _ ?Q")
proof (rule runs_to_weaken [OF signal_wait_kern [OF assms(1-5)]])
  fix v u assume p: "wait_post s L r rs ws signals (id_nestcnt s + 1) v u"
  have "x AND NOT (signals AND x) = x AND NOT signals" for x :: Signals
    by (auto simp: bit_eq_iff bit_simps)
  then show "?Q v u"
    using p kern_lists(5) [of u] by (auto simp: wait_post_def consume_def T_def Let_def irq_ok_def)
qed

theorem signal_wait_returns_or_blocks_witness:
  "runs_to (signal_wait 0x10) demo_state (\<lambda>v u.
     if 0x10 AND tk_sig_recvd (tasks demo_state (Obj 5)) \<noteq> 0
     then v = Returned (0x10 AND tk_sig_recvd (tasks demo_state (Obj 5))) \<and> kern u demo_lists 5 [6, 0] [7]
       \<and> tk_sig_recvd (tasks u (Obj 5)) = tk_sig_recvd (tasks demo_state (Obj 5)) AND NOT 0x10
       \<and> id_nestcnt u = id_nestcnt demo_state
     else v = Blocked (to_int16 (id_nestcnt demo_state + 1))
       \<and> kern u (demo_lists(waiting \<mapsto> [7] @ [5])) 5 [6, 0] ([7] @ [5])
       \<and> tk_sig_wait (tasks u (Obj 5)) = 0x10
       \<and> tk_sig_recvd (tasks u (Obj 5)) = tk_sig_recvd (tasks demo_state (Obj 5))
       \<and> id_nestcnt u = - 1 \<and> \<not> primask u \<and> pendsv u)"
  by (rule signal_wait_returns_or_blocks [OF demo_kern _ _ _ demo_room]) (simp_all add: init_addr_def)

section \<open>The scheduler\<close>

text \<open>
  C3: The context switch gives the processor to a task of the highest priority among the
  ready tasks and the one that was running.  The task that was running keeps the processor
  only if every ready task has a lower priority; otherwise it queues behind the
  tasks of its own priority.  The stack pointer returned is the one saved for the new
  task, the time slice is reset, no switch is pending afterwards.
\<close>

theorem PendSV_highest_priority:
  assumes "kern s L r rs ws" and "\<not> primask s" and "frame_fits (psp - 32) (tk_context (tasks s (Obj r)))"
    and "r \<notin> set rs" and "r \<notin> set ws"
  shows "runs_to (PendSV_Handler psp) s (\<lambda>v u. \<exists>y ys.
     y # ys = enqueue_spec (prio_of (nodes s)) r rs
     \<and> kern u (L(ready \<mapsto> ys)) y ys ws \<and> \<not> pendsv u \<and> elapsed u = QUANTUM
     \<and> (\<forall>t \<in> insert r (set rs). prio_of (nodes s) t \<le> prio_of (nodes s) y)
     \<and> (y = r \<longleftrightarrow> (\<forall>t \<in> set rs. prio_of (nodes s) t < prio_of (nodes s) r))
     \<and> cx_frame (tk_context (tasks u (Obj r))) = psp - 32
     \<and> v = cx_frame (tk_context (tasks u (Obj y)))
     \<and> (\<forall>t. t \<noteq> r \<longrightarrow> tk_context (tasks u (Obj t)) = tk_context (tasks s (Obj t))))" (is "runs_to _ _ ?Q")
proof (rule runs_to_weaken [OF PendSV_kern [OF assms(1-3)]])
  let ?q = "enqueue_spec (prio_of (nodes s)) r rs"
  fix v u assume p: "switch_post s L r rs ws (psp - 32) v u"
  have q: "switch_queue s r rs ws = ?q" using assms(4,5) by (simp add: switch_queue_def)
  then obtain y ys where y: "?q = y # ys" using switch_queue_props(1) [OF assms(1)] by (cases ?q) auto
  have so: "sorted_prio (prio_of (nodes s)) (y # ys)"
    using switch_queue_props(2) [OF assms(1)] q y by simp
  have "insert r (set rs) = set (y # ys)" using y set_enqueue_spec [of "prio_of (nodes s)" r rs] by simp
  then have top: "\<forall>t \<in> insert r (set rs). prio_of (nodes s) t \<le> prio_of (nodes s) y"
    using so by (auto simp: sorted_prio_def)
  have "y = r \<longleftrightarrow> (\<forall>t \<in> set rs. prio_of (nodes s) t < prio_of (nodes s) r)"
    using y assms(4) kern_lists(6) [OF assms(1)]
    by (cases rs) (auto simp: enqueue_spec_def sorted_prio_def split: if_splits)
  then show "?Q v u"
    using p q y top
    by (intro exI [of _ y] exI [of _ ys])
      (auto simp: switch_post_def Let_def switch_tasks_def switched_out_def)
qed

theorem PendSV_highest_priority_witness:
  "runs_to (PendSV_Handler 0x20000300) demo_state (\<lambda>v u. \<exists>y ys.
     y # ys = enqueue_spec (prio_of (nodes demo_state)) 5 [6, 0]
     \<and> kern u (demo_lists(ready \<mapsto> ys)) y ys [7] \<and> \<not> pendsv u \<and> elapsed u = QUANTUM
     \<and> (\<forall>t \<in> insert 5 (set [6, 0]). prio_of (nodes demo_state) t \<le> prio_of (nodes demo_state) y)
     \<and> (y = 5 \<longleftrightarrow> (\<forall>t \<in> set [6, 0]. prio_of (nodes demo_state) t < prio_of (nodes demo_state) 5))
     \<and> cx_frame (tk_context (tasks u (Obj 5))) = 0x20000300 - 32
     \<and> v = cx_frame (tk_context (tasks u (Obj y)))
     \<and> (\<forall>t. t \<noteq> 5 \<longrightarrow> tk_context (tasks u (Obj t)) = tk_context (tasks demo_state (Obj t))))"
  by (rule PendSV_highest_priority [OF demo_kern])
    (simp_all add: frame_fits_def demo_tasks_def demo_task_def blank_task_def SIZEOF_StackFrame_def)

text \<open>Consecutive context switches; \<open>psp t\<close> is the stack pointer of task \<open>t\<close> when it is interrupted.\<close>

primrec switches :: "(ptr \<Rightarrow> 32 word) \<Rightarrow> nat \<Rightarrow> unit K" where
  "switches psp 0 = ret ()"
| "switches psp (Suc n) =
     bindM (gets running) (\<lambda>p. bindM (PendSV_Handler (psp p)) (\<lambda>_. switches psp n))"

lemma enqueue_behind_equals:
  assumes "\<forall>t \<in> set es. pr t = pr r" and "\<forall>t \<in> set ls. pr t < (pr r :: 'p :: linorder)"
  shows "enqueue_spec pr r (es @ ls) = es @ r # ls"
proof -
  have "takeWhile (\<lambda>y. pr r \<le> pr y) ls = []" "dropWhile (\<lambda>y. pr r \<le> pr y) ls = ls"
    using assms(2) by (cases ls; auto)+
  then show ?thesis
    using assms(1) by (simp add: enqueue_spec_def takeWhile_append2 dropWhile_append2)
qed

lemma switches_rotate:
  "kern s L r (es @ ls) ws \<Longrightarrow> r \<notin> set (es @ ls) \<Longrightarrow> r \<notin> set ws \<Longrightarrow> \<not> primask s \<Longrightarrow>
   \<forall>t \<in> set es. prio_of (nodes s) t = prio_of (nodes s) r \<Longrightarrow>
   \<forall>t \<in> set ls. prio_of (nodes s) t < prio_of (nodes s) r \<Longrightarrow>
   \<forall>t \<in> set (r # es). frame_fits (psp (Obj t) - 32) (tk_context (tasks s (Obj t))) \<Longrightarrow>
   runs_to (switches psp n) s (\<lambda>_ u. \<exists>L'. kern u L' (hd (rotate n (r # es))) (tl (rotate n (r # es)) @ ls) ws)"
proof (induction n arbitrary: s L r es)
  case 0
  then show ?case by (auto simp: run_simps)
next
  case (Suc n)
  let ?q = "es @ r # ls"
  obtain y ys where y: "es @ [r] = y # ys" by (cases "es @ [r]") auto
  have sq: "switch_queue s r (es @ ls) ws = y # ys @ ls"
    using Suc.prems(2,3) enqueue_behind_equals [OF Suc.prems(5,6)] arg_cong [OF y, of "\<lambda>xs. xs @ ls"]
    by (simp add: switch_queue_def)
  have sets: "insert r (set es) = insert y (set ys)" using arg_cong [OF y, of set] by auto
  have rot: "rotate (Suc n) (r # es) = rotate n (y # ys)"
    unfolding rotate_Suc using y by (simp add: rotate1_rotate_swap)
  have step: "runs_to (switches psp n) u (\<lambda>_ w. \<exists>L'. kern w L' (hd (rotate n (y # ys))) (tl (rotate n (y # ys)) @ ls) ws)"
    if u: "switch_post s L r (es @ ls) ws (psp (Obj r) - 32) v u" for v u
  proof -
    have k: "kern u (L(ready \<mapsto> ys @ ls)) y (ys @ ls) ws" and d: "same_objs s u"
      and t: "tasks u = switch_tasks s r y (psp (Obj r) - 32)"
      using u by (simp_all add: switch_post_def sq Let_def)
    have "y \<notin> set (ys @ ls)" "y \<notin> set ws"
      using u kern_sched(1,2) [OF k] by (simp_all add: switch_post_def sq Let_def)
    moreover have "\<forall>x \<in> insert y (set ys). prio_of (nodes s) x = prio_of (nodes s) r"
      using Suc.prems(5) unfolding sets [symmetric] by simp
    moreover have "frame_fits f (tk_context (tasks u (Obj x))) = frame_fits f (tk_context (tasks s (Obj x)))" for f x
      by (simp add: t switch_tasks_def Let_def switched_out_def frame_fits_def)
    ultimately show ?thesis
      using Suc.prems(4,6,7) sets d
      by (intro Suc.IH [OF k]) (auto simp: same_objs_prio [OF d], simp_all add: same_objs_def)
  qed
  show ?case
    unfolding rot switches.simps run_simps kern_lists(4) [OF Suc.prems(1)]
    by (rule runs_to_weaken [OF PendSV_kern [OF Suc.prems(1,4)]]) (use Suc.prems(7) step in simp_all)
qed

text \<open>
  C15: Tasks of equal priority share the processor in turn.  If the tasks \<open>es\<close> at the front of
  the ready list have the priority of the running task \<open>r\<close> and all others a lower one, then
  after \<open>n\<close> context switches with no other event the running task is the \<open>n\<close>-th of the
  cycle \<open>r, es\<close>: every one of them gets its turn and none gets a second one before all others
  have had theirs.
\<close>

theorem round_robin:
  assumes "kern s L r (es @ ls) ws" and "r \<notin> set (es @ ls)" and "r \<notin> set ws" and "\<not> primask s"
    and "\<forall>t \<in> set es. prio_of (nodes s) t = prio_of (nodes s) r"
    and "\<forall>t \<in> set ls. prio_of (nodes s) t < prio_of (nodes s) r"
    and "\<forall>t \<in> set (r # es). frame_fits (psp (Obj t) - 32) (tk_context (tasks s (Obj t)))"
  shows "runs_to (switches psp n) s (\<lambda>_ u. running u = Obj ((r # es) ! (n mod length (r # es))))"
  by (rule runs_to_weaken [OF switches_rotate [OF assms]])
    (auto dest!: kern_lists(4) simp: hd_rotate_conv_nth)

theorem round_robin_witness:
  "runs_to (switches (\<lambda>_. 0x20000300) 3) demo_state (\<lambda>_ u. running u = Obj ((5 # [6]) ! (3 mod length [5, 6 :: addr])))"
  by (rule round_robin [where ls = "[0]" and ws = "[7]" and L = demo_lists])
    (use demo_kern in \<open>simp_all add: demo_prio_of demo_order frame_fits_def demo_tasks_def demo_task_def
      blank_task_def SIZEOF_StackFrame_def\<close>)

text \<open>
  The time slice.  After a context switch the first three system ticks request nothing and
  the fourth requests a switch, so a task that nothing else preempts runs for
  \<open>QUANTUM\<close> ticks.
\<close>

theorem time_slice:
  assumes "elapsed s = QUANTUM" and "\<not> pendsv s"
  shows "runs_to (repeatM k SysTick_Handler) s (\<lambda>_ u. k \<le> unat QUANTUM \<longrightarrow> (pendsv u \<longleftrightarrow> k = unat QUANTUM))"
proof -
  have "runs_to (repeatM k SysTick_Handler) s (\<lambda>_ u. k \<le> 4 \<longrightarrow> elapsed u = 4 - of_nat k \<and> (pendsv u \<longleftrightarrow> k = 4))"
  proof (induction k)
    case 0
    then show ?case using assms by (simp add: run_simps QUANTUM_def)
  next
    case (Suc k)
    have "(4 - of_nat k - 1 = (0 :: 32 word)) = (k = 3)" if "Suc k \<le> 4"
      using that by (cases "k = 0 \<or> k = 1 \<or> k = 2 \<or> k = 3") auto
    then show ?case
      unfolding runs_to_repeatM_Suc
      by (intro runs_to_weaken [OF Suc.IH]) (auto simp: SysTick_Handler_def run_simps algebra_simps)
  qed
  then show ?thesis by (rule runs_to_weaken) (simp add: QUANTUM_def)
qed

theorem time_slice_witness:
  "runs_to (repeatM 4 SysTick_Handler) demo_state (\<lambda>_ u. 4 \<le> unat QUANTUM \<longrightarrow> (pendsv u \<longleftrightarrow> 4 = unat QUANTUM))"
  by (rule time_slice) simp_all

section \<open>Waking up\<close>

lemma woken_first:
  assumes k: "kern s L r rs ws" and p: "\<not> pendsv s" and w: "w \<in> set ws"
    and pr: "prio_of (nodes s) r < prio_of (nodes s) w" and u: "send_post s L r rs ws w sg u" and wk: "wakes s ws w sg"
  shows "\<exists>ys. switch_queue u r (send_ready s rs ws w sg) (send_waiting s ws w sg) = w # ys \<and> r \<in> set ys"
proof -
  let ?rs = "send_ready s rs ws w sg" and ?ws = "send_waiting s ws w sg"
  have ku: "kern u (L(waiting \<mapsto> ?ws, ready \<mapsto> ?rs)) r ?rs ?ws" and d: "same_objs s u"
    using u by (simp_all add: send_post_def)
  have r: "r \<notin> set rs" "r \<notin> set ws" using kern_sched(1,2) [OF k p] .
  have rs: "set ?rs = insert w (set rs)" using wk by (simp add: send_ready_def)
  have q: "set (switch_queue u r ?rs ?ws) = insert r (insert w (set rs))"
    using r w rs wk kern_distinct(2) [OF k] by (auto simp: switch_queue_def send_waiting_def)
  obtain y ys where y: "switch_queue u r ?rs ?ws = y # ys"
    using switch_queue_props(1) [OF ku] by (cases "switch_queue u r ?rs ?ws") auto
  have "prio_of (nodes s) w \<le> prio_of (nodes s) y"
    using switch_queue_props(2) [OF ku] y q same_objs_prio [OF d] by (auto simp: sorted_prio_def)
  moreover have "prio_of (nodes s) t < prio_of (nodes s) w" if "t \<in> insert r (set rs)" for t
    using that kern_sched(3) [OF k p, of t] pr by auto
  moreover have "y \<in> insert w (insert r (set rs))" using y q by auto
  ultimately have "y = w" by (metis insertE leD)
  then show ?thesis using y q w r by auto
qed

text \<open>The woken task runs and its \<open>signal_wait\<close> returns.\<close>

definition woken_post ::
  "kstate \<Rightarrow> lists \<Rightarrow> addr \<Rightarrow> addr \<Rightarrow> Signals \<Rightarrow> int \<Rightarrow> wait_result \<Rightarrow> kstate \<Rightarrow> bool" where
  "woken_post s L r w sg n v u = (
     v = Returned (tk_sig_wait (tasks s (Obj w)) AND (tk_sig_recvd (tasks s (Obj w)) OR sg))
     \<and> id_nestcnt u = n - 1 \<and> running u = Obj w \<and> same_store s u
     \<and> (\<exists>L' rs' ws'. kern u L' w rs' ws' \<and> r \<in> set rs' \<and> other_lists L L'))"

lemma woken_returned: "woken_post s L r w sg n v u \<Longrightarrow> \<exists>x. v = Returned x"
  by (simp add: woken_post_def)

lemma woken_runs:
  assumes k: "kern s L r rs ws" and p: "\<not> pendsv s" "\<not> primask s" and w: "w \<in> set ws"
    and pr: "prio_of (nodes s) r < prio_of (nodes s) w" and sg: "sg AND tk_sig_wait (tasks s (Obj w)) \<noteq> 0"
    and f: "frame_fits (psp - 32) (tk_context (tasks s (Obj r)))" and n: "0 \<le> n" "n \<le> INT32_MAX"
    and u1: "send_post s L r rs ws w sg u1"
  shows "runs_to (bindM (PendSV_Handler psp) (\<lambda>_. signal_wait_resume (tk_sig_wait (tasks s (Obj w))) n)) u1
     (\<lambda>v u. woken_post s L r w sg n v u)"
proof -
  let ?rs = "send_ready s rs ws w sg" and ?ws = "send_waiting s ws w sg" and ?m = "tk_sig_wait (tasks s (Obj w))"
  have wk: "wakes s ws w sg" using w sg by (simp add: wakes_def)
  have rw: "r \<noteq> w" using pr by auto
  have k1: "kern u1 (L(waiting \<mapsto> ?ws, ready \<mapsto> ?rs)) r ?rs ?ws" and o1: "same_objs s u1"
    and c1: "tk_context (tasks u1 (Obj r)) = tk_context (tasks s (Obj r))"
    using u1 rw by (simp_all add: send_post_def)
  have m: "?m AND (tk_sig_recvd (tasks s (Obj w)) OR sg) \<noteq> 0"
    using sg and_or_eq_0 [of "tk_sig_recvd (tasks s (Obj w))" sg ?m] by (simp add: and.commute)
  obtain ys where q: "switch_queue u1 r ?rs ?ws = w # ys" "r \<in> set ys"
    using woken_first [OF k p(1) w pr u1 wk] by blast
  show ?thesis
    unfolding runs_to_bindM
  proof (rule runs_to_weaken [OF PendSV_kern [OF k1]])
    fix v u2 assume u2: "switch_post u1 (L(waiting \<mapsto> ?ws, ready \<mapsto> ?rs)) r ?rs ?ws (psp - 32) v u2"
    let ?L = "L(waiting \<mapsto> ?ws, ready \<mapsto> ?rs, ready \<mapsto> ys)"
    have k2: "kern u2 ?L w ys ?ws" and np: "\<not> pendsv u2" and o: "same_objs s u2"
      and t: "tasks u2 = switch_tasks u1 r w (psp - 32)"
      using u2 q o1 by (auto simp: switch_post_def Let_def intro: same_objs_trans)
    have T: "tk_sig_wait (tasks u2 (Obj w)) = ?m"
      "tk_sig_recvd (tasks u2 (Obj w)) = tk_sig_recvd (tasks s (Obj w)) OR sg"
      using rw u1 by (simp_all add: t switch_tasks_def Let_def send_post_def send_task_def)
    have id: "id_nestcnt u2 = - 1"
      using o p(2) kern_lists(5) [OF k] by (simp add: same_objs_def irq_ok_def)
    have wi: "w \<noteq> init_addr" using w kern_sched(5) [OF k] by auto
    have "runs_to (signal_wait_resume ?m n) u2 (\<lambda>v u. wait_post u2 ?L w ys ?ws ?m n v u)"
      by (rule signal_wait_resume_kern [OF k2 kern_sched(1,2) [OF k2 np] wi T(1) id n])
    moreover have "woken_post s L r w sg n v u" if u: "wait_post u2 ?L w ys ?ws ?m n v u" for v u
    proof -
      have ku: "kern u ?L w ys ?ws" and "v = Returned (?m AND (tk_sig_recvd (tasks s (Obj w)) OR sg))"
        "id_nestcnt u = n - 1" "same_store u2 u"
        using u m T by (simp_all add: wait_post_def Let_def)
      moreover have "same_store s u2" using o by (simp add: same_objs_def)
      moreover have "other_lists L ?L" by (simp add: other_lists_def)
      ultimately show ?thesis
        using kern_lists(4) [OF ku] q(2) unfolding woken_post_def by (blast intro: same_store_trans)
    qed
    ultimately show "runs_to (signal_wait_resume ?m n) u2 (\<lambda>v u. woken_post s L r w sg n v u)"
      by (rule runs_to_weaken)
  qed (use o1 p(2) f c1 in \<open>simp_all add: same_objs_def\<close>)
qed

text \<open>
  C1: No wake-up is lost, and a more urgent task runs at once.  If task \<open>w\<close> is blocked in
  \<open>signal_wait\<close> and the running task, of lower priority, sends it a signal it waits for, then
  the send returns, the switch it requests puts \<open>w\<close> on the processor, and \<open>signal_wait\<close>
  returns in \<open>w\<close> with all the awaited signals received so far and with the nesting count \<open>w\<close>
  had before; the task that sent the signal is ready.
\<close>

theorem signal_wakes_waiter:
  assumes "kern s L r rs ws" and "\<not> pendsv s" and "\<not> primask s" and "w \<in> set ws"
    and "prio_of (nodes s) r < prio_of (nodes s) w" and "sg AND tk_sig_wait (tasks s (Obj w)) \<noteq> 0"
    and "frame_fits (psp - 32) (tk_context (tasks s (Obj r)))" and "0 \<le> n" and "n \<le> INT32_MAX"
  shows "runs_to (seqM (signal_send (Obj w) sg)
       (bindM (PendSV_Handler psp) (\<lambda>_. signal_wait_resume (tk_sig_wait (tasks s (Obj w))) n))) s
     (\<lambda>v u. v = Returned (tk_sig_wait (tasks s (Obj w)) AND (tk_sig_recvd (tasks s (Obj w)) OR sg))
        \<and> id_nestcnt u = n - 1 \<and> running u = Obj w
        \<and> (\<exists>L' rs' ws'. kern u L' w rs' ws' \<and> r \<in> set rs'))"
proof -
  have "nest_room 1 s"
    using assms(3) kern_lists(5) [OF assms(1)] by (simp add: nest_room_def irq_ok_def INT32_MAX_def)
  moreover have "w \<in> insert r (set rs \<union> set ws)" using assms(4) by simp
  ultimately have "runs_to (signal_send (Obj w) sg) s (\<lambda>_ u1. send_post s L r rs ws w sg u1)"
    by (intro signal_send_kern [OF assms(1)])
  then show ?thesis
    unfolding runs_to_seqM
    by (elim runs_to_weaken) (rule runs_to_weaken [OF woken_runs [OF assms]], auto simp: woken_post_def)
qed

theorem signal_wakes_waiter_witness:
  "runs_to (seqM (signal_send (Obj 7) 0x30)
       (bindM (PendSV_Handler 0x20000300) (\<lambda>_. signal_wait_resume (tk_sig_wait (tasks demo_state (Obj 7))) 0))) demo_state
     (\<lambda>v u. v = Returned (tk_sig_wait (tasks demo_state (Obj 7)) AND (tk_sig_recvd (tasks demo_state (Obj 7)) OR 0x30))
        \<and> id_nestcnt u = 0 - 1 \<and> running u = Obj 7
        \<and> (\<exists>L' rs' ws'. kern u L' 7 rs' ws' \<and> 5 \<in> set rs'))"
  by (rule signal_wakes_waiter [OF demo_kern])
    (simp_all add: demo_prio_of demo_order demo_tasks_def demo_task_def blank_task_def frame_fits_def
      SIZEOF_StackFrame_def INT32_MAX_def)

section \<open>Signal allocation\<close>

lemma alloc_result_free:
  assumes "- 1 \<le> signal" "signal < SIGNALS_WIDTH" "alloc_result signal m \<noteq> - 1"
  shows "0 \<le> alloc_result signal m" "alloc_result signal m < 16" "\<not> bit m (nat (alloc_result signal m))"
    "alloc_target signal m = nat (alloc_result signal m)"
    "signal = - 1 \<Longrightarrow> nat (alloc_result signal m) < k \<Longrightarrow> k < 16 \<Longrightarrow> bit m k"
proof -
  let ?F = "{k. k < 16 \<and> \<not> bit m k}"
  have F: "signal = - 1 \<Longrightarrow> ?F \<noteq> {} \<and> alloc_result signal m = int (Max ?F)"
    using assms(3) by (auto simp: alloc_result_def split: if_splits)
  then have M: "signal = - 1 \<Longrightarrow> Max ?F \<in> ?F" by (intro Max_in) auto
  show "0 \<le> alloc_result signal m" "alloc_result signal m < 16" "\<not> bit m (nat (alloc_result signal m))"
    "alloc_target signal m = nat (alloc_result signal m)"
    using assms M F by (auto simp: alloc_result_def alloc_target_def SIGNALS_WIDTH_def split: if_splits)
  show "signal = - 1 \<Longrightarrow> nat (alloc_result signal m) < k \<Longrightarrow> k < 16 \<Longrightarrow> bit m k"
    using F Max_ge [of ?F k] by fastforce
qed

text \<open>Allocation with no preference while some signal is free: bit \<open>k\<close>, never that of \<open>SIGF_SINGLE\<close>.\<close>

lemma fresh_signal:
  assumes "kern s L r rs ws" and "r \<notin> set rs" and "r \<notin> set ws" and "nest_room 1 s"
    and "\<exists>k < 16. \<not> bit (tk_sig_alloc (tasks s (Obj r))) k"
  shows "runs_to (signal_allocate (- 1)) s (\<lambda>v u. \<exists>k < 16. v = int k \<and> k \<noteq> 0
     \<and> \<not> bit (tk_sig_alloc (tasks s (Obj r))) k \<and> kern u L r rs ws
     \<and> u = s\<lparr>tasks := (tasks s)(Obj r := allocated (sig_mask k) (tasks s (Obj r)))\<rparr>)"
proof -
  let ?A = "tk_sig_alloc (tasks s (Obj r))"
  let ?n = "nat (alloc_result (- 1) ?A)"
  have g: "- 1 < SIGNALS_WIDTH" by (simp add: SIGNALS_WIDTH_def)
  have ne: "alloc_result (- 1) ?A \<noteq> - 1" using assms(5) by (auto simp: alloc_result_def)
  note f = alloc_result_free [OF order_refl g ne]
  have "bit ?A 0"
    using kern_tasks(5) [OF assms(1), of r]
    by (auto simp: task_ok_def SIGF_SINGLE_def bit_eq_iff [where 'a = "16 word"] bit_and_iff bit_1_iff)
  then have "?n \<noteq> 0" using f(3) by (rule_tac notI) simp
  then show ?thesis
    using f(1-4) by (intro runs_to_weaken [OF signal_allocate_kern [OF assms(1-4) order_refl g]] exI [of _ ?n]) auto
qed

lemma fresh_mask:
  assumes "k < 16" and "k \<noteq> 0"
  shows "sig_mask k AND SIGF_SINGLE = 0" "sig_mask k AND (A OR sig_mask k) = sig_mask k" "sig_mask k \<noteq> 0"
    "\<not> bit A k \<Longrightarrow> (A OR sig_mask k) AND NOT (sig_mask k) = A"
  using assms sig_mask_nonzero
  by (auto simp: SIGF_SINGLE_def bit_eq_iff [where 'a = "16 word"] bit_and_iff bit_or_iff bit_not_iff bit_1_iff bit_sig_mask)

text \<open>
  \<open>signal_allocate\<close> returns the requested signal if it was free and -1 if not; with no
  preference it returns the highest free signal, and -1 only if all sixteen are taken.
  A signal it returns was free, is now allocated and not received; no other signal becomes
  allocated, and the invariant is kept.
\<close>

theorem signal_allocate_finds_free:
  assumes "kern s L r rs ws" and "r \<notin> set rs" and "r \<notin> set ws" and "nest_room 1 s"
    and "- 1 \<le> signal" and "signal < SIGNALS_WIDTH"
  defines "A \<equiv> tk_sig_alloc (tasks s (Obj r))"
  shows "runs_to (signal_allocate signal) s (\<lambda>v u. kern u L r rs ws
     \<and> (v = - 1 \<longleftrightarrow> (if signal = - 1 then \<forall>k < 16. bit A k else bit A (nat signal)))
     \<and> (v \<noteq> - 1 \<longrightarrow> 0 \<le> v \<and> v < 16 \<and> \<not> bit A (nat v)
          \<and> (if signal = - 1 then \<forall>k. nat v < k \<longrightarrow> k < 16 \<longrightarrow> bit A k else v = signal)
          \<and> tk_sig_alloc (tasks u (Obj r)) = A OR sig_mask (nat v)
          \<and> \<not> bit (tk_sig_recvd (tasks u (Obj r))) (nat v))
     \<and> (v = - 1 \<longrightarrow> tk_sig_alloc (tasks u (Obj r)) = A))" (is "runs_to _ _ ?Q")
proof (rule runs_to_weaken [OF signal_allocate_kern [OF assms(1-6)], folded A_def])
  fix v u
  assume u: "v = alloc_result signal A \<and> kern u L r rs ws
      \<and> u = s\<lparr>tasks := (tasks s)(Obj r := allocated (sig_mask (alloc_target signal A)) (tasks s (Obj r)))\<rparr>"
  have none: "v = - 1 \<longleftrightarrow> (if signal = - 1 then \<forall>k < 16. bit A k else bit A (nat signal))"
    using u assms(5) by (auto simp: alloc_result_def)
  have k: "kern u L r rs ws" and v: "v = alloc_result signal A" using u by blast+
  have al: "tk_sig_alloc (tasks u (Obj r)) = A OR sig_mask (alloc_target signal A)"
    and rc: "tk_sig_recvd (tasks u (Obj r)) = tk_sig_recvd (tasks s (Obj r)) AND NOT (sig_mask (alloc_target signal A))"
    using u by (simp_all add: allocated_def A_def)
  show "?Q v u"
  proof (cases "v = - 1")
    case True
    then have "bit A (alloc_target signal A)"
      using none v assms(5,6) by (auto simp: alloc_target_def split: if_splits)
    then have "A OR sig_mask (alloc_target signal A) = A"
      by (auto simp: bit_eq_iff [where 'a = "16 word"] bit_or_iff bit_sig_mask)
    then show ?thesis using True none k al by simp
  next
    case False
    note f = alloc_result_free [OF assms(5,6), of A, folded v, OF False]
    have "signal \<noteq> - 1 \<Longrightarrow> v = signal" using v False by (simp add: alloc_result_def split: if_splits)
    moreover have "\<not> bit (tk_sig_recvd (tasks u (Obj r))) (nat v)"
      using f(1,2) by (simp add: rc f(4) bit_and_iff bit_not_iff bit_sig_mask)
    moreover have "signal = - 1 \<Longrightarrow> \<forall>k. nat v < k \<longrightarrow> k < 16 \<longrightarrow> bit A k" using f(5) by blast
    ultimately show ?thesis using False none k al f(1-4) by simp
  qed
qed

theorem signal_allocate_finds_free_witness:
  "runs_to (signal_allocate (- 1)) demo_state (\<lambda>v u. kern u demo_lists 5 [6, 0] [7]
     \<and> (v = - 1 \<longleftrightarrow> (if (- 1 :: int) = - 1 then \<forall>k < 16. bit (tk_sig_alloc (tasks demo_state (Obj 5))) k
          else bit (tk_sig_alloc (tasks demo_state (Obj 5))) (nat (- 1))))
     \<and> (v \<noteq> - 1 \<longrightarrow> 0 \<le> v \<and> v < 16 \<and> \<not> bit (tk_sig_alloc (tasks demo_state (Obj 5))) (nat v)
          \<and> (if (- 1 :: int) = - 1 then \<forall>k. nat v < k \<longrightarrow> k < 16 \<longrightarrow> bit (tk_sig_alloc (tasks demo_state (Obj 5))) k
             else v = - 1)
          \<and> tk_sig_alloc (tasks u (Obj 5)) = tk_sig_alloc (tasks demo_state (Obj 5)) OR sig_mask (nat v)
          \<and> \<not> bit (tk_sig_recvd (tasks u (Obj 5))) (nat v))
     \<and> (v = - 1 \<longrightarrow> tk_sig_alloc (tasks u (Obj 5)) = tk_sig_alloc (tasks demo_state (Obj 5))))"
  by (rule signal_allocate_finds_free [OF demo_kern _ _ demo_room]) (simp_all add: SIGNALS_WIDTH_def)

text \<open>
  C36: Asking for a signal that is already allocated fails, but is not without effect: the
  request returns -1 and removes the signal from those the task has received.  A signal that
  was sent and not yet waited for is lost.
\<close>

theorem signal_allocate_taken_clears:
  assumes "kern s L r rs ws" and "r \<notin> set rs" and "r \<notin> set ws" and "nest_room 1 s"
    and "0 \<le> signal" and "signal < SIGNALS_WIDTH" and "bit (tk_sig_alloc (tasks s (Obj r))) (nat signal)"
  shows "runs_to (signal_allocate signal) s (\<lambda>v u. v = - 1
     \<and> tk_sig_recvd (tasks u (Obj r)) = tk_sig_recvd (tasks s (Obj r)) AND NOT (sig_mask (nat signal)))"
proof -
  have "- 1 \<le> signal" using assms(5) by simp
  then show ?thesis
    by (intro runs_to_weaken [OF signal_allocate_kern [OF assms(1-4) _ assms(6)]])
      (use assms(5,7) in \<open>auto simp: allocated_def alloc_result_def alloc_target_def\<close>)
qed

theorem signal_allocate_taken_clears_witness:
  "runs_to (signal_allocate 4) demo_state (\<lambda>v u. v = - 1
     \<and> tk_sig_recvd (tasks u (Obj 5)) = tk_sig_recvd (tasks demo_state (Obj 5)) AND NOT (sig_mask (nat 4)))"
  by (rule signal_allocate_taken_clears [OF demo_kern _ _ demo_room])
    (simp_all add: SIGNALS_WIDTH_def demo_tasks_def demo_task_def bit_numeral_rec)

text \<open>
  Allocating any free signal and freeing it again returns and leaves the allocated set and
  the invariant as they were; \<open>SIGF_SINGLE\<close> is never handed out, so the assertions of
  \<open>signal_free\<close> hold.
\<close>

theorem signal_allocate_free:
  assumes "kern s L r rs ws" and "r \<notin> set rs" and "r \<notin> set ws" and "nest_room 1 s"
    and "\<exists>k < 16. \<not> bit (tk_sig_alloc (tasks s (Obj r))) k"
  shows "runs_to (bindM (signal_allocate (- 1)) (\<lambda>v. signal_free (sig_mask (nat v)))) s
     (\<lambda>_ u. kern u L r rs ws \<and> tk_sig_alloc (tasks u (Obj r)) = tk_sig_alloc (tasks s (Obj r)))"
proof -
  have "runs_to (signal_free (sig_mask k)) u (\<lambda>_ u. kern u L r rs ws \<and> tk_sig_alloc (tasks u (Obj r)) = tk_sig_alloc (tasks s (Obj r)))"
    if k: "k < 16" "k \<noteq> 0" "\<not> bit (tk_sig_alloc (tasks s (Obj r))) k" and u: "kern u L r rs ws"
      "u = s\<lparr>tasks := (tasks s)(Obj r := allocated (sig_mask k) (tasks s (Obj r)))\<rparr>" for k u
    by (rule runs_to_weaken [OF signal_free_kern [OF u(1) assms(2,3) fresh_mask(1) [OF k(1,2)]]])
      (use fresh_mask(2,4) [OF k(1,2)] k(3) in \<open>auto simp: u(2) allocated_def\<close>)
  then show ?thesis
    unfolding run_simps by (intro runs_to_weaken [OF fresh_signal [OF assms]]) auto
qed

theorem signal_allocate_free_witness:
  "runs_to (bindM (signal_allocate (- 1)) (\<lambda>v. signal_free (sig_mask (nat v)))) demo_state
     (\<lambda>_ u. kern u demo_lists 5 [6, 0] [7]
        \<and> tk_sig_alloc (tasks u (Obj 5)) = tk_sig_alloc (tasks demo_state (Obj 5)))"
  by (rule signal_allocate_free [OF demo_kern _ _ demo_room])
    (simp_all add: demo_tasks_def demo_task_def exI [of _ 1] bit_numeral_rec)

section \<open>Priorities\<close>

text \<open>
  \<open>task_set_prio\<close> on the running or on a waiting task returns, sets the priority, changes no
  list and keeps the invariant: the next context switch decides by the new priority, and
  it is requested when the running task's own priority changes.
\<close>

theorem task_set_prio_running_or_waiting:
  assumes "kern s L r rs ws" and "a \<in> insert r (set ws)" and "a \<notin> set rs" and "nest_room 1 s"
  shows "runs_to (task_set_prio (Obj a) v) s (\<lambda>_ u. kern u L r rs ws
     \<and> prio_of (nodes u) = (prio_of (nodes s))(a := v) \<and> tasks u = tasks s
     \<and> (a = r \<longrightarrow> pendsv u) \<and> (a \<noteq> r \<longrightarrow> pendsv u = pendsv s))"
proof -
  have "sorted_prio ((prio_of (nodes s))(a := v)) rs = sorted_prio (prio_of (nodes s)) rs"
    using assms(3) by (intro sorted_prio_cong) auto
  then show ?thesis
    by (intro runs_to_weaken [OF task_set_prio_kern [OF assms(1) _ assms(4)]])
      (use assms kern_lists(6) [OF assms(1)] in \<open>auto simp: set_prio_post_def\<close>)
qed

theorem task_set_prio_running_or_waiting_witness:
  "runs_to (task_set_prio (Obj 7) (mk_prio 2)) demo_state (\<lambda>_ u. kern u demo_lists 5 [6, 0] [7]
     \<and> prio_of (nodes u) = (prio_of (nodes demo_state))(7 := mk_prio 2) \<and> tasks u = tasks demo_state
     \<and> ((7 :: addr) = 5 \<longrightarrow> pendsv u) \<and> ((7 :: addr) \<noteq> 5 \<longrightarrow> pendsv u = pendsv demo_state))"
  by (rule task_set_prio_running_or_waiting [OF demo_kern _ _ demo_room]) simp_all

lemma task_set_prio_apply:
  assumes "kern s L r rs ws" and "a \<in> set rs" and "a \<noteq> r" and "nest_room 1 s"
  shows "runs_to (task_set_prio (Obj a) v) s (\<lambda>_ u.
     u = s\<lparr>nodes := with_prio (nodes s) a v, pendsv := pendsv s \<or> prio_of (nodes s) r < v\<rparr>)"
  using assms(3,4) irq_ok_range [OF kern_lists(5) [OF assms(1)]] kern_tasks(1) [OF assms(1,2)]
  by (simp add: task_set_prio_def run_simps nest_room_def int32_bounds irq_ok_primask [OF kern_lists(5) [OF assms(1)]]
      kern_lists(4) [OF assms(1)] with_prio_def prio_of_def)

lemma enqueue_spec_remove:
  assumes "n \<notin> set xs"
  shows "filter (\<lambda>t. t \<noteq> n) (enqueue_spec pr n xs) = xs"
proof -
  have "filter (\<lambda>t. t \<noteq> n) (enqueue_spec pr n xs) = filter (\<lambda>t. t \<noteq> n) (takeWhile (\<lambda>y. pr n \<le> pr y) xs @ dropWhile (\<lambda>y. pr n \<le> pr y) xs)"
    unfolding enqueue_spec_def filter_append by simp
  also have "\<dots> = xs" unfolding takeWhile_dropWhile_id using assms by (auto intro: filter_True)
  finally show ?thesis .
qed

text \<open>
  The context switch out of a running task when the ready list \<open>rs\<close> need not be sorted: the running task is inserted by the scan of
  \<open>list_enqueue\<close> and the head of the result runs.
\<close>

lemma PendSV_unsorted:
  assumes ok: "lists_ok (nodes s) L" "L ready = Some rs" "unlinked L r" and r: "running s = Obj r" "tk_state (tasks s (Obj r)) = TASK_RUNNING"
    and i: "irq_ok s" "\<not> primask s" and t: "\<forall>t \<in> insert r (set rs). task_ok (tasks s (Obj t))"
    and f: "frame_fits (psp - 32) (tk_context (tasks s (Obj r)))"
    and q: "enqueue_spec (prio_of (nodes s)) r rs = y # ys"
  shows "runs_to (PendSV_Handler psp) s (\<lambda>_ u. running u = Obj y \<and> lists_ok (nodes u) (L(ready \<mapsto> ys))
     \<and> same_data (nodes s) (nodes u) \<and> tasks u = switch_tasks s r y (psp - 32))"
proof -
  have n: "id_nestcnt s = - 1" using i by (simp add: irq_ok_def)
  have ver: "runs_to (task_verify (Obj r)) (s\<lparr>pendsv := False\<rparr>) P = P () (s\<lparr>pendsv := False\<rparr>)" for P
    using t r i n by (intro task_verify_ok) (auto simp: irq_ok_def nest_room_def INT32_MAX_def)
  have rem: "runs_to (list_enqueue ready (Obj r)) (nodes s) (\<lambda>_ h1. runs_to (list_rem_head ready) h1
      (\<lambda>x h. x = Obj y \<and> lists_ok h (L(ready \<mapsto> ys)) \<and> same_data (nodes s) h))"
    using lc.enqueue_rem_head [OF ok] q by (simp add: run_simps)
  have y: "y \<in> insert r (set rs)"
    using arg_cong [OF q, of set] by (auto simp: set_enqueue_spec)
  have "task_ok (switch_tasks s r y (psp - 32) (Obj y))"
    using t y f by (auto simp: switch_tasks_def Let_def switched_out_def task_ok_def ctx_ok_def frame_fits_def)
  note ty = this [unfolded switch_tasks_def Let_def fun_upd_same]
  have cnt: "tk_id_nestcnt (switch_tasks s r y (psp - 32) (Obj y)) = - 1" using ty by (simp add: task_ok_def switch_tasks_def)
  have fin: "runs_to (seqM (task_verify (Obj y)) (get_task (Obj y) (\<lambda>t. cx_frame (tk_context t))))
      (s\<lparr>pendsv := False, nodes := h, running := Obj y, tasks := switch_tasks s r y (psp - 32), id_nestcnt := - 1, elapsed := QUANTUM, primask := False\<rparr>)
      (\<lambda>_ u. running u = Obj y \<and> lists_ok (nodes u) (L(ready \<mapsto> ys)) \<and> same_data (nodes s) (nodes u) \<and> tasks u = switch_tasks s r y (psp - 32))"
    if "lists_ok h (L(ready \<mapsto> ys))" "same_data (nodes s) h" for h
    unfolding runs_to_seqM
    using that ty by (intro task_verify_intro) (simp_all add: nest_room_def INT32_MAX_def irq_ok_def run_simps switch_tasks_def Let_def)
  note run = PendSV_Handler_def PendSV_Handler_user_def run_simps ver r
    disable_irq_def enable_irq_def upd_context_def set_nestcnt_def n
  show ?thesis
    apply (simp add: run)
    apply (rule runs_to_weaken [OF rem], erule runs_to_weaken)
    apply (clarsimp split del: if_split)
    using cnt fin r(2)
    by (cases "y = r"; simp add: switched_out_cases switch_tasks_def run_simps n)
qed

text \<open>
  C37: \<open>task_set_prio\<close> on a ready task changes its priority and leaves it in its old place on the ready list.  Let \<open>b\<close> be the head of the ready list
  and \<open>a\<close> any task behind it.  Whatever the new priority \<open>v\<close> of \<open>a\<close>, the list in memory is unchanged after the call, which requests a context switch if \<open>v\<close>
  is above the priority of the running task \<open>r\<close>.  This switch does not run \<open>a\<close>: it runs \<open>b\<close> or \<open>r\<close>, as their priorities say, and \<open>a\<close> is still ready, with the
  priority \<open>v\<close>, in the same order relative to the other ready tasks.
\<close>

theorem task_set_prio_ready_not_moved:
  assumes "kern s L r (b # rs) ws" and "r \<notin> set (b # rs)" and "r \<notin> set ws" and "a \<in> set rs" and "nest_room 1 s" and "\<not> primask s"
    and "frame_fits (psp - 32) (tk_context (tasks s (Obj r)))"
  shows "runs_to (task_set_prio (Obj a) v) s (\<lambda>_ t. dll (nodes t) ready (b # rs) \<and> (prio_of (nodes s) r < v \<longrightarrow> pendsv t)
     \<and> runs_to (PendSV_Handler psp) t (\<lambda>_ u. running u = Obj (if prio_of (nodes s) r \<le> prio_of (nodes s) b then b else r)
          \<and> running u \<noteq> Obj a \<and> tk_state (tasks u (Obj a)) = TASK_READY \<and> prio_of (nodes u) = (prio_of (nodes s))(a := v)
          \<and> (\<exists>y qs. running u = Obj y \<and> dll (nodes u) ready qs \<and> a \<in> set qs \<and> filter (\<lambda>t. t \<noteq> r) (y # qs) = b # rs)))"
proof -
  note k = assms(1)
  let ?h = "with_prio (nodes s) a v" and ?pr = "(prio_of (nodes s))(a := v)"
  let ?y = "if prio_of (nodes s) r \<le> prio_of (nodes s) b then b else r" and ?q = "enqueue_spec ((prio_of (nodes s))(a := v)) r (b # rs)"
  let ?t = "s\<lparr>nodes := ?h, pendsv := pendsv s \<or> prio_of (nodes s) r < v\<rparr>"
  have ab: "a \<noteq> b" "a \<noteq> r" "a \<in> set (b # rs)" using assms(2,4) kern_distinct(1) [OF k] by auto
  have ok: "lists_ok ?h L" unfolding with_prio_def by (rule lists_ok_set_prio [OF kern_lists(1) [OF k]])
  have dl: "dll h l xs" if "lists_ok h L" "L l = Some xs" for h l xs and L :: lists using that by (simp add: lists_ok_def)
  have q: "?q = ?y # tl ?q" using ab by (simp add: enqueue_spec_def)
  have ft: "filter (\<lambda>t. t \<noteq> r) ?q = b # rs"
    by (rule enqueue_spec_remove [OF assms(2)])
  have "set (?y # tl ?q) = set ?q" by (rule arg_cong [OF q [symmetric]])
  then have "a \<in> set (?y # tl ?q)" using ab(3) by (simp only: set_enqueue_spec insert_iff simp_thms)
  then have aq: "a \<in> set (tl ?q)" using ab(1,2) by (simp only: set_simps insert_iff split: if_splits) blast+
  have "irq_ok ?t" using kern_lists(5) [OF k] by (simp add: irq_ok_def)
  note sw = PendSV_unsorted [where s = ?t and L = L and rs = "b # rs" and r = r and psp = psp and y = ?y and ys = "tl ?q",
      OF _ kern_lists(2) [OF k] kern_unlinked [OF assms(1-3)] _ _ this]
  have "runs_to (PendSV_Handler psp) ?t (\<lambda>_ u. running u = Obj ?y
          \<and> running u \<noteq> Obj a \<and> tk_state (tasks u (Obj a)) = TASK_READY \<and> prio_of (nodes u) = ?pr
          \<and> (\<exists>y qs. running u = Obj y \<and> dll (nodes u) ready qs \<and> a \<in> set qs \<and> filter (\<lambda>t. t \<noteq> r) (y # qs) = b # rs))"
  proof (rule runs_to_weaken [OF sw], goal_cases)
    case (8 x u)
    then have u: "running u = Obj ?y" "lists_ok (nodes u) (L(ready \<mapsto> tl ?q))" "same_data ?h (nodes u)" "tasks u = switch_tasks ?t r ?y (psp - 32)"
      by auto
    have "tk_state (tasks u (Obj a)) = TASK_READY" using u(4) ab kern_tasks(1) [OF k, of a] by (auto simp: switch_tasks_def Let_def)
    moreover have "prio_of (nodes u) = ?pr" using same_data_prio_of [OF u(3)] by simp
    moreover have "dll (nodes u) ready (tl ?q)" using dl [OF u(2)] by simp
    moreover have "filter (\<lambda>t. t \<noteq> r) (?y # tl ?q) = b # rs" using ft q by metis
    ultimately show ?case using u(1) ab(1,2) aq by (intro conjI exI [of _ ?y] exI [of _ "tl ?q"]) simp_all
  qed (use ok k assms(2,3,6,7) q kern_lists(4) [OF k] kern_tasks(4,5) [OF k] in simp_all)
  then show ?thesis
    by (intro runs_to_weaken [OF task_set_prio_apply [OF k ab(3) _ assms(5)]]) (use ab dl [OF ok kern_lists(2) [OF k]] in auto)
qed

theorem task_set_prio_ready_not_moved_witness:
  "runs_to (task_set_prio (Obj 0) (mk_prio 20)) demo_state (\<lambda>_ t. dll (nodes t) ready [6, 0] \<and> (prio_of (nodes demo_state) 5 < mk_prio 20 \<longrightarrow> pendsv t)
     \<and> runs_to (PendSV_Handler 0x20000300) t (\<lambda>_ u. running u = Obj (if prio_of (nodes demo_state) 5 \<le> prio_of (nodes demo_state) 6 then 6 else 5)
          \<and> running u \<noteq> Obj 0 \<and> tk_state (tasks u (Obj 0)) = TASK_READY \<and> prio_of (nodes u) = (prio_of (nodes demo_state))(0 := mk_prio 20)
          \<and> (\<exists>y qs. running u = Obj y \<and> dll (nodes u) ready qs \<and> 0 \<in> set qs \<and> filter (\<lambda>t. t \<noteq> 5) (y # qs) = [6, 0])))
   \<and> prio_of (nodes demo_state) 5 = mk_prio 3 \<and> prio_of (nodes demo_state) 6 = mk_prio 3"
proof
  show "prio_of (nodes demo_state) 5 = mk_prio 3 \<and> prio_of (nodes demo_state) 6 = mk_prio 3" by (simp add: demo_prio_of demo_prio_def)
qed (rule task_set_prio_ready_not_moved [OF demo_kern _ _ _ demo_room],
  simp_all add: demo_tasks_def demo_task_def blank_task_def frame_fits_def SIZEOF_StackFrame_def)

section \<open>Creating and finding tasks\<close>

text \<open>The state after a task has been created.\<close>

definition created_post ::
  "kstate \<Rightarrow> lists \<Rightarrow> addr \<Rightarrow> addr list \<Rightarrow> addr list \<Rightarrow> addr \<Rightarrow> string \<Rightarrow> Node_Prio \<Rightarrow> 32 word \<Rightarrow> kstate \<Rightarrow> bool" where
  "created_post s L r rs ws a name prio init_pc u \<longleftrightarrow> (\<exists>pr rs'. pr = (prio_of (nodes s))(a := prio) \<and> rs' = enqueue_spec pr a rs
        \<and> kern u (L(ready \<mapsto> rs')) r rs' ws \<and> prio_of (nodes u) = pr \<and> pendsv u
        \<and> nd_name (nodes u (Obj a)) = Some name
        \<and> tk_state (tasks u (Obj a)) = TASK_READY \<and> tk_sig_recvd (tasks u (Obj a)) = 0
        \<and> ram u (cx_frame (tk_context (tasks u (Obj a))) + OFF_pc) = init_pc
        \<and> (\<forall>t. t \<noteq> a \<longrightarrow> tasks u (Obj t) = tasks s (Obj t)))
     \<and> id_nestcnt u = id_nestcnt s"

lemma task_created:
  assumes "kern s L r rs ws" and "nest_room 1 s" and "unlinked L a" and "a \<noteq> r"
    and "names_ok (nodes s) (rs @ ws)" and "c_string name" and "find_spec (nodes s) name (rs @ ws) = NULL"
    and "null_name s = Some b" and "strcmp_chars name b \<noteq> 0"
    and "stack mod 4 = 0" and "stack_size mod 4 = 0" and "64 \<le> stack_size" and "unat stack + unat stack_size < 2 ^ 32"
  shows "runs_to (seqM (task_init im (Obj a) (Some name) prio init_pc user_data stack stack_size)
       (task_schedule (Obj a))) s
     (\<lambda>_ u. created_post s L r rs ws a name prio init_pc u)"
  unfolding runs_to_seqM
proof (rule runs_to_weaken [OF task_init_kern [OF assms]], elim conjE)
  fix x u
  assume k: "kern u L r rs ws" and st: "tk_state (tasks u (Obj a)) = TASK_INITIALIZED" "task_ok (tasks u (Obj a))"
    and n: "id_nestcnt u = id_nestcnt s"
    and h: "nodes u = (nodes s)(Obj a := (nodes s (Obj a))\<lparr>nd_name := Some name, nd_prio := prio\<rparr>)"
    and m: "ram u = frame_image im (stack + stack_size - 64) init_pc user_data (ram s)"
    and t: "tasks u = (tasks s)(Obj a := tasks u (Obj a))" "tk_sig_recvd (tasks u (Obj a)) = 0"
      "tk_context (tasks u (Obj a)) =
         \<lparr>cx_frame = stack + stack_size - 64, cx_bos = stack, cx_tos = stack + stack_size\<rparr>"
  have pr: "prio_of (nodes u) = (prio_of (nodes s))(a := prio)" by (auto simp: h prio_of_def)
  have room: "nest_room 1 u" using assms(2) n by (simp add: nest_room_def)
  have other: "tasks u (Obj c) = tasks s (Obj c)" if "c \<noteq> a" for c
    using arg_cong [OF t(1), of "\<lambda>f. f (Obj c)"] that by simp
  have nm: "nd_name (nodes w (Obj a)) = Some name" if "same_objs u w" for w
    using that by (simp add: same_defs same_data_def h)
  show "runs_to (task_schedule (Obj a)) u (\<lambda>_ u. created_post s L r rs ws a name prio init_pc u)"
  proof (rule runs_to_weaken [OF task_schedule_kern [OF k assms(3,4) st(2,1) room]])
    fix x w assume w: "schedule_post u L r rs ws a w"
    then have o: "same_objs u w" "ram w = ram u" "id_nestcnt w = id_nestcnt u" by (simp_all add: schedule_post_def same_defs)
    show "created_post s L r rs ws a name prio init_pc w"
      using w t(2,3) o(3) n frame_image_fields(3)
      by (simp add: created_post_def schedule_post_def pr same_objs_prio [OF o(1)] o(2) m nm [OF o(1)] other)
  qed
qed

text \<open>
  C35: Creating a task.  On an object that is on no list, with a name no task on the lists has
  and an aligned stack of at least one frame, \<open>task_init\<close> followed by \<open>task_schedule\<close> returns
  and keeps the invariant: the task is ready, in its place by priority, with only
  \<open>SIGF_SINGLE\<close> allocated and nothing received, and a context switch is pending.  (Hypothesis on
  the hardware: address zero is readable and does not hold the name.)
\<close>

theorem task_create:
  assumes "kern s L r rs ws" and "nest_room 1 s" and "unlinked L a" and "a \<noteq> r"
    and "names_ok (nodes s) (rs @ ws)" and "c_string name" and "find_spec (nodes s) name (rs @ ws) = NULL"
    and "null_name s = Some b" and "strcmp_chars name b \<noteq> 0"
    and "stack mod 4 = 0" and "stack_size mod 4 = 0" and "64 \<le> stack_size" and "unat stack + unat stack_size < 2 ^ 32"
  shows "runs_to (seqM (task_init im (Obj a) (Some name) prio init_pc user_data stack stack_size)
       (task_schedule (Obj a))) s
     (\<lambda>_ u. \<exists>pr rs'. pr = (prio_of (nodes s))(a := prio) \<and> rs' = enqueue_spec pr a rs
        \<and> kern u (L(ready \<mapsto> rs')) r rs' ws \<and> prio_of (nodes u) = pr \<and> pendsv u
        \<and> nd_name (nodes u (Obj a)) = Some name
        \<and> tk_state (tasks u (Obj a)) = TASK_READY \<and> tk_sig_recvd (tasks u (Obj a)) = 0
        \<and> ram u (cx_frame (tk_context (tasks u (Obj a))) + OFF_pc) = init_pc
        \<and> (\<forall>t. t \<noteq> a \<longrightarrow> tasks u (Obj t) = tasks s (Obj t)))"
  using task_created [OF assms] by (rule runs_to_weaken) (simp add: created_post_def)

lemma demo_names: "names_ok (nodes demo_state) ([6, 0] @ [7])"
  by (simp add: names_ok_def demo_nodes_def link_in_def blank_heap_def demo_name_def c_string_def)

lemma demo_find_free: "find_spec (nodes demo_state) ''eight'' ([6, 0] @ [7]) = NULL"
  by (simp add: find_spec_NULL demo_nodes_def link_in_def blank_heap_def demo_name_def)

lemma demo_unlinked: "n \<notin> {0, 6, 7} \<Longrightarrow> unlinked demo_lists n"
  by (auto simp: unlinked_def demo_lists_def split: if_splits)

theorem task_create_witness:
  "runs_to (seqM (task_init im0 (Obj 8) (Some ''eight'') (mk_prio 4) 0x8000101 0 0x20002000 512)
       (task_schedule (Obj 8))) demo_state
     (\<lambda>_ u. \<exists>pr rs'. pr = (prio_of (nodes demo_state))(8 := mk_prio 4) \<and> rs' = enqueue_spec pr 8 [6, 0]
        \<and> kern u (demo_lists(ready \<mapsto> rs')) 5 rs' [7] \<and> prio_of (nodes u) = pr \<and> pendsv u
        \<and> nd_name (nodes u (Obj 8)) = Some ''eight''
        \<and> tk_state (tasks u (Obj 8)) = TASK_READY \<and> tk_sig_recvd (tasks u (Obj 8)) = 0
        \<and> ram u (cx_frame (tk_context (tasks u (Obj 8))) + OFF_pc) = 0x8000101
        \<and> (\<forall>t. t \<noteq> 8 \<longrightarrow> tasks u (Obj t) = tasks demo_state (Obj t)))"
  by (rule task_create [OF demo_kern demo_room _ _ demo_names _ demo_find_free, where b = "''''"])
    (simp_all add: demo_unlinked c_string_def)

text \<open>
  \<open>task_init\<close> without a name never succeeds while the kernel runs: the search for a task of
  that name returns the running task, and the assertion that the name is unused stops the
  system.
\<close>

theorem task_init_no_name:
  assumes "running s \<noteq> NULL"
  shows "task_init im (Obj a) None prio init_pc user_data stack stack_size s = Inl AssertFailed"
  using assms by (simp add: task_init_def task_find_def run_apply)

theorem task_init_no_name_witness:
  "task_init im0 (Obj 8) None (mk_prio 4) 0x8000101 0 0x20002000 512 demo_state = Inl AssertFailed"
  by (rule task_init_no_name) simp

text \<open>
  \<open>task_find\<close> returns the first task of that name on the ready and then on the waiting
  list and changes nothing.  When there is none, in particular for the name of the running
  task, it reads through a null pointer: where that traps it does not return, where address
  zero is readable it compares with the bytes found there.
\<close>

theorem task_find_by_name:
  assumes "kern s L r rs ws" and "nest_room 1 s" and "names_ok (nodes s) (rs @ ws)" and "c_string name"
  shows "task_find (Some name) s = (
     case find (\<lambda>t. nd_name (nodes s (Obj t)) = Some name) (rs @ ws) of
       Some t \<Rightarrow> Inr (Obj t, s)
     | None \<Rightarrow> (case null_name s of None \<Rightarrow> Inl NullDeref
         | Some b \<Rightarrow> Inr (if strcmp_chars name b = 0 then Obj r else NULL, s)))"
  unfolding task_find_kern [OF assms] find_spec_def by (simp split: option.split)

theorem task_find_by_name_witness:
  "task_find (Some ''five'') demo_state = (
     case find (\<lambda>t. nd_name (nodes demo_state (Obj t)) = Some ''five'') ([6, 0] @ [7]) of
       Some t \<Rightarrow> Inr (Obj t, demo_state)
     | None \<Rightarrow> (case null_name demo_state of None \<Rightarrow> Inl NullDeref
         | Some b \<Rightarrow> Inr (if strcmp_chars ''five'' b = 0 then Obj 5 else NULL, demo_state)))"
  by (rule task_find_by_name [OF demo_kern demo_room demo_names]) (simp add: c_string_def)

end
