(* ===== verification/SemC.thy ===== *)
theory SemC
  imports TaskProps
begin

unbundle bit_operations_syntax

text \<open>
  Counting semaphores, \<open>src/semaphore.c\<close>.  The semaphore object \<open>sem\<close> has its count in
  \<open>sems\<close> and its queue of requests in the list named \<open>sem\<close>; a request is a list node with the
  waiter and the signal in \<open>reqs\<close>.
\<close>

section \<open>The code\<close>

definition get_count :: "addr \<Rightarrow> SemaphoreCount K" where
  "get_count sem = gets (\<lambda>s. sm_count (sems s sem))"

definition set_count :: "addr \<Rightarrow> SemaphoreCount \<Rightarrow> unit K" where
  "set_count sem c = modify (\<lambda>s. s\<lparr>sems := (sems s)(sem := (sems s sem)\<lparr>sm_count := c\<rparr>)\<rparr>)"

definition get_req :: "ptr \<Rightarrow> (SemaphoreRequest \<Rightarrow> 'a) \<Rightarrow> 'a K" where
  "get_req q f = (\<lambda>s. if q = NULL then Inl NullDeref else Inr (f (reqs s q), s))"

definition set_req :: "ptr \<Rightarrow> (SemaphoreRequest \<Rightarrow> SemaphoreRequest) \<Rightarrow> unit K" where
  "set_req q f = (\<lambda>s. if q = NULL then Inl NullDeref else Inr ((), s\<lparr>reqs := (reqs s)(q := f (reqs s q))\<rparr>))"

definition sem_init :: "addr \<Rightarrow> SemaphoreCount \<Rightarrow> unit K" where
  "sem_init sem cnt = seqM (set_count sem cnt) (in_nodes (list_init sem))"

definition sem_add_request :: "addr \<Rightarrow> ptr \<Rightarrow> bool K" where
  "sem_add_request sem req =
     seqM disable (
     bindM (get_count sem) (\<lambda>c.
     bindM (lift_result (checked_int32 (c - 1))) (\<lambda>c.
     seqM (set_count sem c) (
     if c < 0 then
       seqM (in_nodes (list_add_tail sem req)) (
       seqM enable (ret True))
     else
       seqM enable (ret False)))))"

text \<open>
  \<open>sem_wait\<close> with its local variable \<open>req\<close> at address \<open>req\<close>: the outcome of the \<open>signal_wait\<close>
  it makes, \<open>None\<close> if it makes none.
\<close>

definition sem_wait :: "addr \<Rightarrow> ptr \<Rightarrow> wait_result option K" where
  "sem_wait sem req =
     seqM (set_req req (\<lambda>q. q\<lparr>rq_signal := SIGF_SINGLE\<rparr>)) (
     bindM (gets running) (\<lambda>r.
     seqM (set_req req (\<lambda>q. q\<lparr>rq_waiter := r\<rparr>)) (
     bindM (sem_add_request sem req) (\<lambda>b.
     if b then bindM (signal_wait SIGF_SINGLE) (\<lambda>w. ret (Some w))
     else ret None))))"

text \<open>The rest of a blocked \<open>sem_wait\<close> when its task runs again.\<close>

definition sem_wait_resume :: "int \<Rightarrow> wait_result option K" where
  "sem_wait_resume nestcnt = bindM (signal_wait_resume SIGF_SINGLE nestcnt) (\<lambda>w. ret (Some w))"

definition sem_signal :: "addr \<Rightarrow> unit K" where
  "sem_signal sem =
     seqM disable (
     bindM (get_count sem) (\<lambda>c.
     bindM (lift_result (checked_int32 (c + 1))) (\<lambda>c.
     seqM (set_count sem c) (
     seqM (whenM (c < 0) (
       bindM (in_nodes (list_rem_head sem)) (\<lambda>req.
       seqM (assertM (NULL \<noteq> req)) (
       bindM (gets running) (\<lambda>r.
       bindM (get_req req rq_waiter) (\<lambda>w.
       seqM (assertM (r \<noteq> w)) (
       bindM (get_req req rq_signal) (\<lambda>g.
       seqM (assertM (0 \<noteq> g)) (
       signal_send w g)))))))))
     enable))))"

text \<open>The body of \<open>sem_verify\<close> is a comment.\<close>

definition sem_verify :: "addr \<Rightarrow> unit K" where
  "sem_verify sem = ret ()"

lemma runs_to_get_count [run_simps]: "runs_to (get_count sem) s P = P (sm_count (sems s sem)) s"
  by (simp add: get_count_def run_simps)

lemma runs_to_set_count [run_simps]:
  "runs_to (set_count sem c) s P = P () (s\<lparr>sems := (sems s)(sem := (sems s sem)\<lparr>sm_count := c\<rparr>)\<rparr>)"
  by (simp add: set_count_def run_simps)

lemma runs_to_get_req [run_simps]: "runs_to (get_req q f) s P \<longleftrightarrow> q \<noteq> NULL \<and> P (f (reqs s q)) s"
  by (simp add: runs_to_def get_req_def)

lemma runs_to_set_req [run_simps]:
  "runs_to (set_req q f) s P \<longleftrightarrow> q \<noteq> NULL \<and> P () (s\<lparr>reqs := (reqs s)(q := f (reqs s q))\<rparr>)"
  by (simp add: runs_to_def set_req_def)

section \<open>Abstract semaphores\<close>

text \<open>
  A count and a queue.  \<open>sem_add\<close> and \<open>sem_sig\<close> are what the code computes; \<open>sem_sig_spec\<close> is
  the counting semaphore the comment in \<open>sem_verify\<close> describes, which keeps the queue as long
  as the count is negative: its release serves a request whenever one is queued.
\<close>

type_synonym asem = "int \<times> addr list"

definition sem_add :: "addr \<Rightarrow> asem \<Rightarrow> asem" where
  "sem_add x a = (fst a - 1, if fst a - 1 < 0 then snd a @ [x] else snd a)"

definition sem_serves :: "asem \<Rightarrow> bool" where
  "sem_serves a = (fst a + 1 < 0)"

definition sem_sig :: "asem \<Rightarrow> asem" where
  "sem_sig a = (fst a + 1, if sem_serves a then tl (snd a) else snd a)"

definition sem_sig_spec :: "asem \<Rightarrow> asem" where
  "sem_sig_spec a = (fst a + 1, if fst a < 0 then tl (snd a) else snd a)"

definition sem_balanced :: "asem \<Rightarrow> bool" where
  "sem_balanced a = (int (length (snd a)) = max 0 (- fst a))"

definition sem_covered :: "asem \<Rightarrow> bool" where
  "sem_covered a = (- fst a \<le> int (length (snd a)))"

lemma sem_balanced_covered: "sem_balanced a \<Longrightarrow> sem_covered a"
  by (simp add: sem_balanced_def sem_covered_def)

lemma sem_add_balanced: "sem_balanced a \<Longrightarrow> sem_balanced (sem_add x a)"
  by (auto simp: sem_balanced_def sem_add_def)

lemma sem_sig_spec_balanced: "sem_balanced a \<Longrightarrow> sem_balanced (sem_sig_spec a)"
  by (cases "snd a") (auto simp: sem_balanced_def sem_sig_spec_def)

lemma sem_add_covered: "sem_covered a \<Longrightarrow> sem_covered (sem_add x a)"
  by (auto simp: sem_covered_def sem_add_def)

lemma sem_sig_covered: "sem_covered a \<Longrightarrow> sem_covered (sem_sig a)"
  by (cases "snd a") (auto simp: sem_covered_def sem_sig_def sem_serves_def)

lemma sem_sig_eq_spec: "fst a \<noteq> - 1 \<Longrightarrow> sem_sig a = sem_sig_spec a"
  by (auto simp: sem_sig_def sem_sig_spec_def sem_serves_def)

section \<open>The code against the abstract semaphore\<close>

text \<open>
  \<open>sem_ok s L r ts sem a\<close>: the semaphore's count and queue are \<open>a\<close>; every queued request names a
  task other than \<open>r\<close> and some signal; the queue covers the count.
\<close>

definition req_ok :: "kstate \<Rightarrow> addr \<Rightarrow> addr set \<Rightarrow> addr \<Rightarrow> bool" where
  "req_ok s r ts q = (\<exists>w. rq_waiter (reqs s (Obj q)) = Obj w \<and> w \<in> ts \<and> w \<noteq> r \<and> rq_signal (reqs s (Obj q)) \<noteq> 0)"

definition sem_ok :: "kstate \<Rightarrow> lists \<Rightarrow> addr \<Rightarrow> addr set \<Rightarrow> addr \<Rightarrow> asem \<Rightarrow> bool" where
  "sem_ok s L r ts sem a = (alive s L r ts \<and> sem \<noteq> ready \<and> sem \<noteq> waiting
     \<and> sm_count (sems s sem) = fst a \<and> L sem = Some (snd a)
     \<and> (\<forall>q \<in> set (snd a). req_ok s r ts q) \<and> sem_covered a)"

text \<open>What a semaphore operation leaves alone.\<close>

definition sem_frame :: "kstate \<Rightarrow> lists \<Rightarrow> addr \<Rightarrow> kstate \<Rightarrow> lists \<Rightarrow> bool" where
  "sem_frame s L sem u L' = (reqs u = reqs s \<and> id_nestcnt u = id_nestcnt s \<and> primask u = primask s \<and> timer_now u = timer_now s
     \<and> tmrs u = tmrs s \<and> ports u = ports s \<and> msgs u = msgs s \<and> same_data (nodes s) (nodes u) \<and> (\<forall>m. m \<noteq> sem \<longrightarrow> sems u m = sems s m)
     \<and> (\<forall>l. l \<noteq> ready \<longrightarrow> l \<noteq> waiting \<longrightarrow> l \<noteq> sem \<longrightarrow> L' l = L l))"

lemma alive_other_list:
  assumes "alive s L r ts" "l \<noteq> ready" "l \<noteq> waiting" "r \<notin> set xs"
    "lists_ok (nodes u) (L(l \<mapsto> xs))" "same_data (nodes s) (nodes u)" "running u = running s"
    "pendsv u = pendsv s" "irq_ok u" "tasks u = tasks s"
  shows "alive u (L(l \<mapsto> xs)) r ts"
  using assms kern_other_list unfolding alive_def by blast

lemma alive_cong:
  assumes "alive s L r ts" "nodes u = nodes s" "running u = running s" "pendsv s \<longrightarrow> pendsv u" "irq_ok u"
    "tasks u = tasks s"
  shows "alive u L r ts"
  using assms kern_cong unfolding alive_def by blast

lemma alive_facts:
  assumes "alive s L r ts"
  shows "lists_ok (nodes s) L" "irq_ok s" "running s = Obj r" "r \<in> ts"
    "L l = Some xs \<Longrightarrow> l \<noteq> ready \<Longrightarrow> l \<noteq> waiting \<Longrightarrow> t \<in> ts \<Longrightarrow> t \<notin> set xs"
proof -
  obtain rs ws where k: "kern s L r rs ws" "ts = insert r (set rs \<union> set ws)"
    using assms by (auto simp: alive_def)
  show "lists_ok (nodes s) L" "irq_ok s" "running s = Obj r" "r \<in> ts"
    using kern_lists [OF k(1)] k(2) by auto
  show "L l = Some xs \<Longrightarrow> l \<noteq> ready \<Longrightarrow> l \<noteq> waiting \<Longrightarrow> t \<in> ts \<Longrightarrow> t \<notin> set xs"
    using k(2) kern_lists(7) [OF k(1)] lists_ok_disjoint [OF kern_lists(1,2) [OF k(1)], of l xs]
      lists_ok_disjoint [OF kern_lists(1,3) [OF k(1)], of l xs] by auto
qed

lemma sem_init_ok:
  assumes a: "alive s L r ts" and l: "sem \<noteq> ready" "sem \<noteq> waiting" and c: "0 \<le> c"
  shows "runs_to (sem_init sem c) s (\<lambda>_ u. sem_ok u (L(sem \<mapsto> [])) r ts sem (c, [])
     \<and> sem_frame s L sem u (L(sem \<mapsto> [])) \<and> tasks u = tasks s)"
proof -
  let ?u = "\<lambda>h. s\<lparr>sems := (sems s)(sem := (sems s sem)\<lparr>sm_count := c\<rparr>), nodes := h\<rparr>"
  have "alive (?u h) (L(sem \<mapsto> [])) r ts" if "lists_ok h (L(sem \<mapsto> []))" "same_data (nodes s) h" for h
    by (rule alive_other_list [OF a l]) (use that alive_facts(2) [OF a] in \<open>auto simp: irq_ok_def\<close>)
  moreover have "runs_to (list_init sem) (nodes s) (\<lambda>_ h. lists_ok h (L(sem \<mapsto> [])) \<and> same_data (nodes s) h)"
    by (rule lc.init_law [OF alive_facts(1) [OF a]])
  ultimately show ?thesis
    using l c by (auto simp: sem_init_def run_simps sem_ok_def sem_frame_def sem_covered_def elim!: runs_to_weaken)
qed

lemma sem_add_request_raw:
  assumes k: "kern s L r rs ws" and l: "sem \<noteq> ready" "sem \<noteq> waiting" and q: "L sem = Some (snd a)"
    and cnt: "sm_count (sems s sem) = fst a" and n: "nest_room 1 s" and x: "unlinked L x" "x \<noteq> r"
    and c: "INT32_MIN \<le> fst a - 1" "fst a - 1 \<le> INT32_MAX"
  shows "runs_to (sem_add_request sem (Obj x)) s (\<lambda>v u. v = (fst a - 1 < 0)
     \<and> kern u (L(sem \<mapsto> snd (sem_add x a))) r rs ws \<and> sm_count (sems u sem) = fst (sem_add x a)
     \<and> sem_frame s L sem u (L(sem \<mapsto> snd (sem_add x a))) \<and> tasks u = tasks s \<and> pendsv u = pendsv s)"
proof -
  note i = kern_lists(5) [OF k] and ok = kern_lists(1) [OF k]
  let ?L = "L(sem \<mapsto> snd (sem_add x a))"
  let ?u = "\<lambda>h. s\<lparr>sems := (sems s)(sem := (sems s sem)\<lparr>sm_count := fst a - 1\<rparr>), nodes := h\<rparr>"
  have "r \<notin> set (snd (sem_add x a))"
    using kern_lists(7) [OF k q l] x(2) by (auto simp: sem_add_def)
  then have post: "kern (?u h) ?L r rs ws" if "lists_ok h ?L \<and> same_data (nodes s) h" for h
    using that i by (intro kern_other_list [OF k l]) (auto simp: irq_ok_def)
  have ck: "checked_int32 (fst a - 1) = Inr (fst a - 1)" using c by simp
  note run = sem_add_request_def run_simps crit [OF i n] cnt ck sem_frame_def sem_add_def
  show ?thesis
  proof (cases "fst a - 1 < 0")
    case True
    then have "runs_to (list_add_tail sem (Obj x)) (nodes s) (\<lambda>_ h. lists_ok h ?L \<and> same_data (nodes s) h)"
      using lc.add_tail_law [OF ok q x(1)] by (simp add: sem_add_def)
    then have "runs_to (list_add_tail sem (Obj x)) (nodes s) (\<lambda>_ h. kern (?u h) ?L r rs ws \<and> same_data (nodes s) h)"
      by (rule runs_to_weaken) (use post in blast)
    then show ?thesis using True by (simp add: run)
  next
    case False
    then have "?L = L" using q by (auto simp: sem_add_def)
    then have "kern (?u (nodes s)) ?L r rs ws" using post [of "nodes s"] ok by (simp add: same_data_def)
    then show ?thesis using False by (simp add: run same_data_refl)
  qed
qed

lemma sem_add_request_ok:
  assumes a: "sem_ok s L r ts sem a" and n: "nest_room 1 s"
    and x: "unlinked L x" "x \<notin> ts" "req_ok s r ts x"
    and c: "INT32_MIN \<le> fst a - 1" "fst a - 1 \<le> INT32_MAX"
  shows "runs_to (sem_add_request sem (Obj x)) s (\<lambda>v u. v = (fst a - 1 < 0)
     \<and> sem_ok u (L(sem \<mapsto> snd (sem_add x a))) r ts sem (sem_add x a)
     \<and> sem_frame s L sem u (L(sem \<mapsto> snd (sem_add x a))) \<and> tasks u = tasks s \<and> pendsv u = pendsv s)"
proof -
  obtain rs ws where k: "kern s L r rs ws" and ts: "ts = insert r (set rs \<union> set ws)"
    using a by (auto simp: sem_ok_def alive_def)
  have l: "sem \<noteq> ready" "sem \<noteq> waiting" and q: "L sem = Some (snd a)" and cnt: "sm_count (sems s sem) = fst a"
    and rq: "\<forall>q \<in> set (snd (sem_add x a)). req_ok s r ts q" and cv: "sem_covered (sem_add x a)"
    using a x(3) sem_add_covered [of a x] by (auto simp: sem_ok_def sem_add_def)
  have "x \<noteq> r" using x(2) ts by auto
  then show ?thesis
    by (intro runs_to_weaken [OF sem_add_request_raw [OF k l q cnt n x(1) _ c]])
      (use l rq cv ts in \<open>auto simp: sem_ok_def alive_def sem_frame_def req_ok_def\<close>)
qed

lemma sem_signal_idle:
  assumes a: "sem_ok s L r ts sem a" and n: "nest_room 1 s" and c: "fst a + 1 \<le> INT32_MAX"
    and d: "\<not> sem_serves a" and mn: "INT32_MIN \<le> fst a"
  shows "runs_to (sem_signal sem) s (\<lambda>_ u. sem_ok u L r ts sem (sem_sig a) \<and> sem_frame s L sem u L
     \<and> tasks u = tasks s \<and> pendsv u = pendsv s)"
proof -
  have al: "alive s L r ts" and cnt: "sm_count (sems s sem) = fst a"
    using a by (simp_all add: sem_ok_def)
  note i = alive_facts(2) [OF al]
  let ?u = "s\<lparr>sems := (sems s)(sem := (sems s sem)\<lparr>sm_count := fst a + 1\<rparr>)\<rparr>"
  have "alive ?u L r ts" by (rule alive_cong [OF al]) (use i in \<open>auto simp: irq_ok_def\<close>)
  then have "sem_ok ?u L r ts sem (sem_sig a)"
    using a d sem_sig_covered [of a] by (auto simp: sem_ok_def sem_sig_def req_ok_def)
  then show ?thesis
    using d c mn n irq_ok_range [OF i]
    by (simp add: sem_signal_def run_simps cnt nest_room_def sem_serves_def int32_bounds irq_ok_primask [OF i]
        sem_frame_def)
qed

text \<open>A release that serves: the head of the queue leaves and its waiter receives its signal.\<close>

lemma sem_signal_serve:
  assumes a: "sem_ok s L r ts sem a" and n: "nest_room 2 s" and d: "sem_serves a" and mn: "INT32_MIN \<le> fst a"
  shows "runs_to (sem_signal sem) s (\<lambda>_ u. \<exists>L' w. rq_waiter (reqs s (Obj (hd (snd a)))) = Obj w
     \<and> sem_ok u L' r ts sem (sem_sig a) \<and> sem_frame s L sem u L'
     \<and> recorded s u ((\<lambda>_. 0)(w := rq_signal (reqs s (Obj (hd (snd a)))))))"
proof -
  have al: "alive s L r ts" and l: "sem \<noteq> ready" "sem \<noteq> waiting" and q: "L sem = Some (snd a)"
    and cnt: "sm_count (sems s sem) = fst a" and rq: "\<forall>q \<in> set (snd a). req_ok s r ts q"
    and cv: "sem_covered a" using a by (simp_all add: sem_ok_def)
  note i = alive_facts(2) [OF al]
  obtain x xs where xs: "snd a = x # xs"
    using cv d by (cases "snd a") (auto simp: sem_covered_def sem_serves_def)
  obtain w where w: "rq_waiter (reqs s (Obj x)) = Obj w" "w \<in> ts" "w \<noteq> r" "rq_signal (reqs s (Obj x)) \<noteq> 0"
    using rq xs by (auto simp: req_ok_def)
  let ?g = "rq_signal (reqs s (Obj x))"
  let ?t = "\<lambda>h. s\<lparr>primask := True, id_nestcnt := id_nestcnt s + 1,
      sems := (sems s)(sem := (sems s sem)\<lparr>sm_count := fst a + 1\<rparr>), nodes := h\<rparr>"
  let ?post = "\<lambda>u. \<exists>L'. sem_ok u L' r ts sem (sem_sig a) \<and> sem_frame s L sem u L' \<and> recorded s u ((\<lambda>_. 0)(w := ?g))"
  have "r \<notin> set xs" using alive_facts(4) [OF al] alive_facts(5) [OF al q l] xs by auto
  then have al': "alive (?t h) (L(sem \<mapsto> xs)) r ts" if "lists_ok h (L(sem \<mapsto> xs))" "same_data (nodes s) h" for h
    using that i by (intro alive_other_list [OF al l]) (auto simp: irq_ok_def)
  have send: "runs_to (signal_send (Obj w) ?g) (?t h)
      (\<lambda>_ v. id_nestcnt v = id_nestcnt s + 1 \<and> primask v \<and> ?post (v\<lparr>id_nestcnt := id_nestcnt s, primask := primask s\<rparr>))"
    if h: "lists_ok h (L(sem \<mapsto> xs))" "same_data (nodes s) h" for h
  proof (rule runs_to_weaken [OF sg.send_law [OF al' [OF h] w(2)]])
    show "nest_room 1 (?t h)" using n by (simp add: nest_room_def)
    fix y v assume "\<exists>L'. notified (?t h) (L(sem \<mapsto> xs)) r ts v L' ((\<lambda>_. 0)(w := ?g))"
    then obtain L' where v: "notified (?t h) (L(sem \<mapsto> xs)) r ts v L' ((\<lambda>_. 0)(w := ?g))" by blast
    let ?v = "v\<lparr>id_nestcnt := id_nestcnt s, primask := primask s\<rparr>"
    have o: "same_objs (?t h) v" "other_lists (L(sem \<mapsto> xs)) L'" "alive v L' r ts"
      using v by (simp_all add: notified_def)
    have "alive ?v L' r ts" by (rule alive_cong [OF o(3)]) (use i in \<open>auto simp: irq_ok_def\<close>)
    then have "sem_ok ?v L' r ts sem (sem_sig a)"
      using o l rq xs d sem_sig_covered [OF cv]
      by (auto simp: sem_ok_def sem_sig_def same_defs other_lists_def req_ok_def)
    moreover have "sem_frame s L sem ?v L'" "recorded s ?v ((\<lambda>_. 0)(w := ?g))"
      using o v h(2) by (auto simp: sem_frame_def same_defs other_lists_def notified_def recorded_def intro: same_data_trans)
    ultimately show "id_nestcnt v = id_nestcnt s + 1 \<and> primask v \<and> ?post ?v"
      using o(1) by (auto simp: same_defs)
  qed
  have rem: "runs_to (list_rem_head sem) (nodes s)
      (\<lambda>p h. p = Obj x \<and> lists_ok h (L(sem \<mapsto> xs)) \<and> same_data (nodes s) h)"
    using lc.rem_head_law [OF alive_facts(1) [OF al] q] xs by simp
  have "runs_to (sem_signal sem) s (\<lambda>_ u. ?post u)"
    using d mn w(3,4) n irq_ok_range [OF i]
    apply (simp add: sem_signal_def run_simps cnt nest_room_def sem_serves_def int32_bounds)
    apply (rule runs_to_weaken [OF rem])
    apply (clarsimp simp: w alive_facts(3) [OF al] w(3) [symmetric])
    apply (rule runs_to_weaken [OF send])
      apply (auto simp: irq_ok_primask [OF i])
    done
  then show ?thesis using xs w(1) by (auto elim!: runs_to_weaken)
qed

text \<open>The signals that a list of requests asks for, by task; the request that a release serves, if any.\<close>

primrec mail_of :: "(ptr \<Rightarrow> SemaphoreRequest) \<Rightarrow> addr list \<Rightarrow> addr \<Rightarrow> Signals" where
  "mail_of rq [] t = 0"
| "mail_of rq (q # qs) t = (if rq_waiter (rq (Obj q)) = Obj t then rq_signal (rq (Obj q)) else 0) OR mail_of rq qs t"

definition served_by :: "asem \<Rightarrow> addr list" where
  "served_by a = (if sem_serves a then [hd (snd a)] else [])"

lemma mail_of_append: "mail_of rq (xs @ ys) = (\<lambda>t. mail_of rq xs t OR mail_of rq ys t)"
  by (rule ext, induction xs) (simp_all add: or.assoc)

lemma sem_signal_ok:
  assumes a: "sem_ok s L r ts sem a" and n: "nest_room 2 s" and c: "INT32_MIN \<le> fst a" "fst a + 1 \<le> INT32_MAX"
  shows "runs_to (sem_signal sem) s (\<lambda>_ u. \<exists>L'. sem_ok u L' r ts sem (sem_sig a) \<and> sem_frame s L sem u L'
     \<and> recorded s u (mail_of (reqs s) (served_by a)))"
proof (cases "sem_serves a")
  case True
  have "(\<lambda>_. 0)(w := rq_signal (reqs s (Obj (hd (snd a))))) = mail_of (reqs s) (served_by a)"
    if "rq_waiter (reqs s (Obj (hd (snd a)))) = Obj w" for w
    using True that by (auto simp: served_by_def)
  then show ?thesis by (intro runs_to_weaken [OF sem_signal_serve [OF a n True c(1)]]) metis
next
  case False
  have "nest_room 1 s" using n by (rule nest_room_mono) simp
  then show ?thesis
    by (intro runs_to_weaken [OF sem_signal_idle [OF a _ c(2) False c(1)]])
      (use False in \<open>auto simp: recorded_def served_by_def intro!: exI [of _ L]\<close>)
qed

section \<open>A release and the task it serves\<close>

lemma and_or_absorb:
  "(g OR a) AND g = (g :: 'a::len word)" "a AND g = g \<Longrightarrow> (b OR a) AND g = (g :: 'a::len word)"
proof -
  show "(g OR a) AND g = g" by (auto simp: bit_eq_iff bit_simps)
  show "(b OR a) AND g = g" if "a AND g = g"
    using arg_cong [OF that, of "\<lambda>w. b AND g OR w"] by (auto simp: bit_eq_iff bit_simps)
qed

text \<open>A task that was waiting and has received what it waits for is on the ready list.\<close>

lemma received_ready:
  assumes "alive u L y ts" and "w \<in> ts" and "w \<noteq> y"
    and "tk_sig_wait (tasks u (Obj w)) AND tk_sig_recvd (tasks u (Obj w)) \<noteq> 0"
  obtains rs ws where "kern u L y rs ws" and "w \<in> set rs" and "ts = insert y (set rs \<union> set ws)"
  using assms kern_tasks(3) by (fastforce simp: alive_def)

text \<open>The context switch runs a ready task that is more urgent than all others.\<close>

lemma switch_to_urgent:
  assumes k: "kern s L y rs ws" and w: "w \<in> set rs" "w \<noteq> y"
    and pr: "\<forall>t \<in> insert y (set rs). t \<noteq> w \<longrightarrow> prio_of (nodes s) t < prio_of (nodes s) w"
  shows "pendsv s" and "hd (switch_queue s y rs ws) = w"
proof -
  show "pendsv s" using kern_sched(3) [OF k _ w(1)] pr w(2) by fastforce
  obtain q qs where q: "switch_queue s y rs ws = q # qs"
    using switch_queue_props(1) [OF k] by (cases "switch_queue s y rs ws") auto
  have "w \<in> set (switch_queue s y rs ws)" using w(1) by (simp add: switch_queue_def)
  then have "w \<in> set (q # qs)" using q by simp
  moreover have "\<forall>t \<in> set qs. prio_of (nodes s) t \<le> prio_of (nodes s) q"
    using switch_queue_props(2) [OF k] q by (simp add: sorted_prio_def)
  moreover have "q \<in> insert y (set rs)" using switch_queue_props(5) [OF k] q by auto
  ultimately have "q = w" using pr by (metis leD set_ConsD)
  then show "hd (switch_queue s y rs ws) = w" using q by simp
qed

section \<open>Sequences of operations\<close>

text \<open>
  A sequence of requests and releases, with the result of every request: the list returned is of the requests that were told
  they have the semaphore, those for which \<open>sem_add_request\<close> returned false.
\<close>

datatype sem_op = Acquire addr | Release

primrec sem_call :: "(addr \<Rightarrow> ptr \<Rightarrow> bool K) \<Rightarrow> (addr \<Rightarrow> unit K) \<Rightarrow> addr \<Rightarrow> sem_op \<Rightarrow> addr list K" where
  "sem_call add sg sem (Acquire q) = bindM (add sem (Obj q)) (\<lambda>queued. ret (if queued then [] else [q]))"
| "sem_call add sg sem Release = seqM (sg sem) (ret [])"

primrec sem_run :: "(addr \<Rightarrow> ptr \<Rightarrow> bool K) \<Rightarrow> (addr \<Rightarrow> unit K) \<Rightarrow> addr \<Rightarrow> sem_op list \<Rightarrow> addr list K" where
  "sem_run add sg sem [] = ret []"
| "sem_run add sg sem (x # ops) =
     bindM (sem_call add sg sem x) (\<lambda>g. bindM (sem_run add sg sem ops) (\<lambda>gs. ret (g @ gs)))"

text \<open>The same on the abstract semaphore; the requests granted at once, and those served by a release.\<close>

primrec sem_step :: "sem_op \<Rightarrow> asem \<Rightarrow> asem" where
  "sem_step (Acquire q) a = sem_add q a"
| "sem_step Release a = sem_sig a"

definition acquires :: "sem_op list \<Rightarrow> addr list" where
  "acquires ops = concat (map (\<lambda>x. case x of Acquire q \<Rightarrow> [q] | Release \<Rightarrow> []) ops)"

definition releases :: "sem_op list \<Rightarrow> nat" where
  "releases ops = length (filter (\<lambda>x. x = Release) ops)"

lemma acquires_simps [simp]:
  "acquires [] = []" "acquires (Acquire q # ops) = q # acquires ops" "acquires (Release # ops) = acquires ops"
  "releases [] = 0" "releases (Acquire q # ops) = releases ops" "releases (Release # ops) = Suc (releases ops)"
  by (simp_all add: acquires_def releases_def)

primrec granted :: "sem_op list \<Rightarrow> asem \<Rightarrow> addr list" where
  "granted [] a = []"
| "granted (x # ops) a = (case x of Acquire q \<Rightarrow> if fst a - 1 < 0 then [] else [q] | Release \<Rightarrow> []) @ granted ops (sem_step x a)"

primrec served :: "sem_op list \<Rightarrow> asem \<Rightarrow> addr list" where
  "served [] a = []"
| "served (x # ops) a = (case x of Acquire q \<Rightarrow> [] | Release \<Rightarrow> served_by a) @ served ops (sem_step x a)"

lemma sem_step_covered: "sem_covered a \<Longrightarrow> sem_covered (sem_step x a)"
  by (cases x) (simp_all add: sem_add_covered sem_sig_covered)

lemma sem_fold_covered: "sem_covered a \<Longrightarrow> sem_covered (fold sem_step ops a)"
  by (induction ops arbitrary: a) (simp_all add: sem_step_covered)

lemma granted_subset: "set (granted ops a) \<subseteq> set (acquires ops)"
proof (induction ops arbitrary: a)
  case (Cons x ops)
  show ?case using Cons.IH [of "sem_step x a"] by (cases x) auto
qed simp

lemma granted_in_order: "distinct (acquires ops) \<Longrightarrow> filter (\<lambda>q. q \<in> set (granted ops a)) (acquires ops) = granted ops a"
proof (induction ops arbitrary: a)
  case (Cons x ops)
  then show ?case
  proof (cases x)
    case (Acquire q)
    then have "q \<notin> set (acquires ops)" using Cons.prems by simp
    moreover from this have "q \<notin> set (granted ops a)" for a using granted_subset by blast
    moreover have "filter (\<lambda>y. y = q \<or> P y) (acquires ops) = filter P (acquires ops)" for P
      using \<open>q \<notin> set (acquires ops)\<close> by (auto intro: filter_cong)
    ultimately show ?thesis using Acquire Cons by simp
  qed simp
qed simp

text \<open>What was queued and not served is still queued, in the order of the requests.\<close>

lemma served_in_order:
  "distinct (acquires ops) \<Longrightarrow> sem_covered a \<Longrightarrow>
   served ops a @ snd (fold sem_step ops a) = snd a @ filter (\<lambda>q. q \<notin> set (granted ops a)) (acquires ops)"
proof (induction ops arbitrary: a)
  case (Cons x ops)
  note IH = Cons.IH [OF _ sem_step_covered [OF Cons.prems(2), of x]]
  show ?case
  proof (cases x)
    case (Acquire q)
    have q: "q \<notin> set (acquires ops)" using Acquire Cons.prems by simp
    then have "q \<notin> set (granted ops a)" for a using granted_subset by blast
    moreover have "filter (\<lambda>y. y \<noteq> q \<and> P y) (acquires ops) = filter P (acquires ops)" for P
      using q by (auto intro: filter_cong)
    ultimately show ?thesis using Acquire IH Cons.prems(1) by (simp add: sem_add_def)
  next
    case Release
    then show ?thesis using IH Cons.prems
      by (cases "snd a") (auto simp: sem_sig_def served_by_def sem_covered_def sem_serves_def)
  qed
qed simp

lemma fst_sem_fold:
  "fst (fold sem_step ops a) = fst a - int (length (acquires ops)) + int (releases ops)"
proof (induction ops arbitrary: a)
  case (Cons x ops)
  then show ?case by (cases x) (simp_all add: sem_add_def sem_sig_def)
qed simp

locale semaphore_service =
  fixes inv :: "kstate \<Rightarrow> lists \<Rightarrow> addr \<Rightarrow> addr set \<Rightarrow> addr \<Rightarrow> asem \<Rightarrow> bool"
    and add :: "addr \<Rightarrow> ptr \<Rightarrow> bool K" and sg :: "addr \<Rightarrow> unit K"
  assumes inv_facts: "inv s L r ts sem a \<Longrightarrow> alive s L r ts \<and> L sem = Some (snd a) \<and> sem_covered a
      \<and> sm_count (sems s sem) = fst a"
    and add_law: "inv s L r ts sem a \<Longrightarrow> nest_room 2 s \<Longrightarrow> unlinked L x \<Longrightarrow> x \<notin> ts \<Longrightarrow> req_ok s r ts x \<Longrightarrow>
      INT32_MIN \<le> fst a - 1 \<Longrightarrow> fst a - 1 \<le> INT32_MAX \<Longrightarrow>
      runs_to (add sem (Obj x)) s (\<lambda>v u. v = (fst a - 1 < 0) \<and> tasks u = tasks s
        \<and> (\<exists>L'. inv u L' r ts sem (sem_add x a) \<and> sem_frame s L sem u L'))"
    and sg_law: "inv s L r ts sem a \<Longrightarrow> nest_room 2 s \<Longrightarrow> INT32_MIN \<le> fst a \<Longrightarrow> fst a + 1 \<le> INT32_MAX \<Longrightarrow>
      runs_to (sg sem) s (\<lambda>_ u. recorded s u (mail_of (reqs s) (served_by a))
        \<and> (\<exists>L'. inv u L' r ts sem (sem_sig a) \<and> sem_frame s L sem u L'))"
begin

lemma unlinked_after:
  assumes u: "inv u L' r ts sem b" and f: "sem_frame s L sem u L'" and y: "unlinked L y" "y \<notin> ts" "y \<notin> set (snd b)"
  shows "unlinked L' y"
  unfolding unlinked_def
proof (intro allI impI)
  fix l xs assume l: "L' l = Some xs"
  obtain rs ws where k: "kern u L' r rs ws" "ts = insert r (set rs \<union> set ws)"
    using inv_facts [OF u] by (auto simp: alive_def)
  show "y \<notin> set xs"
    using l y k kern_lists(2,3) [OF k(1)] inv_facts [OF u] f
    by (cases "l = ready \<or> l = waiting \<or> l = sem") (auto simp: sem_frame_def unlinked_def)
qed

text \<open>One call: its result, the signals sent, the new queue, and that the later requests are still unused.\<close>

lemma call_law:
  assumes i: "inv s L r ts sem a" and n: "nest_room 2 s" and d: "distinct (acquires (x # ops))"
    and q: "\<forall>q \<in> set (acquires (x # ops)). unlinked L q \<and> q \<notin> ts \<and> req_ok s r ts q"
    and c: "INT32_MIN \<le> fst a - 1" "fst a + 1 \<le> INT32_MAX"
  shows "runs_to (sem_call add sg sem x) s (\<lambda>g u. g = granted [x] a \<and> recorded s u (mail_of (reqs s) (served [x] a))
     \<and> reqs u = reqs s \<and> nest_room 2 u
     \<and> (\<exists>L'. inv u L' r ts sem (sem_step x a) \<and> (\<forall>q \<in> set (acquires ops). unlinked L' q \<and> q \<notin> ts \<and> req_ok u r ts q)))"
proof -
  let ?P = "\<lambda>L' u. inv u L' r ts sem (sem_step x a) \<and> sem_frame s L sem u L'"
  have step: "runs_to (sem_call add sg sem x) s (\<lambda>g u. g = granted [x] a \<and> recorded s u (mail_of (reqs s) (served [x] a)) \<and> (\<exists>L'. ?P L' u))"
  proof (cases x)
    case (Acquire y)
    have "runs_to (add sem (Obj y)) s (\<lambda>v u. v = (fst a - 1 < 0) \<and> tasks u = tasks s
        \<and> (\<exists>L'. inv u L' r ts sem (sem_add y a) \<and> sem_frame s L sem u L'))"
      by (rule add_law [OF i n]) (use q c Acquire in simp_all)
    then show ?thesis unfolding Acquire by (auto simp: run_simps recorded_def elim!: runs_to_weaken)
  next
    case Release
    have "runs_to (sg sem) s (\<lambda>_ u. recorded s u (mail_of (reqs s) (served_by a))
        \<and> (\<exists>L'. inv u L' r ts sem (sem_sig a) \<and> sem_frame s L sem u L'))"
      by (rule sg_law [OF i n]) (use c in simp_all)
    then show ?thesis unfolding Release by (auto simp: run_simps elim!: runs_to_weaken)
  qed
  have sep: "set (snd (sem_step x a)) \<inter> set (acquires ops) = {}"
  proof -
    have "set (snd a) \<inter> set (acquires (x # ops)) = {}" using q inv_facts [OF i] by (auto simp: unlinked_def)
    then show ?thesis using d by (cases x; cases "snd a") (auto simp: sem_add_def sem_sig_def)
  qed
  have "reqs u = reqs s \<and> nest_room 2 u \<and> (\<forall>q \<in> set (acquires ops). unlinked L' q \<and> q \<notin> ts \<and> req_ok u r ts q)" if u: "?P L' u" for L' u
  proof -
    have "set (acquires ops) \<subseteq> set (acquires (x # ops))" by (cases x) auto
    then show ?thesis
      using q n sep unlinked_after [OF conjunct1 [OF u] conjunct2 [OF u]] conjunct2 [OF u]
      by (auto simp: sem_frame_def req_ok_def nest_room_def)
  qed
  then show ?thesis by (intro runs_to_weaken [OF step]) blast
qed

lemma run_law:
  "inv s L r ts sem a \<Longrightarrow> nest_room 2 s \<Longrightarrow> distinct (acquires ops) \<Longrightarrow>
   \<forall>q \<in> set (acquires ops). unlinked L q \<and> q \<notin> ts \<and> req_ok s r ts q \<Longrightarrow>
   INT32_MIN \<le> fst a - int (length ops) \<Longrightarrow> fst a + int (length ops) \<le> INT32_MAX \<Longrightarrow>
   runs_to (sem_run add sg sem ops) s (\<lambda>gs u. gs = granted ops a \<and> recorded s u (mail_of (reqs s) (served ops a))
     \<and> (\<exists>L'. inv u L' r ts sem (fold sem_step ops a)))"
proof (induction ops arbitrary: s L a)
  case Nil
  then show ?case by (auto simp: run_simps recorded_def)
next
  case (Cons x ops)
  have "INT32_MIN \<le> fst a - 1" "fst a + 1 \<le> INT32_MAX" using Cons.prems(5,6) by simp_all
  note call = call_law [OF Cons.prems(1-4) this]
  show ?case
    unfolding sem_run.simps runs_to_bindM
  proof (rule runs_to_weaken [OF call])
    fix g u
    assume "g = granted [x] a \<and> recorded s u (mail_of (reqs s) (served [x] a)) \<and> reqs u = reqs s \<and> nest_room 2 u
      \<and> (\<exists>L'. inv u L' r ts sem (sem_step x a) \<and> (\<forall>q \<in> set (acquires ops). unlinked L' q \<and> q \<notin> ts \<and> req_ok u r ts q))"
    then obtain L' where u: "g = granted [x] a" "recorded s u (mail_of (reqs s) (served [x] a))" "reqs u = reqs s" "nest_room 2 u"
      "inv u L' r ts sem (sem_step x a)" "\<forall>q \<in> set (acquires ops). unlinked L' q \<and> q \<notin> ts \<and> req_ok u r ts q" by blast
    have d: "distinct (acquires ops)" using Cons.prems(3) by (cases x) simp_all
    have "fst (sem_step x a) \<in> {fst a - 1, fst a + 1}" by (cases x) (simp_all add: sem_add_def sem_sig_def)
    then have c: "INT32_MIN \<le> fst (sem_step x a) - int (length ops)" "fst (sem_step x a) + int (length ops) \<le> INT32_MAX"
      using Cons.prems(5,6) by auto
    have mail: "recorded s v (mail_of (reqs s) (served (x # ops) a))" if "recorded u v (mail_of (reqs s) (served ops (sem_step x a)))" for v
      using recorded_trans [OF u(2) that] by (simp add: mail_of_append)
    show "runs_to (sem_run add sg sem ops) u (\<lambda>gs v. runs_to (ret (g @ gs)) v (\<lambda>gs v. gs = granted (x # ops) a
        \<and> recorded s v (mail_of (reqs s) (served (x # ops) a)) \<and> (\<exists>L'. inv v L' r ts sem (fold sem_step (x # ops) a))))"
      by (rule runs_to_weaken [OF Cons.IH [OF u(5,4) d u(6) c]]) (use u(1,3) mail in \<open>auto simp: run_simps\<close>)
  qed
qed

end

interpretation sv: semaphore_service sem_ok sem_add_request sem_signal
proof
  fix s L r ts sem a x
  assume "sem_ok s L r ts sem a" "nest_room 2 s" "unlinked L x" "x \<notin> ts" "req_ok s r ts x"
    "INT32_MIN \<le> fst a - 1" "fst a - 1 \<le> INT32_MAX"
  then show "runs_to (sem_add_request sem (Obj x)) s (\<lambda>v u. v = (fst a - 1 < 0) \<and> tasks u = tasks s
      \<and> (\<exists>L'. sem_ok u L' r ts sem (sem_add x a) \<and> sem_frame s L sem u L'))"
    by (intro runs_to_weaken [OF sem_add_request_ok]) (auto intro: nest_room_mono)
qed (simp add: sem_ok_def, rule runs_to_weaken [OF sem_signal_ok], blast+)

section \<open>Properties\<close>

lemma demo_alive: "alive demo_state demo_lists 5 {0, 5, 6, 7}"
  unfolding alive_def using demo_kern by (intro exI [of _ "[6, 0]"] exI [of _ "[7]"]) auto

text \<open>
  The demonstration system with a semaphore at 40 of count \<open>c\<close> and the requests \<open>qs\<close> queued;
  request 50 is of task 6 and every other of task 7.
\<close>

definition demo_sem :: "int \<Rightarrow> addr list \<Rightarrow> kstate" where
  "demo_sem c qs = demo_state\<lparr>nodes := link_all 40 [] qs demo_nodes, sems := (\<lambda>_. \<lparr>sm_count = c\<rparr>),
     reqs := (\<lambda>q. \<lparr>rq_waiter = Obj (if q = Obj 50 then 6 else 7), rq_signal = 0x10\<rparr>)\<rparr>"

lemma demo_sem_req: "req_ok (demo_sem c qs) 5 {0, 5, 6, 7} q"
  by (simp add: req_ok_def demo_sem_def)

lemma demo_sem_kern:
  assumes "distinct qs" "set qs \<inter> {0, 5, 6, 7} = {}"
  shows "kern (demo_sem c qs) (demo_lists(40 \<mapsto> qs)) 5 [6, 0] [7]"
proof -
  have l: "(40 :: addr) \<noteq> ready" "(40 :: addr) \<noteq> waiting" by (simp_all add: ready_def waiting_def)
  have "\<forall>n \<in> set qs. unlinked demo_lists n" using assms(2) demo_unlinked by blast
  then have "lists_ok (link_all 40 [] qs demo_nodes) (demo_lists(40 \<mapsto> qs))
      \<and> same_data demo_nodes (link_all 40 [] qs demo_nodes)"
    using lists_ok_link_all [OF demo_lists_ok, of 40 "[]" qs] assms(1) l by (simp add: demo_lists_def)
  then show ?thesis
    by (intro kern_other_list [OF demo_kern l]) (use assms(2) in \<open>auto simp: demo_sem_def irq_ok_def\<close>)
qed

lemma demo_sem_ok:
  assumes "distinct qs" "set qs \<inter> {0, 5, 6, 7} = {}" "- c \<le> int (length qs)"
  shows "sem_ok (demo_sem c qs) (demo_lists(40 \<mapsto> qs)) 5 {0, 5, 6, 7} 40 (c, qs)"
proof -
  have "alive (demo_sem c qs) (demo_lists(40 \<mapsto> qs)) 5 {0, 5, 6, 7}"
    unfolding alive_def using demo_sem_kern [OF assms(1,2)]
    by (intro exI [of _ "[6, 0]"] exI [of _ "[7]"]) auto
  then show ?thesis
    using assms(3) demo_sem_req by (simp add: sem_ok_def sem_covered_def ready_def waiting_def) (simp add: demo_sem_def)
qed

lemma demo_sem_room: "nest_room 2 (demo_sem c qs)" "nest_room 1 (demo_sem c qs)"
  by (simp_all add: nest_room_def demo_sem_def INT32_MAX_def)

lemma demo_sem_unlinked: "n \<notin> {0, 6, 7} \<union> set qs \<Longrightarrow> unlinked (demo_lists(40 \<mapsto> qs)) n"
  using demo_unlinked [of n] by (auto simp: unlinked_def split: if_splits)

text \<open>
  C16: No semaphore grants more than it has.  Start from a count of \<open>c\<close> and an empty queue and
  perform any sequence of requests and releases (requests of tasks other than the running one,
  which is what the code asserts).  Every call returns and no assertion fails, in particular the
  queue is never found empty when a release looks for a request.  Let \<open>gs\<close> be the requests whose caller was told that it has the
  semaphore: they were made in this order; the others are, in the order they were made, those served by a release and
  then those still in the queue, so no request is granted twice, or granted and queued; exactly the waiters of the served requests have received exactly their signals; the count is \<open>c\<close> minus the
  requests plus the releases; and the requests granted, at once or by a release, are at most
  \<open>c\<close> plus the releases.
\<close>

theorem sem_never_overgrants:
  assumes "sem_ok s L r ts sem (c, [])" and "nest_room 2 s" and "distinct (acquires ops)"
    and "\<forall>q \<in> set (acquires ops). unlinked L q \<and> q \<notin> ts \<and> req_ok s r ts q"
    and "INT32_MIN \<le> c - int (length ops)" and "c + int (length ops) \<le> INT32_MAX"
  shows "runs_to (sem_run sem_add_request sem_signal sem ops) s (\<lambda>gs u. \<exists>L' done queue.
     alive u L' r ts \<and> L' sem = Some queue
     \<and> gs = filter (\<lambda>q. q \<in> set gs) (acquires ops) \<and> done @ queue = filter (\<lambda>q. q \<notin> set gs) (acquires ops)
     \<and> (\<forall>t. tk_sig_recvd (tasks u (Obj t)) = tk_sig_recvd (tasks s (Obj t)) OR mail_of (reqs s) done t)
     \<and> sm_count (sems u sem) = c - int (length (acquires ops)) + int (releases ops)
     \<and> int (length gs) + int (length done) \<le> c + int (releases ops))"
proof -
  have cv: "sem_covered (c, [])" using assms(1) by (simp add: sem_ok_def)
  let ?gs = "granted ops (c, [])" and ?done = "served ops (c, [])" and ?q = "snd (fold sem_step ops (c, []))"
  note o = granted_in_order [OF assms(3)] served_in_order [OF assms(3) cv, simplified]
  have "length ?gs + length (?done @ ?q) = length (acquires ops)"
    unfolding o(2) using sum_length_filter_compl [of "\<lambda>q. q \<in> set ?gs" "acquires ops"] o(1) by simp
  then have len: "int (length ?gs) + int (length ?done) \<le> c + int (releases ops)"
    using sem_fold_covered [OF cv, of ops] fst_sem_fold [of ops "(c, [])"] by (simp add: sem_covered_def)
  have "runs_to (sem_run sem_add_request sem_signal sem ops) s (\<lambda>gs u. gs = ?gs \<and> recorded s u (mail_of (reqs s) ?done)
      \<and> (\<exists>L'. sem_ok u L' r ts sem (fold sem_step ops (c, []))))"
    by (rule sv.run_law [OF assms(1-4)]) (use assms(5,6) in simp_all)
  then show ?thesis
  proof (rule runs_to_weaken, elim conjE exE)
    fix gs u L' assume "gs = ?gs" "recorded s u (mail_of (reqs s) ?done)" "sem_ok u L' r ts sem (fold sem_step ops (c, []))"
    then show "\<exists>L' done queue. alive u L' r ts \<and> L' sem = Some queue
       \<and> gs = filter (\<lambda>q. q \<in> set gs) (acquires ops) \<and> done @ queue = filter (\<lambda>q. q \<notin> set gs) (acquires ops)
       \<and> (\<forall>t. tk_sig_recvd (tasks u (Obj t)) = tk_sig_recvd (tasks s (Obj t)) OR mail_of (reqs s) done t)
       \<and> sm_count (sems u sem) = c - int (length (acquires ops)) + int (releases ops)
       \<and> int (length gs) + int (length done) \<le> c + int (releases ops)"
      using len o by (intro exI [of _ L'] exI [of _ ?done] exI [of _ ?q]) (simp add: sem_ok_def fst_sem_fold recorded_def)
  qed
qed

theorem sem_never_overgrants_witness:
  "runs_to (sem_run sem_add_request sem_signal 40 [Acquire 50, Acquire 51, Acquire 52, Release]) (demo_sem 1 []) (\<lambda>gs u. \<exists>L' done queue.
     alive u L' 5 {0, 5, 6, 7} \<and> L' 40 = Some queue
     \<and> gs = filter (\<lambda>q. q \<in> set gs) (acquires [Acquire 50, Acquire 51, Acquire 52, Release])
     \<and> done @ queue = filter (\<lambda>q. q \<notin> set gs) (acquires [Acquire 50, Acquire 51, Acquire 52, Release])
     \<and> (\<forall>t. tk_sig_recvd (tasks u (Obj t)) = tk_sig_recvd (tasks (demo_sem 1 []) (Obj t)) OR mail_of (reqs (demo_sem 1 [])) done t)
     \<and> sm_count (sems u 40) = 1 - int (length (acquires [Acquire 50, Acquire 51, Acquire 52, Release]))
         + int (releases [Acquire 50, Acquire 51, Acquire 52, Release])
     \<and> int (length gs) + int (length done) \<le> 1 + int (releases [Acquire 50, Acquire 51, Acquire 52, Release]))"
  by (rule sem_never_overgrants [OF demo_sem_ok demo_sem_room(1)])
    (simp_all add: demo_sem_req demo_sem_unlinked int32_bounds)

text \<open>
  \<open>sem_add_request\<close> refines the abstract semaphore: the count goes down by one; if the
  result is negative the request joins the end of the queue and the call returns true,
  otherwise the queue is unchanged and it returns false.  No task changes and no switch is
  requested.
\<close>

theorem sem_add_request_refines:
  assumes "sem_ok s L r ts sem a" and "nest_room 1 s" and "unlinked L x" and "x \<notin> ts" and "req_ok s r ts x"
    and "INT32_MIN \<le> fst a - 1" and "fst a - 1 \<le> INT32_MAX"
  shows "runs_to (sem_add_request sem (Obj x)) s (\<lambda>v u. \<exists>L'. v = (fst a \<le> 0)
     \<and> sem_ok u L' r ts sem (fst a - 1, if fst a \<le> 0 then snd a @ [x] else snd a)
     \<and> sem_frame s L sem u L' \<and> tasks u = tasks s \<and> pendsv u = pendsv s)"
  by (rule runs_to_weaken [OF sem_add_request_ok [OF assms]]) (auto simp: sem_add_def)

theorem sem_add_request_refines_witness:
  "runs_to (sem_add_request 40 (Obj 50)) (demo_sem 0 []) (\<lambda>v u. \<exists>L'. v = (fst (0 :: int, [] :: addr list) \<le> 0)
     \<and> sem_ok u L' 5 {0, 5, 6, 7} 40 (fst (0 :: int, [] :: addr list) - 1,
         if fst (0 :: int, [] :: addr list) \<le> 0 then snd (0 :: int, []) @ [50] else snd (0 :: int, []))
     \<and> sem_frame (demo_sem 0 []) (demo_lists(40 \<mapsto> [])) 40 u L' \<and> tasks u = tasks (demo_sem 0 []) \<and> pendsv u = pendsv (demo_sem 0 []))"
  by (rule sem_add_request_refines [OF demo_sem_ok demo_sem_room(2)])
    (simp_all add: demo_sem_req demo_sem_unlinked int32_bounds)

text \<open>
  C20: \<open>sem_wait\<close> by the running task.  With the count positive it takes one and returns without
  blocking.  Otherwise its request, for \<open>SIGF_SINGLE\<close> to the running task, is at the end of the
  queue and the task blocks on the waiting list; but if \<open>SIGF_SINGLE\<close> was already among its
  received signals \<open>signal_wait\<close> returns at once, and so does \<open>sem_wait\<close>, with the request still
  queued.
\<close>

theorem sem_wait_outcome:
  assumes "kern s L r rs ws" and "r \<notin> set rs" and "r \<notin> set ws" and "r \<noteq> init_addr" and "nest_room 1 s"
    and "sem \<noteq> ready" and "sem \<noteq> waiting" and "L sem = Some queue" and "unlinked L x" and "x \<noteq> r"
    and "INT32_MIN < sm_count (sems s sem)" and "sm_count (sems s sem) \<le> INT32_MAX"
  defines "c \<equiv> sm_count (sems s sem)" and "T \<equiv> tasks s (Obj r)"
  shows "runs_to (sem_wait sem (Obj x)) s (\<lambda>v u. sm_count (sems u sem) = c - 1 \<and> (
     if 0 < c then v = None \<and> kern u L r rs ws \<and> tasks u = tasks s
     else rq_waiter (reqs u (Obj x)) = Obj r \<and> rq_signal (reqs u (Obj x)) = SIGF_SINGLE
       \<and> (if SIGF_SINGLE AND tk_sig_recvd T = 0
          then v = Some (Blocked (to_int16 (id_nestcnt s + 1))) \<and> pendsv u
            \<and> kern u (L(sem \<mapsto> queue @ [x], waiting \<mapsto> ws @ [r])) r rs (ws @ [r])
          else v = Some (Returned (SIGF_SINGLE AND tk_sig_recvd T))
            \<and> kern u (L(sem \<mapsto> queue @ [x])) r rs ws)))" (is "runs_to _ _ ?Q")
proof -
  define s1 where "s1 = s\<lparr>reqs := (reqs s)(Obj x := \<lparr>rq_waiter = Obj r, rq_signal = SIGF_SINGLE\<rparr>)\<rparr>"
  have q: "q\<lparr>rq_signal := a, rq_waiter := b\<rparr> = \<lparr>rq_waiter = b, rq_signal = a\<rparr>" for q :: SemaphoreRequest and a b
    by (cases q) simp
  have k1: "kern s1 L r rs ws" by (rule kern_cong [OF assms(1)])
    (use kern_lists(5) [OF assms(1)] in \<open>simp_all add: s1_def irq_ok_def\<close>)
  have s1: "sm_count (sems s1 sem) = fst (c, queue)" "L sem = Some (snd (c, queue))" "nest_room 1 s1"
    using assms(5,8) by (simp_all add: s1_def c_def nest_room_def)
  have b: "INT32_MIN \<le> fst (c, queue) - 1" "fst (c, queue) - 1 \<le> INT32_MAX"
    using assms(11,12) by (simp_all add: c_def)
  have run: "runs_to (sem_wait sem (Obj x)) s P = runs_to (sem_add_request sem (Obj x)) s1 (\<lambda>b t.
      if b then runs_to (signal_wait SIGF_SINGLE) t (\<lambda>w u. P (Some w) u) else P None t)" for P
    by (simp add: sem_wait_def run_simps kern_lists(4) [OF assms(1)] q s1_def)
  show ?thesis
    unfolding run
  proof (rule runs_to_weaken [OF sem_add_request_raw [OF k1 assms(6,7) s1(2,1,3) assms(9,10) b]])
    fix v t
    assume t: "v = (fst (c, queue) - 1 < 0)
      \<and> kern t (L(sem \<mapsto> snd (sem_add x (c, queue)))) r rs ws \<and> sm_count (sems t sem) = fst (sem_add x (c, queue))
      \<and> sem_frame s1 L sem t (L(sem \<mapsto> snd (sem_add x (c, queue)))) \<and> tasks t = tasks s1 \<and> pendsv t = pendsv s1"
    have rt: "reqs t = reqs s1" "id_nestcnt t = id_nestcnt s" "tasks t = tasks s"
      using t by (simp_all add: sem_frame_def s1_def)
    show "if v then runs_to (signal_wait SIGF_SINGLE) t (\<lambda>w u. ?Q (Some w) u) else ?Q None t"
    proof (cases "0 < c")
      case True
      then have "L(sem \<mapsto> snd (sem_add x (c, queue))) = L" using assms(8) by (simp add: sem_add_def fun_upd_idem)
      then have "kern t L r rs ws" using t by metis
      then show ?thesis using True t rt by (simp add: sem_add_def)
    next
      case False
      then have k: "kern t (L(sem \<mapsto> queue @ [x])) r rs ws" and v: v and cnt: "sm_count (sems t sem) = c - 1"
        using t by (simp_all add: sem_add_def)
      have "nest_room 1 t" using assms(5) rt by (simp add: nest_room_def)
      then have "runs_to (signal_wait SIGF_SINGLE) t (\<lambda>w u. ?Q (Some w) u)"
        by (intro runs_to_weaken [OF signal_wait_kern [OF k assms(2-4)]])
          (use False cnt rt in \<open>auto simp: wait_post_def Let_def T_def same_store_def s1_def\<close>)
      then show ?thesis using v by simp
    qed
  qed
qed

theorem sem_wait_outcome_witness:
  "runs_to (sem_wait 40 (Obj 52)) (demo_sem 0 []) (\<lambda>v u. sm_count (sems u 40) = sm_count (sems (demo_sem 0 []) 40) - 1 \<and> (
     if 0 < sm_count (sems (demo_sem 0 []) 40) then v = None \<and> kern u (demo_lists(40 \<mapsto> [])) 5 [6, 0] [7]
       \<and> tasks u = tasks (demo_sem 0 [])
     else rq_waiter (reqs u (Obj 52)) = Obj 5 \<and> rq_signal (reqs u (Obj 52)) = SIGF_SINGLE
       \<and> (if SIGF_SINGLE AND tk_sig_recvd (tasks (demo_sem 0 []) (Obj 5)) = 0
          then v = Some (Blocked (to_int16 (id_nestcnt (demo_sem 0 []) + 1))) \<and> pendsv u
            \<and> kern u (demo_lists(40 \<mapsto> [], 40 \<mapsto> [] @ [52], waiting \<mapsto> [7] @ [5])) 5 [6, 0] ([7] @ [5])
          else v = Some (Returned (SIGF_SINGLE AND tk_sig_recvd (tasks (demo_sem 0 []) (Obj 5))))
            \<and> kern u (demo_lists(40 \<mapsto> [], 40 \<mapsto> [] @ [52])) 5 [6, 0] [7])))"
  by (rule sem_wait_outcome [OF demo_sem_kern _ _ _ demo_sem_room(2)])
    (simp_all add: demo_sem_unlinked int32_bounds init_addr_def ready_def waiting_def, simp_all add: demo_sem_def)

text \<open>
  C19: A release at a count below -1 serves the oldest request: it leaves the
  queue, its waiter receives exactly its signal, the count goes up by one and the abstract
  semaphore of the specification makes the same step.  The condition is on the count, which the code tests after the increment, and not on the number of
  requests queued; the release at the count -1 is the case of the property after this one.
\<close>

theorem sem_signal_serves_oldest:
  assumes "sem_ok s L r ts sem a" and "nest_room 2 s" and "fst a < - 1" and "INT32_MIN \<le> fst a"
  shows "runs_to (sem_signal sem) s (\<lambda>_ u. \<exists>L' x xs w. snd a = x # xs \<and> rq_waiter (reqs s (Obj x)) = Obj w
     \<and> sem_ok u L' r ts sem (fst a + 1, xs) \<and> sem_frame s L sem u L' \<and> sem_sig_spec a = (fst a + 1, xs)
     \<and> tk_sig_recvd (tasks u (Obj w)) = tk_sig_recvd (tasks s (Obj w)) OR rq_signal (reqs s (Obj x)))"
proof -
  have d: "sem_serves a" using assms(3) by (simp add: sem_serves_def)
  obtain x xs where "snd a = x # xs"
    using assms(1,3) by (cases "snd a") (auto simp: sem_ok_def sem_covered_def)
  then show ?thesis
    by (intro runs_to_weaken [OF sem_signal_serve [OF assms(1,2) d assms(4)]])
      (use d assms(3) in \<open>auto simp: sem_sig_def sem_sig_spec_def recorded_def\<close>)
qed

theorem sem_signal_serves_oldest_witness:
  "runs_to (sem_signal 40) (demo_sem (- 2) [50, 51]) (\<lambda>_ u. \<exists>L' x xs w. snd (- 2 :: int, [50, 51 :: addr]) = x # xs
     \<and> rq_waiter (reqs (demo_sem (- 2) [50, 51]) (Obj x)) = Obj w
     \<and> sem_ok u L' 5 {0, 5, 6, 7} 40 (fst (- 2 :: int, [50, 51 :: addr]) + 1, xs)
     \<and> sem_frame (demo_sem (- 2) [50, 51]) (demo_lists(40 \<mapsto> [50, 51])) 40 u L'
     \<and> sem_sig_spec (- 2, [50, 51]) = (fst (- 2 :: int, [50, 51 :: addr]) + 1, xs)
     \<and> tk_sig_recvd (tasks u (Obj w)) = tk_sig_recvd (tasks (demo_sem (- 2) [50, 51]) (Obj w))
         OR rq_signal (reqs (demo_sem (- 2) [50, 51]) (Obj x)))"
  by (rule sem_signal_serves_oldest [OF demo_sem_ok demo_sem_room(1)]) (simp_all add: INT32_MIN_def)

text \<open>
  C18: A release at the count -1 serves nobody.  With the count at -1, as
  the code itself leaves it, and any number of requests queued, \<open>sem_signal\<close> returns without removing a request or
  signalling anyone: no task changes, all requests are still queued with the count at 0.  The
  specified semaphore removes the oldest.  So a single waiter is never served; and after a request, a release and
  another request from count 0, two are queued at the count -1.
\<close>

theorem sem_signal_last_waiter_lost:
  assumes "sem_ok s L r ts sem (- 1, x # xs)" and "nest_room 1 s"
  shows "runs_to (sem_signal sem) s (\<lambda>_ u. sem_ok u L r ts sem (0, x # xs) \<and> tasks u = tasks s
     \<and> pendsv u = pendsv s) \<and> sem_sig_spec (- 1, x # xs) = (0, xs)"
proof
  show "runs_to (sem_signal sem) s (\<lambda>_ u. sem_ok u L r ts sem (0, x # xs) \<and> tasks u = tasks s \<and> pendsv u = pendsv s)"
    by (rule runs_to_weaken [OF sem_signal_idle [OF assms]])
      (auto simp: int32_bounds sem_serves_def sem_sig_def)
qed (simp add: sem_sig_spec_def)

theorem sem_signal_last_waiter_lost_witness:
  "(runs_to (sem_signal 40) (demo_sem (- 1) [51]) (\<lambda>_ u. sem_ok u (demo_lists(40 \<mapsto> [51])) 5 {0, 5, 6, 7} 40 (0, [51])
     \<and> tasks u = tasks (demo_sem (- 1) [51]) \<and> pendsv u = pendsv (demo_sem (- 1) [51]))
     \<and> sem_sig_spec (- 1, [51]) = (0, []))
   \<and> (runs_to (sem_signal 40) (demo_sem (- 1) [50, 51]) (\<lambda>_ u. sem_ok u (demo_lists(40 \<mapsto> [50, 51])) 5 {0, 5, 6, 7} 40 (0, [50, 51])
     \<and> tasks u = tasks (demo_sem (- 1) [50, 51]) \<and> pendsv u = pendsv (demo_sem (- 1) [50, 51]))
     \<and> sem_sig_spec (- 1, [50, 51]) = (0, [51]))"
  by (rule conjI; rule sem_signal_last_waiter_lost [OF demo_sem_ok demo_sem_room(2)]) simp_all

text \<open>
  C17: A release lets the oldest waiter go on.  The count is below -1, so that it is still negative after the increment, and the oldest of the queued
  requests is that of task \<open>w\<close>, which is blocked in \<open>sem_wait\<close> and more urgent than
  every other task.  \<open>sem_signal\<close> returns, the context switch it requests runs \<open>w\<close>, and \<open>sem_wait\<close> returns in \<open>w\<close>, with
  the nesting count of its caller; its request has left the queue and the other requests wait in their order.
\<close>

theorem sem_signal_ends_wait:
  assumes "sem_ok s L y ts sem (c, x # xs)" and "nest_room 2 s" and "\<not> primask s" and "c < - 1" and "INT32_MIN \<le> c"
    and "rq_waiter (reqs s (Obj x)) = Obj w" and "rq_signal (reqs s (Obj x)) = SIGF_SINGLE" and "tk_sig_wait (tasks s (Obj w)) = SIGF_SINGLE"
    and "w \<noteq> init_addr" and "\<forall>t \<in> ts. t \<noteq> w \<longrightarrow> prio_of (nodes s) t < prio_of (nodes s) w"
    and "frame_fits (psp - 32) (tk_context (tasks s (Obj y)))" and "0 \<le> n" and "n \<le> INT32_MAX"
  shows "runs_to (seqM (sem_signal sem) (bindM (PendSV_Handler psp) (\<lambda>_. sem_wait_resume n))) s
     (\<lambda>v u. v = Some (Returned SIGF_SINGLE) \<and> running u = Obj w \<and> id_nestcnt u = n - 1 \<and> sm_count (sems u sem) = c + 1
        \<and> (\<exists>L' rs' ws'. kern u L' w rs' ws' \<and> L' sem = Some xs))" (is "runs_to _ _ ?Q")
  unfolding runs_to_seqM
proof (rule runs_to_weaken [OF sem_signal_serve [OF assms(1,2)]], goal_cases)
  case (3 z u)
  then obtain L' where u: "sem_ok u L' y ts sem (c + 1, xs)" "sem_frame s L sem u L'" "recorded s u ((\<lambda>_. 0)(w := SIGF_SINGLE))"
    using assms(4,6,7) by (auto simp: sem_sig_def sem_serves_def)
  have wy: "w \<in> ts" "w \<noteq> y" using assms(1,6) by (auto simp: sem_ok_def req_ok_def)
  have T: "tk_sig_recvd (tasks u (Obj w)) AND SIGF_SINGLE = SIGF_SINGLE" "tk_sig_wait (tasks u (Obj w)) = SIGF_SINGLE"
    "tk_context (tasks u (Obj y)) = tk_context (tasks s (Obj y))" "\<not> primask u" "id_nestcnt u = - 1"
    using u(2,3) assms(3,8) alive_facts(2) [of s L y ts] assms(1) by (simp_all add: recorded_def and_or_absorb sem_frame_def sem_ok_def irq_ok_def)
  have al: "alive u L' y ts" and l: "sem \<noteq> ready" "sem \<noteq> waiting" "L' sem = Some xs" "sm_count (sems u sem) = c + 1"
    using u(1) by (simp_all add: sem_ok_def)
  from received_ready [OF al wy] T(1,2) obtain rs ws where k: "kern u L' y rs ws" "w \<in> set rs" "ts = insert y (set rs \<union> set ws)"
    by (auto simp: SIGF_SINGLE_def and.commute)
  have pr: "\<forall>t \<in> insert y (set rs). t \<noteq> w \<longrightarrow> prio_of (nodes u) t < prio_of (nodes u) w"
    using assms(10) k(3) same_data_prio_of [of "nodes s" "nodes u"] u(2) by (simp add: sem_frame_def)
  note sw = switch_to_urgent [OF k(1,2) wy(2) pr]
  show ?case
    unfolding runs_to_bindM
  proof (rule runs_to_weaken [OF PendSV_kern [OF k(1) T(4)]])
    show "frame_fits (psp - 32) (tk_context (tasks u (Obj y)))" using assms(11) T(3) by simp
    fix v t assume t: "switch_post u L' y rs ws (psp - 32) v t"
    let ?ys = "tl (switch_queue u y rs ws)"
    have kt: "kern t (L'(ready \<mapsto> ?ys)) w ?ys ws" and np: "\<not> pendsv t" and o: "same_objs u t"
      and R: "tasks t (Obj w) = (tasks u (Obj w))\<lparr>tk_state := TASK_RUNNING\<rparr>"
      using t sw(2) wy(2) by (simp_all add: switch_post_def Let_def switch_tasks_def)
    have g: "tk_sig_wait (tasks t (Obj w)) = SIGF_SINGLE" "id_nestcnt t = - 1" using R T o by (simp_all add: same_defs)
    have lx: "(L'(ready \<mapsto> ?ys)) sem = Some xs" using l by simp
    show "runs_to (sem_wait_resume n) t ?Q"
      unfolding sem_wait_resume_def run_simps
      by (rule runs_to_weaken [OF signal_wait_resume_kern [OF kt kern_sched(1,2) [OF kt np] assms(9) g assms(12,13)]])
        (use R T l o lx in \<open>auto simp: wait_post_def Let_def same_defs and.commute SIGF_SINGLE_def simp del: fun_upd_apply dest: kern_lists(4)\<close>)
  qed
qed (use assms(4,5) in \<open>simp_all add: sem_serves_def\<close>)

text \<open>Task 7 is blocked in \<open>sem_wait\<close> with the oldest of the two requests.\<close>

definition demo_held :: kstate where
  "demo_held = (demo_sem (- 2) [51, 50])\<lparr>reqs := (\<lambda>q. \<lparr>rq_waiter = Obj (if q = Obj 50 then 6 else 7), rq_signal = SIGF_SINGLE\<rparr>),
     tasks := demo_tasks(Obj 7 := demo_task TASK_WAITING SIGF_SINGLE)\<rparr>"

lemma demo_held_ok: "sem_ok demo_held (demo_lists(40 \<mapsto> [51, 50])) 5 {0, 5, 6, 7} 40 (- 2, [51, 50])"
proof -
  have "kern (demo_sem (- 2) [51, 50]) (demo_lists(40 \<mapsto> [51, 50])) 5 [6, 0] [7]" by (rule demo_sem_kern) simp_all
  then have "kern demo_held (demo_lists(40 \<mapsto> [51, 50])) 5 [6, 0] [7]"
    unfolding kern_def by (auto simp: demo_held_def demo_sem_def demo_tasks_def demo_task_def blank_task_def task_ok_def ctx_ok_def irq_ok_def)
  from aliveI [OF this] have "alive demo_held (demo_lists(40 \<mapsto> [51, 50])) 5 {0, 5, 6, 7}" by (simp add: insert_commute)
  then show ?thesis by (simp add: sem_ok_def sem_covered_def req_ok_def demo_held_def demo_sem_def ready_def waiting_def SIGF_SINGLE_def)
qed

theorem sem_signal_ends_wait_witness:
  "runs_to (seqM (sem_signal 40) (bindM (PendSV_Handler 0x20000300) (\<lambda>_. sem_wait_resume 0))) demo_held
     (\<lambda>v u. v = Some (Returned SIGF_SINGLE) \<and> running u = Obj 7 \<and> id_nestcnt u = 0 - 1 \<and> sm_count (sems u 40) = - 2 + 1
        \<and> (\<exists>L' rs' ws'. kern u L' 7 rs' ws' \<and> L' 40 = Some [50]))"
proof (rule sem_signal_ends_wait [OF demo_held_ok])
  have "same_data demo_nodes (nodes demo_held)"
    using lists_ok_link_all [OF demo_lists_ok, of 40 "[]" "[51, 50]"] demo_unlinked
    by (simp add: demo_held_def demo_sem_def demo_lists_def ready_def waiting_def)
  then have "prio_of (nodes demo_held) = demo_prio" by (simp add: same_data_prio_of demo_prio_of)
  then show "\<forall>t \<in> {0, 5, 6, 7}. t \<noteq> 7 \<longrightarrow> prio_of (nodes demo_held) t < prio_of (nodes demo_held) 7"
    using demo_order by (auto intro: order.strict_trans order.strict_trans1)
qed (simp_all add: demo_held_def demo_sem_def nest_room_def init_addr_def demo_tasks_def demo_task_def frame_fits_def blank_task_def
    frame_offsets INT32_MIN_def INT32_MAX_def)

end
