(* ===== verification/MsgC.thy ===== *)
theory MsgC
  imports SemC
begin

unbundle bit_operations_syntax

text \<open>
  Message ports, \<open>src/msgport.c\<close>.  The port \<open>port\<close> has its messages in the list named \<open>port\<close>
  and its other fields in \<open>ports\<close>.
\<close>

section \<open>The code\<close>

definition get_port :: "addr \<Rightarrow> (MsgPort \<Rightarrow> 'a) \<Rightarrow> 'a K" where
  "get_port port f = gets (\<lambda>s. f (ports s port))"

definition set_port :: "addr \<Rightarrow> (MsgPort \<Rightarrow> MsgPort) \<Rightarrow> unit K" where
  "set_port port f = modify (\<lambda>s. s\<lparr>ports := (ports s)(port := f (ports s port))\<rparr>)"

definition get_msg :: "ptr \<Rightarrow> (Message \<Rightarrow> 'a) \<Rightarrow> 'a K" where
  "get_msg m f = (\<lambda>s. if m = NULL then Inl NullDeref else Inr (f (msgs s m), s))"

definition msgport_init :: "addr \<Rightarrow> unit K" where
  "msgport_init port =
     bindM (signal_allocate (- 1)) (\<lambda>signum.
     seqM (assertM (- 1 \<noteq> signum)) (
     seqM (set_port port (\<lambda>p. p\<lparr>mp_signal := sig_mask (nat signum)\<rparr>)) (
     seqM (set_port port (\<lambda>p. p\<lparr>mp_action := MSGPORT_SIGNAL\<rparr>)) (
     bindM (gets running) (\<lambda>r.
     seqM (set_port port (\<lambda>p. p\<lparr>mp_task := r\<rparr>)) (
     in_nodes (list_init port)))))))"

text \<open>
  \<open>msgport_wait\<close>: the message at the head of the list, or \<open>PortBlocked n\<close> where its
  \<open>signal_wait\<close> blocks.  An iteration in which \<open>signal_wait\<close> returns at once consumes the
  signal, so the next one blocks or finds a message: the loop needs two iterations at most
  before it leaves the processor (\<open>loop_empty\<close> below).
\<close>

datatype port_result = GotMessage ptr | PortBlocked int

primrec msgport_loop :: "nat \<Rightarrow> addr \<Rightarrow> port_result K" where
  "msgport_loop 0 port = throw Hang"
| "msgport_loop (Suc fuel) port =
     bindM (in_nodes (list_is_empty port)) (\<lambda>e.
     if e then
       bindM (get_port port mp_signal) (\<lambda>g.
       bindM (signal_wait g) (\<lambda>w.
       case w of Returned _ \<Rightarrow> msgport_loop fuel port | Blocked n \<Rightarrow> ret (PortBlocked n)))
     else
       bindM (in_nodes (get_next (Head port))) (\<lambda>msg.
       seqM enable (ret (GotMessage msg))))"

definition msgport_wait :: "addr \<Rightarrow> port_result K" where
  "msgport_wait port = seqM disable (msgport_loop 2 port)"

definition msgport_wait_resume :: "addr \<Rightarrow> Signals \<Rightarrow> int \<Rightarrow> port_result K" where
  "msgport_wait_resume port g nestcnt =
     bindM (signal_wait_resume g nestcnt) (\<lambda>w.
     case w of Returned _ \<Rightarrow> msgport_loop 2 port | Blocked n \<Rightarrow> ret (PortBlocked n))"

definition msgport_get :: "addr \<Rightarrow> ptr K" where
  "msgport_get port =
     seqM disable (
     bindM (in_nodes (list_rem_head port)) (\<lambda>msg.
     seqM enable (ret msg)))"

definition msgport_send :: "addr \<Rightarrow> ptr \<Rightarrow> unit K" where
  "msgport_send port message =
     seqM disable (
     bindM (get_port port mp_action) (\<lambda>act.
     seqM (assertM (MSGPORT_SIGNAL = act \<or> MSGPORT_IGNORE = act)) (
     seqM (in_nodes (list_add_tail port message)) (
     bindM (get_port port mp_task) (\<lambda>task.
     bindM (get_port port mp_signal) (\<lambda>g.
     seqM (whenM (NULL \<noteq> task \<and> MSGPORT_SIGNAL = act) (signal_send task g)) (
     enable)))))))"

definition msgport_reply :: "ptr \<Rightarrow> unit K" where
  "msgport_reply message =
     bindM (get_msg message ms_reply_port) (\<lambda>port.
     case port of None \<Rightarrow> throw AssertFailed | Some p \<Rightarrow> msgport_send p message)"

lemma runs_to_get_port [run_simps]: "runs_to (get_port port f) s P = P (f (ports s port)) s"
  by (simp add: get_port_def run_simps)

lemma runs_to_set_port [run_simps]:
  "runs_to (set_port port f) s P = P () (s\<lparr>ports := (ports s)(port := f (ports s port))\<rparr>)"
  by (simp add: set_port_def run_simps)

lemma runs_to_get_msg [run_simps]: "runs_to (get_msg m f) s P \<longleftrightarrow> m \<noteq> NULL \<and> P (f (msgs s m)) s"
  by (simp add: runs_to_def get_msg_def)

section \<open>Sending and getting\<close>

text \<open>What the port of a list of messages must satisfy.\<close>

definition port_ok :: "kstate \<Rightarrow> lists \<Rightarrow> addr \<Rightarrow> addr set \<Rightarrow> addr \<Rightarrow> addr list \<Rightarrow> bool" where
  "port_ok s L r ts port q = (alive s L r ts \<and> port \<noteq> ready \<and> port \<noteq> waiting \<and> L port = Some q
     \<and> mp_action (ports s port) \<in> {MSGPORT_SIGNAL, MSGPORT_IGNORE}
     \<and> (mp_task (ports s port) = NULL \<or> (\<exists>t \<in> ts. mp_task (ports s port) = Obj t)))"

definition port_sends :: "MsgPort \<Rightarrow> addr \<Rightarrow> Signals" where
  "port_sends p = (case mp_task p of
       Obj t \<Rightarrow> (if mp_action p = MSGPORT_SIGNAL then (\<lambda>_. 0)(t := mp_signal p) else (\<lambda>_. 0))
     | _ \<Rightarrow> (\<lambda>_. 0))"

definition port_frame :: "kstate \<Rightarrow> lists \<Rightarrow> addr \<Rightarrow> kstate \<Rightarrow> lists \<Rightarrow> bool" where
  "port_frame s L port u L' = (same_objs s u
     \<and> (\<forall>l. l \<noteq> ready \<longrightarrow> l \<noteq> waiting \<longrightarrow> l \<noteq> port \<longrightarrow> L' l = L l))"

text \<open>With a task to signal: the message is on the list, then the signal is sent.\<close>

lemma msgport_send_signals:
  assumes k: "kern s L r rs ws" and p: "port \<noteq> ready" "port \<noteq> waiting" "L port = Some q"
    and a: "mp_task (ports s port) = Obj a" "a \<in> insert r (set rs \<union> set ws)" "mp_action (ports s port) = MSGPORT_SIGNAL"
    and m: "unlinked L m" "m \<noteq> r" and n: "nest_room 2 s"
  shows "runs_to (msgport_send port (Obj m)) s (\<lambda>_ u. \<exists>h.
     kern (s\<lparr>nodes := h\<rparr>) (L(port \<mapsto> q @ [m])) r rs ws \<and> same_data (nodes s) h
     \<and> send_post (s\<lparr>nodes := h\<rparr>) (L(port \<mapsto> q @ [m])) r rs ws a (mp_signal (ports s port)) u)"
proof -
  note i = kern_lists(5) [OF k]
  have "r \<notin> set (q @ [m])" using kern_lists(7) [OF k p(3,1,2)] m(2) by simp
  then have k1: "kern (s\<lparr>nodes := h\<rparr>) (L(port \<mapsto> q @ [m])) r rs ws"
    if "lists_ok h (L(port \<mapsto> q @ [m])) \<and> same_data (nodes s) h" for h
    using that i by (intro kern_other_list [OF k p(1,2)]) (auto simp: irq_ok_def)
  have add: "runs_to (list_add_tail port (Obj m)) (nodes s)
      (\<lambda>_ h. lists_ok h (L(port \<mapsto> q @ [m])) \<and> same_data (nodes s) h)"
    by (rule lc.add_tail_law [OF kern_lists(1) [OF k] p(3) m(1)])
  have n1: "nest_room 1 s" using n by (rule nest_room_mono) simp
  have "runs_to (msgport_send port (Obj m)) s P = runs_to (list_add_tail port (Obj m)) (nodes s) (\<lambda>_ h.
      runs_to (signal_send (Obj a) (mp_signal (ports s port))) (masked (s\<lparr>nodes := h\<rparr>)) (\<lambda>_ u. runs_to enable u P))" for P
    using a by (simp add: msgport_send_def runs_to_seqM enter_critical [OF i n1]) (simp add: run_simps)
  moreover have "runs_to (signal_send (Obj a) (mp_signal (ports s port))) (masked (s\<lparr>nodes := h\<rparr>)) (\<lambda>_ u.
      runs_to enable u (\<lambda>_ u. \<exists>h. kern (s\<lparr>nodes := h\<rparr>) (L(port \<mapsto> q @ [m])) r rs ws \<and> same_data (nodes s) h
     \<and> send_post (s\<lparr>nodes := h\<rparr>) (L(port \<mapsto> q @ [m])) r rs ws a (mp_signal (ports s port)) u))"
    if h: "lists_ok h (L(port \<mapsto> q @ [m])) \<and> same_data (nodes s) h" for h
    by (rule runs_to_weaken [OF signal_send_nested [OF k1 [OF h] a(2)]])
      (use n h k1 [OF h] in \<open>auto simp: nest_room_def leave_critical [OF i n1]\<close>)
  ultimately show ?thesis using add by (auto elim!: runs_to_weaken)
qed

lemma msgport_send_quiet:
  assumes k: "kern s L r rs ws" and p: "port \<noteq> ready" "port \<noteq> waiting" "L port = Some q"
    and a: "mp_task (ports s port) = NULL \<or> mp_action (ports s port) = MSGPORT_IGNORE"
      "mp_action (ports s port) \<noteq> MSGPORT_INVALID"
    and m: "unlinked L m" "m \<noteq> r" and n: "nest_room 1 s"
  shows "runs_to (msgport_send port (Obj m)) s (\<lambda>_ u. kern u (L(port \<mapsto> q @ [m])) r rs ws
     \<and> (\<exists>h. same_data (nodes s) h \<and> u = s\<lparr>nodes := h\<rparr>))"
proof -
  note i = kern_lists(5) [OF k]
  have "r \<notin> set (q @ [m])" using kern_lists(7) [OF k p(3,1,2)] m(2) by simp
  then have k1: "kern (s\<lparr>nodes := h\<rparr>) (L(port \<mapsto> q @ [m])) r rs ws"
    if "lists_ok h (L(port \<mapsto> q @ [m])) \<and> same_data (nodes s) h" for h
    using that i by (intro kern_other_list [OF k p(1,2)]) (auto simp: irq_ok_def)
  have act: "mp_action (ports s port) = MSGPORT_SIGNAL \<or> mp_action (ports s port) = MSGPORT_IGNORE"
    using a(2) by (cases "mp_action (ports s port)") auto
  have q: "(mp_task (ports s port) \<noteq> NULL \<and> mp_action (ports s port) = MSGPORT_SIGNAL) = False"
    using a(1) by auto
  have "runs_to (list_add_tail port (Obj m)) (nodes s) (\<lambda>_ h. kern (s\<lparr>nodes := h\<rparr>) (L(port \<mapsto> q @ [m])) r rs ws
      \<and> same_data (nodes s) h)"
    by (rule runs_to_weaken [OF lc.add_tail_law [OF kern_lists(1) [OF k] p(3) m(1)]]) (use k1 in blast)
  then show ?thesis
    using act q
    by (simp add: msgport_send_def run_simps crit [OF i n] eq_commute [of MSGPORT_SIGNAL] eq_commute [of MSGPORT_IGNORE]
        eq_commute [of NULL]) (auto elim!: runs_to_weaken)
qed

lemma msgport_send_ok:
  assumes p: "port_ok s L r ts port q" and m: "unlinked L m" "m \<notin> ts" and n: "nest_room 2 s"
  shows "runs_to (msgport_send port (Obj m)) s (\<lambda>_ u. \<exists>L'. port_ok u L' r ts port (q @ [m])
     \<and> port_frame s L port u L' \<and> recorded s u (port_sends (ports s port)))"
proof -
  obtain rs ws where k: "kern s L r rs ws" and ts: "ts = insert r (set rs \<union> set ws)"
    using p by (auto simp: port_ok_def alive_def)
  have l: "port \<noteq> ready" "port \<noteq> waiting" "L port = Some q" and mr: "m \<noteq> r"
    and act: "mp_action (ports s port) \<in> {MSGPORT_SIGNAL, MSGPORT_IGNORE}"
    and tk: "mp_task (ports s port) = NULL \<or> (\<exists>t \<in> ts. mp_task (ports s port) = Obj t)"
    using p m ts by (auto simp: port_ok_def)
  show ?thesis
  proof (cases "mp_task (ports s port) = NULL \<or> mp_action (ports s port) = MSGPORT_IGNORE")
    case True
    have "port_sends (ports s port) = (\<lambda>_. 0)"
      using True by (auto simp: port_sends_def split: ptr.split)
    moreover have "nest_room 1 s" using n by (rule nest_room_mono) simp
    ultimately show ?thesis
      by (intro runs_to_weaken [OF msgport_send_quiet [OF k l True _ m(1) mr]] exI [of _ "L(port \<mapsto> q @ [m])"])
        (use act tk l ts in \<open>auto simp: port_ok_def port_frame_def same_defs recorded_def dest: aliveI\<close>)
  next
    case False
    then obtain a where a: "a \<in> ts" "mp_task (ports s port) = Obj a" "mp_action (ports s port) = MSGPORT_SIGNAL"
      using tk act by auto
    show ?thesis
    proof (rule runs_to_weaken [OF msgport_send_signals [OF k l a(2) _ a(3) m(1) mr n]])
      show "a \<in> insert r (set rs \<union> set ws)" using a(1) ts by simp
      let ?L = "L(port \<mapsto> q @ [m])" and ?g = "mp_signal (ports s port)"
      fix x u
      assume "\<exists>h. kern (s\<lparr>nodes := h\<rparr>) ?L r rs ws \<and> same_data (nodes s) h
          \<and> send_post (s\<lparr>nodes := h\<rparr>) ?L r rs ws a ?g u"
      then obtain h where h: "kern (s\<lparr>nodes := h\<rparr>) ?L r rs ws" "same_data (nodes s) h"
        "send_post (s\<lparr>nodes := h\<rparr>) ?L r rs ws a ?g u" by blast
      let ?L' = "?L(waiting \<mapsto> send_waiting (s\<lparr>nodes := h\<rparr>) ws a ?g, ready \<mapsto> send_ready (s\<lparr>nodes := h\<rparr>) rs ws a ?g)"
      have nt: "notified (s\<lparr>nodes := h\<rparr>) ?L r ts u ?L' ((\<lambda>_. 0)(a := ?g))"
        using send_post_notified [OF h(1,3)] ts by simp
      have "port_sends (ports s port) = (\<lambda>_. 0)(a := ?g)" using a by (simp add: port_sends_def)
      then have "port_ok u ?L' r ts port (q @ [m]) \<and> port_frame s L port u ?L' \<and> recorded s u (port_sends (ports s port))"
        using nt h(2) l act tk
        by (auto simp: notified_def port_ok_def port_frame_def same_defs recorded_def intro: same_data_trans)
      then show "\<exists>L'. port_ok u L' r ts port (q @ [m]) \<and> port_frame s L port u L'
          \<and> recorded s u (port_sends (ports s port))" by blast
    qed
  qed
qed

lemma msgport_get_ok:
  assumes p: "port_ok s L r ts port q" and n: "nest_room 1 s"
  shows "runs_to (msgport_get port) s (\<lambda>v u. v = (case q of [] \<Rightarrow> NULL | m # _ \<Rightarrow> Obj m)
     \<and> port_ok u (L(port \<mapsto> tl q)) r ts port (tl q) \<and> port_frame s L port u (L(port \<mapsto> tl q)) \<and> tasks u = tasks s)"
proof -
  have al: "alive s L r ts" and l: "port \<noteq> ready" "port \<noteq> waiting" "L port = Some q"
    using p by (simp_all add: port_ok_def)
  note i = alive_facts(2) [OF al]
  have "r \<notin> set (tl q)" using alive_facts(5) [OF al l(3,1,2) alive_facts(4) [OF al]] by (cases q) auto
  then have "alive (s\<lparr>nodes := h\<rparr>) (L(port \<mapsto> tl q)) r ts"
    if "lists_ok h (L(port \<mapsto> tl q))" "same_data (nodes s) h" for h
    using that i by (intro alive_other_list [OF al l(1,2)]) (auto simp: irq_ok_def)
  then have "runs_to (list_rem_head port) (nodes s) (\<lambda>v h. v = (case q of [] \<Rightarrow> NULL | m # _ \<Rightarrow> Obj m)
      \<and> port_ok (s\<lparr>nodes := h\<rparr>) (L(port \<mapsto> tl q)) r ts port (tl q) \<and> same_data (nodes s) h)"
    using p by (intro runs_to_weaken [OF lc.rem_head_law [OF alive_facts(1) [OF al] l(3)]]) (auto simp: port_ok_def)
  then show ?thesis
    by (simp add: msgport_get_def run_simps crit [OF i n])
      (auto elim!: runs_to_weaken simp: port_frame_def same_defs)
qed

section \<open>First in, first out\<close>

primrec send_msgs :: "(addr \<Rightarrow> ptr \<Rightarrow> unit K) \<Rightarrow> addr \<Rightarrow> addr list \<Rightarrow> unit K" where
  "send_msgs send port [] = ret ()"
| "send_msgs send port (m # ms) = seqM (send port (Obj m)) (send_msgs send port ms)"

primrec get_msgs :: "(addr \<Rightarrow> ptr K) \<Rightarrow> addr \<Rightarrow> nat \<Rightarrow> ptr list K" where
  "get_msgs get port 0 = ret []"
| "get_msgs get port (Suc n) = bindM (get port) (\<lambda>p. bindM (get_msgs get port n) (\<lambda>ps. ret (p # ps)))"

locale mailbox =
  fixes inv :: "kstate \<Rightarrow> lists \<Rightarrow> addr \<Rightarrow> addr set \<Rightarrow> addr \<Rightarrow> addr list \<Rightarrow> bool"
    and send :: "addr \<Rightarrow> ptr \<Rightarrow> unit K" and get :: "addr \<Rightarrow> ptr K"
  assumes inv_facts: "inv s L r ts port q \<Longrightarrow> alive s L r ts \<and> L port = Some q"
    and send_law: "inv s L r ts port q \<Longrightarrow> unlinked L m \<Longrightarrow> m \<notin> ts \<Longrightarrow> nest_room 2 s \<Longrightarrow>
      runs_to (send port (Obj m)) s (\<lambda>_ u. \<exists>L'. inv u L' r ts port (q @ [m]) \<and> port_frame s L port u L'
        \<and> recorded s u (port_sends (ports s port)))"
    and get_law: "inv s L r ts port q \<Longrightarrow> nest_room 1 s \<Longrightarrow>
      runs_to (get port) s (\<lambda>v u. v = (case q of [] \<Rightarrow> NULL | m # _ \<Rightarrow> Obj m)
        \<and> inv u (L(port \<mapsto> tl q)) r ts port (tl q) \<and> port_frame s L port u (L(port \<mapsto> tl q)) \<and> tasks u = tasks s)"
begin

lemma unlinked_after:
  assumes u: "inv u L' r ts port q" and f: "port_frame s L port u L'" and y: "unlinked L y" "y \<notin> ts" "y \<notin> set q"
  shows "unlinked L' y"
  unfolding unlinked_def
proof (intro allI impI)
  fix l xs assume l: "L' l = Some xs"
  obtain rs ws where k: "kern u L' r rs ws" "ts = insert r (set rs \<union> set ws)"
    using inv_facts [OF u] by (auto simp: alive_def)
  show "y \<notin> set xs"
    using l y k kern_lists(2,3) [OF k(1)] inv_facts [OF u] f
    by (cases "l = ready \<or> l = waiting \<or> l = port") (auto simp: port_frame_def unlinked_def)
qed

lemma send_all_law:
  "inv s L r ts port q \<Longrightarrow> distinct ms \<Longrightarrow> \<forall>m \<in> set ms. unlinked L m \<and> m \<notin> ts \<Longrightarrow> nest_room 2 s \<Longrightarrow>
   runs_to (send_msgs send port ms) s (\<lambda>_ u. \<exists>L'. inv u L' r ts port (q @ ms) \<and> id_nestcnt u = id_nestcnt s)"
proof (induction ms arbitrary: s L q)
  case Nil
  then show ?case by (auto simp: run_simps)
next
  case (Cons m ms)
  show ?case
    unfolding send_msgs.simps runs_to_seqM
  proof (rule runs_to_weaken [OF send_law [OF Cons.prems(1) _ _ Cons.prems(4), of m]])
    fix x u
    assume "\<exists>L'. inv u L' r ts port (q @ [m]) \<and> port_frame s L port u L' \<and> recorded s u (port_sends (ports s port))"
    then obtain L' where u: "inv u L' r ts port (q @ [m])" "port_frame s L port u L'" by blast
    have n: "nest_room 2 u" "id_nestcnt u = id_nestcnt s"
      using u(2) Cons.prems(4) by (simp_all add: port_frame_def same_defs nest_room_def)
    have "\<forall>y \<in> set ms. y \<notin> set (q @ [m])"
      using Cons.prems(2,3) inv_facts [OF Cons.prems(1)] by (auto dest: unlinkedD)
    then have "\<forall>y \<in> set ms. unlinked L' y \<and> y \<notin> ts"
      using unlinked_after [OF u] Cons.prems(3) by auto
    then show "runs_to (send_msgs send port ms) u (\<lambda>_ u. \<exists>L'. inv u L' r ts port (q @ m # ms) \<and> id_nestcnt u = id_nestcnt s)"
      using Cons.IH [OF u(1) _ _ n(1)] Cons.prems(2) n(2) by simp
  qed (use Cons.prems in auto)
qed

lemma get_all_law:
  "inv s L r ts port q \<Longrightarrow> nest_room 1 s \<Longrightarrow>
   runs_to (get_msgs get port (length q)) s (\<lambda>ps u. ps = map Obj q \<and> (\<exists>L'. inv u L' r ts port []))"
proof (induction q arbitrary: s L)
  case Nil
  then show ?case by (auto simp: run_simps)
next
  case (Cons m q)
  show ?case
    unfolding list.size get_msgs.simps add_0_right add_Suc_right run_simps
  proof (rule runs_to_weaken [OF get_law [OF Cons.prems]])
    fix v u
    assume "v = (case m # q of [] \<Rightarrow> NULL | m # _ \<Rightarrow> Obj m) \<and> inv u (L(port \<mapsto> tl (m # q))) r ts port (tl (m # q))
      \<and> port_frame s L port u (L(port \<mapsto> tl (m # q))) \<and> tasks u = tasks s"
    then have u: "v = Obj m" "inv u (L(port \<mapsto> q)) r ts port q" "nest_room 1 u"
      using Cons.prems(2) by (simp_all add: port_frame_def same_defs nest_room_def)
    show "runs_to (get_msgs get port (length q)) u
        (\<lambda>ps w. v # ps = map Obj (m # q) \<and> (\<exists>L'. inv w L' r ts port []))"
      by (rule runs_to_weaken [OF Cons.IH [OF u(2,3)]]) (use u(1) in auto)
  qed
qed

lemma fifo:
  assumes "inv s L r ts port q" "distinct ms" "\<forall>m \<in> set ms. unlinked L m \<and> m \<notin> ts" "nest_room 2 s"
  shows "runs_to (seqM (send_msgs send port ms) (get_msgs get port (length q + length ms))) s
     (\<lambda>ps u. ps = map Obj (q @ ms) \<and> (\<exists>L'. inv u L' r ts port []))"
  unfolding runs_to_seqM
proof (rule runs_to_weaken [OF send_all_law [OF assms]])
  fix x u assume "\<exists>L'. inv u L' r ts port (q @ ms) \<and> id_nestcnt u = id_nestcnt s"
  then obtain L' where "inv u L' r ts port (q @ ms)" "nest_room 1 u"
    using assms(4) by (auto simp: nest_room_def)
  from get_all_law [OF this] show "runs_to (get_msgs get port (length q + length ms)) u
      (\<lambda>ps u. ps = map Obj (q @ ms) \<and> (\<exists>L'. inv u L' r ts port []))" by simp
qed

end

interpretation mb: mailbox port_ok msgport_send msgport_get
  by unfold_locales (simp add: port_ok_def, (rule msgport_send_ok msgport_get_ok, assumption+)+)

section \<open>Waiting at a port\<close>

lemma port_empty_next:
  assumes "lists_ok h L" "L port = Some q"
  shows "runs_to (list_is_empty port) h (\<lambda>e h'. e = (q = []) \<and> h' = h)"
    "runs_to (get_next (Head port)) h (\<lambda>m h'. m = after port q \<and> h' = h)"
proof -
  have d: "dll h port q" by (rule lists_ok_dll [OF assms])
  show "runs_to (list_is_empty port) h (\<lambda>e h'. e = (q = []) \<and> h' = h)"
    by (simp add: runs_to_def list_is_empty_dll [OF d])
  show "runs_to (get_next (Head port)) h (\<lambda>m h'. m = after port q \<and> h' = h)"
    using dll_ends(1) [OF d] by (simp add: runs_to_def get_next_def run_apply)
qed

text \<open>The outcome of waiting at a port in state \<open>s\<close> with saved nesting count \<open>n\<close>.\<close>

definition port_wait_post ::
  "kstate \<Rightarrow> lists \<Rightarrow> addr \<Rightarrow> addr list \<Rightarrow> addr list \<Rightarrow> Signals \<Rightarrow> int \<Rightarrow> port_result \<Rightarrow> kstate \<Rightarrow> bool" where
  "port_wait_post s L r rs ws g n v u = (v = PortBlocked (to_int16 n)
     \<and> kern u (L(waiting \<mapsto> ws @ [r])) r rs (ws @ [r]) \<and> pendsv u \<and> id_nestcnt u = - 1
     \<and> tk_sig_wait (tasks u (Obj r)) = g \<and> tk_sig_recvd (tasks u (Obj r)) = tk_sig_recvd (tasks s (Obj r)) AND NOT g
     \<and> same_store s u)"

lemma loop_found:
  assumes k: "kern s L r rs ws" and q: "L port = Some (m # q)" and n: "0 \<le> id_nestcnt s" "id_nestcnt s \<le> INT32_MAX"
  shows "runs_to (msgport_loop (Suc f) port) s (\<lambda>v u. v = GotMessage (Obj m)
     \<and> u = s\<lparr>id_nestcnt := id_nestcnt s - 1, primask := primask s \<and> 1 \<le> id_nestcnt s\<rparr>)"
proof -
  note e = port_empty_next [OF kern_lists(1) [OF k] q]
  show ?thesis
    using n by (auto simp: run_simps after_def intro!: runs_to_weaken [OF e(1)] runs_to_weaken [OF e(2)])
qed

lemma loop_block:
  assumes k: "kern s L r rs ws" and r: "r \<notin> set rs" "r \<notin> set ws" "r \<noteq> init_addr"
    and q: "L port = Some []" and n: "nest_room 1 s"
    and g: "mp_signal (ports s port) AND tk_sig_recvd (tasks s (Obj r)) = 0"
  shows "runs_to (msgport_loop (Suc f) port) s
     (\<lambda>v u. port_wait_post s L r rs ws (mp_signal (ports s port)) (id_nestcnt s + 1) v u)"
proof -
  let ?g = "mp_signal (ports s port)" and ?T = "tasks s (Obj r)"
  have x: "tk_sig_recvd ?T AND NOT ?g = tk_sig_recvd ?T"
    using g by (auto simp: bit_eq_iff bit_simps)
  have w: "runs_to (signal_wait ?g) s (\<lambda>w u. runs_to
      (case w of Returned _ \<Rightarrow> msgport_loop f port | Blocked n \<Rightarrow> ret (PortBlocked n)) u
      (\<lambda>v u. port_wait_post s L r rs ws ?g (id_nestcnt s + 1) v u))"
    by (rule runs_to_weaken [OF signal_wait_kern [OF k r n, of ?g]])
      (use g x in \<open>auto simp: wait_post_def Let_def port_wait_post_def run_simps\<close>)
  show ?thesis
    unfolding msgport_loop.simps runs_to_bindM runs_to_in_nodes
    by (rule runs_to_weaken [OF port_empty_next(1) [OF kern_lists(1) [OF k] q]])
      (use w in \<open>auto simp: run_simps\<close>)
qed

lemma loop_empty:
  assumes k: "kern s L r rs ws" and r: "r \<notin> set rs" "r \<notin> set ws" "r \<noteq> init_addr"
    and q: "L port = Some []" and n: "nest_room 1 s"
  shows "runs_to (msgport_loop 2 port) s
     (\<lambda>v u. port_wait_post s L r rs ws (mp_signal (ports s port)) (id_nestcnt s + 1) v u)"
proof (cases "mp_signal (ports s port) AND tk_sig_recvd (tasks s (Obj r)) = 0")
  case True
  then show ?thesis using loop_block [OF k r q n True, of 1] by (simp add: numeral_2_eq_2)
next
  case False
  let ?g = "mp_signal (ports s port)" and ?T = "tasks s (Obj r)"
  have x: "?g AND (tk_sig_recvd ?T AND NOT (?g AND tk_sig_recvd ?T)) = 0"
    "tk_sig_recvd ?T AND NOT (?g AND tk_sig_recvd ?T) = tk_sig_recvd ?T AND NOT ?g"
    "tk_sig_recvd ?T AND NOT ?g AND NOT ?g = tk_sig_recvd ?T AND NOT ?g"
    by (auto simp: bit_eq_iff bit_simps)
  have again: "runs_to (msgport_loop (Suc 0) port) u (\<lambda>v u. port_wait_post s L r rs ws ?g (id_nestcnt s + 1) v u)"
    if u: "wait_post s L r rs ws ?g (id_nestcnt s + 1) (Returned y) u" for u y
  proof -
    have ku: "kern u L r rs ws" "same_store s u" "id_nestcnt u = id_nestcnt s"
      "tk_sig_recvd (tasks u (Obj r)) = tk_sig_recvd ?T AND NOT (?g AND tk_sig_recvd ?T)"
      using u False by (auto simp: wait_post_def Let_def consume_def split: if_splits)
    have p: "ports u = ports s" using ku(2) by (simp add: same_store_def)
    have "runs_to (msgport_loop (Suc 0) port) u
        (\<lambda>v w. port_wait_post u L r rs ws (mp_signal (ports u port)) (id_nestcnt u + 1) v w)"
      using loop_block [OF ku(1) r q, of 0] n ku x p by (simp add: nest_room_def)
    then show ?thesis
      by (rule runs_to_weaken)
        (use ku p x in \<open>auto simp: port_wait_post_def intro: same_store_trans\<close>)
  qed
  have w: "runs_to (signal_wait ?g) s (\<lambda>w u. runs_to
      (case w of Returned _ \<Rightarrow> msgport_loop (Suc 0) port | Blocked n \<Rightarrow> ret (PortBlocked n)) u
      (\<lambda>v u. port_wait_post s L r rs ws ?g (id_nestcnt s + 1) v u))"
    by (rule runs_to_weaken [OF signal_wait_kern [OF k r n, of ?g]])
      (use False again in \<open>auto simp: wait_post_def [of _ _ _ _ _ _ _ "Blocked _"] Let_def split: wait_result.split if_splits\<close>)
  show ?thesis
    unfolding numeral_2_eq_2 msgport_loop.simps(2) [of "Suc 0"] runs_to_bindM runs_to_in_nodes
    by (rule runs_to_weaken [OF port_empty_next(1) [OF kern_lists(1) [OF k] q]])
      (use w in \<open>auto simp: run_simps simp del: msgport_loop.simps\<close>)
qed

section \<open>Properties\<close>

text \<open>The demonstration system with a port at 60 of task 7 and one at 61 of task 5; every message is answered at 61.\<close>

definition demo_port :: kstate where
  "demo_port = demo_state\<lparr>ports := (\<lambda>p. \<lparr>mp_task = Obj (if p = 60 then 7 else 5), mp_signal = 0x10,
     mp_action = MSGPORT_SIGNAL\<rparr>), msgs := (\<lambda>_. \<lparr>ms_reply_port = Some 61\<rparr>)\<rparr>"

lemma demo_port_fields [simp]:
  "nodes demo_port = demo_nodes" "tasks demo_port = demo_tasks" "running demo_port = Obj 5"
  "id_nestcnt demo_port = - 1" "\<not> primask demo_port" "\<not> pendsv demo_port"
  "ports demo_port p = \<lparr>mp_task = Obj (if p = 60 then 7 else 5), mp_signal = 0x10, mp_action = MSGPORT_SIGNAL\<rparr>"
  "msgs demo_port m = \<lparr>ms_reply_port = Some 61\<rparr>"
  by (simp_all add: demo_port_def)

lemma demo_port_kern: "kern demo_port demo_lists 5 [6, 0] [7]"
  by (rule kern_cong [OF demo_kern]) (simp_all add: irq_ok_def)

lemma demo_port_lists: "demo_lists 60 = Some []" "demo_lists 61 = Some []" "(60 :: addr) \<noteq> ready" "(60 :: addr) \<noteq> waiting"
    "(61 :: addr) \<noteq> ready" "(61 :: addr) \<noteq> waiting"
  by (simp_all add: demo_lists_def ready_def waiting_def)

lemma demo_port_ok: "port_ok demo_port demo_lists 5 {0, 5, 6, 7} 60 []" "port_ok demo_port demo_lists 5 {0, 5, 6, 7} 61 []"
proof -
  have "insert 5 (set [6, 0] \<union> set [7]) = {0, 5, 6, 7 :: addr}" by auto
  then have "alive demo_port demo_lists 5 {0, 5, 6, 7}" using aliveI [OF demo_port_kern] by simp
  then show "port_ok demo_port demo_lists 5 {0, 5, 6, 7} 60 []" "port_ok demo_port demo_lists 5 {0, 5, 6, 7} 61 []"
    by (simp_all add: port_ok_def demo_port_lists)
qed

lemma demo_port_room: "nest_room 2 demo_port" "nest_room 1 demo_port"
  by (simp_all add: nest_room_def INT32_MAX_def)

text \<open>
  C8: A port delivers every message once and in order.  Whatever is on the port's list and
  whatever messages are then sent, each send returns, and getting as many messages as there
  are returns exactly these, oldest first, and leaves the port empty.
\<close>

theorem msgport_fifo:
  assumes "port_ok s L r ts port q" and "distinct ms" and "\<forall>m \<in> set ms. unlinked L m \<and> m \<notin> ts" and "nest_room 2 s"
  shows "runs_to (seqM (send_msgs msgport_send port ms) (get_msgs msgport_get port (length q + length ms))) s
     (\<lambda>ps u. ps = map Obj (q @ ms) \<and> (\<exists>L'. port_ok u L' r ts port []))"
  by (rule mb.fifo [OF assms])

theorem msgport_fifo_witness:
  "runs_to (seqM (send_msgs msgport_send 60 [70, 71])
       (get_msgs msgport_get 60 (length ([] :: addr list) + length [70, 71 :: addr]))) demo_port
     (\<lambda>ps u. ps = map Obj ([] @ [70, 71]) \<and> (\<exists>L'. port_ok u L' 5 {0, 5, 6, 7} 60 []))"
  by (rule msgport_fifo [OF demo_port_ok(1) _ _ demo_port_room(1)]) (simp_all add: demo_unlinked)

text \<open>
  C38: \<open>msgport_wait\<close> by the running task.  If the port has a message it returns the oldest one
  without removing it and changes nothing.  If the port is empty it blocks on the port's
  signal, also when that signal was left over from an earlier message: a left-over
  signal is consumed and the loop goes round once more.  It never spins.
\<close>

theorem msgport_wait_outcome:
  assumes "kern s L r rs ws" and "r \<notin> set rs" and "r \<notin> set ws" and "r \<noteq> init_addr" and "nest_room 2 s"
    and "L port = Some q"
  shows "runs_to (msgport_wait port) s (\<lambda>v u. case q of
       m # _ \<Rightarrow> v = GotMessage (Obj m) \<and> u = s
     | [] \<Rightarrow> v = PortBlocked (to_int16 (id_nestcnt s + 2)) \<and> pendsv u
         \<and> kern u (L(waiting \<mapsto> ws @ [r])) r rs (ws @ [r]) \<and> id_nestcnt u = - 1
         \<and> tk_sig_wait (tasks u (Obj r)) = mp_signal (ports s port)
         \<and> tk_sig_recvd (tasks u (Obj r)) = tk_sig_recvd (tasks s (Obj r)) AND NOT (mp_signal (ports s port)))"
proof -
  have n1: "nest_room 1 s" using assms(5) by (rule nest_room_mono) simp
  have i: "irq_ok s" by (rule kern_lists(5) [OF assms(1)])
  note k = kern_masked [OF assms(1)]
  have m: "0 \<le> id_nestcnt (masked s)" "id_nestcnt (masked s) \<le> INT32_MAX" "nest_room 1 (masked s)"
    "id_nestcnt (masked s) = id_nestcnt s + 1" "primask (masked s)"
    using assms(5) irq_ok_range [OF i] by (simp_all add: masked_def nest_room_def int32_bounds)
  have id: "(masked s)\<lparr>id_nestcnt := id_nestcnt s, primask := primask s\<rparr> = s" by (simp add: masked_def)
  show ?thesis
  proof (cases q)
    case Nil
    then show ?thesis
      unfolding msgport_wait_def runs_to_seqM enter_critical [OF i n1]
      by (intro runs_to_weaken [OF loop_empty [OF k assms(2-4) _ m(3)]])
        (use assms(6) m in \<open>auto simp: port_wait_post_def add.commute\<close>)
  next
    case (Cons x xs)
    then show ?thesis
      unfolding msgport_wait_def runs_to_seqM enter_critical [OF i n1] numeral_2_eq_2
      by (intro runs_to_weaken [OF loop_found [OF k _ m(1,2)]])
        (use assms(6) m id in \<open>auto simp: irq_ok_primask [OF i]\<close>)
  qed
qed

theorem msgport_wait_outcome_witness:
  "runs_to (msgport_wait 61) demo_port (\<lambda>v u. case [] of
       m # _ \<Rightarrow> v = GotMessage (Obj m) \<and> u = demo_port
     | [] \<Rightarrow> v = PortBlocked (to_int16 (id_nestcnt demo_port + 2)) \<and> pendsv u
         \<and> kern u (demo_lists(waiting \<mapsto> [7] @ [5])) 5 [6, 0] ([7] @ [5]) \<and> id_nestcnt u = - 1
         \<and> tk_sig_wait (tasks u (Obj 5)) = mp_signal (ports demo_port 61)
         \<and> tk_sig_recvd (tasks u (Obj 5)) = tk_sig_recvd (tasks demo_port (Obj 5)) AND NOT (mp_signal (ports demo_port 61)))"
  by (rule msgport_wait_outcome [OF demo_port_kern _ _ _ demo_port_room(1)])
    (simp_all add: init_addr_def demo_port_lists)

text \<open>A message to the port that a more urgent task waits on: the switch runs it, and its \<open>signal_wait\<close> returns.\<close>

lemma msgport_send_resumes:
  assumes k: "kern s L r rs ws" and p: "\<not> pendsv s" "\<not> primask s" and w: "w \<in> set ws" "prio_of (nodes s) r < prio_of (nodes s) w"
    and l: "port \<noteq> ready" "port \<noteq> waiting" "L port = Some q"
    and a: "mp_task (ports s port) = Obj w" "mp_action (ports s port) = MSGPORT_SIGNAL"
      "mp_signal (ports s port) AND tk_sig_wait (tasks s (Obj w)) \<noteq> 0"
    and m: "unlinked L m" "m \<noteq> r" and f: "frame_fits (psp - 32) (tk_context (tasks s (Obj r)))" and n: "0 \<le> n" "n \<le> INT32_MAX"
  shows "runs_to (seqM (msgport_send port (Obj m)) (bindM (PendSV_Handler psp) (\<lambda>_. signal_wait_resume (tk_sig_wait (tasks s (Obj w))) n))) s
     (\<lambda>v u. \<exists>h. same_data (nodes s) h \<and> woken_post (s\<lparr>nodes := h\<rparr>) (L(port \<mapsto> q @ [m])) r w (mp_signal (ports s port)) n v u)"
  unfolding runs_to_seqM
proof (rule runs_to_weaken [OF msgport_send_signals [OF k l a(1) _ a(2) m]], goal_cases)
  case 1
  then show ?case using w(1) by simp
next
  case 2
  then show ?case using p(2) kern_lists(5) [OF k] by (simp add: nest_room_def irq_ok_def INT32_MAX_def)
next
  case (3 x u1)
  then obtain h where h: "kern (s\<lparr>nodes := h\<rparr>) (L(port \<mapsto> q @ [m])) r rs ws" "same_data (nodes s) h"
    "send_post (s\<lparr>nodes := h\<rparr>) (L(port \<mapsto> q @ [m])) r rs ws w (mp_signal (ports s port)) u1" by blast
  have "runs_to (bindM (PendSV_Handler psp) (\<lambda>_. signal_wait_resume (tk_sig_wait (tasks s (Obj w))) n)) u1
      (\<lambda>v u. woken_post (s\<lparr>nodes := h\<rparr>) (L(port \<mapsto> q @ [m])) r w (mp_signal (ports s port)) n v u)"
    using woken_runs [OF h(1) _ _ w(1) _ _ _ n h(3)] p w(2) a(3) f same_data_prio_of [OF h(2)] by simp
  then show ?case by (rule runs_to_weaken) (use h(2) in blast)
qed

text \<open>
  C7: A message reaches the task that waits for it.  Task \<open>w\<close> owns the empty port and is blocked
  in \<open>msgport_wait\<close> on its signal; the running task, of lower priority, sends a message to the
  port.  The send returns, the context switch it requests runs \<open>w\<close>, and \<open>msgport_wait\<close>
  returns this message in \<open>w\<close>, with the nesting count \<open>w\<close> had before its call.
\<close>

theorem msgport_send_wakes_receiver:
  assumes "kern s L r rs ws" and "\<not> pendsv s" and "\<not> primask s" and "w \<in> set ws"
    and "prio_of (nodes s) r < prio_of (nodes s) w"
    and "port \<noteq> ready" and "port \<noteq> waiting" and "L port = Some []"
    and "mp_task (ports s port) = Obj w" and "mp_action (ports s port) = MSGPORT_SIGNAL"
    and "mp_signal (ports s port) \<noteq> 0" and "tk_sig_wait (tasks s (Obj w)) = mp_signal (ports s port)"
    and "unlinked L m" and "m \<noteq> r"
    and "frame_fits (psp - 32) (tk_context (tasks s (Obj r)))" and "1 \<le> n" and "n \<le> INT32_MAX"
  shows "runs_to (seqM (msgport_send port (Obj m))
       (bindM (PendSV_Handler psp) (\<lambda>_. msgport_wait_resume port (mp_signal (ports s port)) n))) s
     (\<lambda>v u. v = GotMessage (Obj m) \<and> running u = Obj w \<and> id_nestcnt u = n - 2
        \<and> (\<exists>L' rs' ws'. kern u L' w rs' ws' \<and> r \<in> set rs' \<and> L' port = Some [m]))"
proof -
  let ?g = "mp_signal (ports s port)" and ?L = "L(port \<mapsto> [] @ [m])"
  have found: "runs_to (msgport_loop 2 port) u (\<lambda>v u. v = GotMessage (Obj m) \<and> running u = Obj w \<and> id_nestcnt u = n - 2
        \<and> (\<exists>L' rs' ws'. kern u L' w rs' ws' \<and> r \<in> set rs' \<and> L' port = Some [m]))"
    if u: "woken_post (s\<lparr>nodes := h\<rparr>) ?L r w ?g n v u" for h v u
  proof -
    obtain L' rs' ws' where k: "kern u L' w rs' ws'" "r \<in> set rs'" "L' port = Some [m]" and n: "id_nestcnt u = n - 1"
      using u assms(6,7) by (auto simp: woken_post_def other_lists_def)
    have "kern (u\<lparr>id_nestcnt := id_nestcnt u - 1, primask := primask u \<and> 1 \<le> id_nestcnt u\<rparr>) L' w rs' ws'"
      by (rule kern_cong [OF k(1)]) (use n assms(16) kern_lists(5) [OF k(1)] in \<open>auto simp: irq_ok_def\<close>)
    then show ?thesis
      unfolding numeral_2_eq_2
      by (intro runs_to_weaken [OF loop_found [OF k(1,3)]])
        (use n assms(16,17) k kern_lists(4) [OF k(1)] in auto)
  qed
  have woken: "runs_to (seqM (msgport_send port (Obj m)) (bindM (PendSV_Handler psp) (\<lambda>_. signal_wait_resume ?g n))) s
     (\<lambda>v u. \<exists>h. same_data (nodes s) h \<and> woken_post (s\<lparr>nodes := h\<rparr>) ?L r w ?g n v u)"
    using msgport_send_resumes [OF assms(1-10) _ assms(13-15) _ assms(17)] assms(11,12,16) by simp
  show ?thesis
    using woken unfolding msgport_wait_resume_def runs_to_seqM runs_to_bindM
    by (elim runs_to_weaken exE conjE) (frule woken_returned, elim exE, hypsubst, simp only: wait_result.case, rule found)
qed

theorem msgport_send_wakes_receiver_witness:
  "runs_to (seqM (msgport_send 60 (Obj 70))
       (bindM (PendSV_Handler 0x20000300) (\<lambda>_. msgport_wait_resume 60 (mp_signal (ports demo_port 60)) 1))) demo_port
     (\<lambda>v u. v = GotMessage (Obj 70) \<and> running u = Obj 7 \<and> id_nestcnt u = 1 - 2
        \<and> (\<exists>L' rs' ws'. kern u L' 7 rs' ws' \<and> 5 \<in> set rs' \<and> L' 60 = Some [70]))"
  by (rule msgport_send_wakes_receiver [OF demo_port_kern])
    (simp_all add: demo_port_lists demo_prio_of demo_order demo_unlinked demo_tasks_def demo_task_def blank_task_def
      frame_fits_def SIZEOF_StackFrame_def INT32_MAX_def)

text \<open>
  \<open>msgport_reply\<close> sends the message back.  A message that was sent to a port, got from it and
  replied to is the newest one on the list of its reply port, whose task has received the
  signal of that port; a message without reply port stops the system.
\<close>

theorem msgport_send_get_reply:
  assumes "port_ok s L r ts port []" and "port_ok s L r ts p q" and "port \<noteq> p"
    and "ms_reply_port (msgs s (Obj m)) = Some p" and "unlinked L m" and "m \<notin> ts" and "nest_room 2 s"
  shows "runs_to (seqM (msgport_send port (Obj m)) (bindM (msgport_get port) msgport_reply)) s (\<lambda>_ u. \<exists>L'.
     port_ok u L' r ts p (q @ [m]) \<and> L' port = Some []
     \<and> recorded s u (\<lambda>b. port_sends (ports s port) b OR port_sends (ports s p) b))
   \<and> (ms_reply_port (msgs s (Obj x)) = None \<longrightarrow> msgport_reply (Obj x) s = Inl AssertFailed)"
proof
  show "ms_reply_port (msgs s (Obj x)) = None \<longrightarrow> msgport_reply (Obj x) s = Inl AssertFailed"
    by (simp add: msgport_reply_def run_apply get_msg_def)
  have pq: "p \<noteq> ready" "p \<noteq> waiting" "L p = Some q" using assms(2) by (simp_all add: port_ok_def)
  show "runs_to (seqM (msgport_send port (Obj m)) (bindM (msgport_get port) msgport_reply)) s (\<lambda>_ u. \<exists>L'.
     port_ok u L' r ts p (q @ [m]) \<and> L' port = Some []
     \<and> recorded s u (\<lambda>b. port_sends (ports s port) b OR port_sends (ports s p) b))"
    unfolding runs_to_seqM runs_to_bindM
  proof (rule runs_to_weaken [OF msgport_send_ok [OF assms(1,5-7)]], elim exE conjE)
    fix x u L1
    assume u: "port_ok u L1 r ts port ([] @ [m])" "port_frame s L port u L1" "recorded s u (port_sends (ports s port))"
    have n: "nest_room 1 u" using assms(7) u(2) by (simp add: port_frame_def same_defs nest_room_def)
    show "runs_to (msgport_get port) u (\<lambda>x t. runs_to (msgport_reply x) t (\<lambda>_ u. \<exists>L'.
        port_ok u L' r ts p (q @ [m]) \<and> L' port = Some []
        \<and> recorded s u (\<lambda>b. port_sends (ports s port) b OR port_sends (ports s p) b)))"
    proof (rule runs_to_weaken [OF msgport_get_ok [OF u(1) n]], elim conjE)
      fix v w
      assume v: "v = (case [] @ [m] of [] \<Rightarrow> NULL | m # _ \<Rightarrow> Obj m)"
        and w: "port_ok w (L1(port \<mapsto> tl ([] @ [m]))) r ts port (tl ([] @ [m]))"
          "port_frame u L1 port w (L1(port \<mapsto> tl ([] @ [m])))" "tasks w = tasks u"
      let ?L = "L1(port \<mapsto> [])"
      have o: "same_objs s w" using u(2) w(2) by (auto simp: port_frame_def intro: same_objs_trans)
      then have f: "ports w = ports s" "msgs w = msgs s" "nest_room 2 w"
        using assms(7) by (simp_all add: same_defs nest_room_def)
      have Lp: "?L p = Some q" using u(2) pq assms(3) by (simp add: port_frame_def)
      have pw: "port_ok w ?L r ts p q" using assms(2) w(1) Lp by (simp add: port_ok_def f)
      have "unlinked ?L m"
        using mb.unlinked_after [of w ?L r ts port "[]" s L m] u(2) w(1) assms(5,6) o
        by (auto simp: port_frame_def)
      then have "runs_to (msgport_send p (Obj m)) w (\<lambda>_ u. \<exists>L'. port_ok u L' r ts p (q @ [m])
          \<and> port_frame w ?L p u L' \<and> recorded w u (port_sends (ports w p)))"
        by (rule msgport_send_ok [OF pw _ assms(6) f(3)])
      moreover have "recorded s w (port_sends (ports s port))" using u(3) w(3) by (simp add: recorded_def)
      moreover have "L' port = Some []" if "port_frame w ?L p y L'" for y L'
        using that assms(1,3) by (simp add: port_frame_def port_ok_def)
      ultimately show "runs_to (msgport_reply v) w (\<lambda>_ u. \<exists>L'. port_ok u L' r ts p (q @ [m]) \<and> L' port = Some []
          \<and> recorded s u (\<lambda>b. port_sends (ports s port) b OR port_sends (ports s p) b))"
        using v assms(4) f
        by (auto simp: msgport_reply_def run_simps intro: recorded_trans elim!: runs_to_weaken)
    qed
  qed
qed

theorem msgport_send_get_reply_witness:
  "runs_to (seqM (msgport_send 60 (Obj 70)) (bindM (msgport_get 60) msgport_reply)) demo_port (\<lambda>_ u. \<exists>L'.
     port_ok u L' 5 {0, 5, 6, 7} 61 ([] @ [70]) \<and> L' 60 = Some []
     \<and> recorded demo_port u (\<lambda>b. port_sends (ports demo_port 60) b OR port_sends (ports demo_port 61) b))"
  by (rule msgport_send_get_reply [THEN conjunct1, OF demo_port_ok(1,2) _ _ _ _ demo_port_room(1)]) (simp_all add: demo_unlinked)

text \<open>
  \<open>msgport_init\<close> by the running task, on a list object that is not one of the scheduler's:
  if a signal is free the port is empty and belongs to the running task, its signal is one
  bit that was free and is now allocated, and the invariant holds.
\<close>

theorem msgport_init_ok:
  assumes "kern s L r rs ws" and "r \<notin> set rs" and "r \<notin> set ws" and "nest_room 1 s"
    and "port \<noteq> ready" and "port \<noteq> waiting" and "\<exists>k < 16. \<not> bit (tk_sig_alloc (tasks s (Obj r))) k"
  shows "runs_to (msgport_init port) s (\<lambda>_ u. \<exists>k < 16. kern u (L(port \<mapsto> [])) r rs ws
     \<and> ports u port = \<lparr>mp_task = Obj r, mp_signal = sig_mask k, mp_action = MSGPORT_SIGNAL\<rparr>
     \<and> \<not> bit (tk_sig_alloc (tasks s (Obj r))) k
     \<and> tk_sig_alloc (tasks u (Obj r)) = tk_sig_alloc (tasks s (Obj r)) OR sig_mask k
     \<and> (\<exists>T. u = s\<lparr>tasks := (tasks s)(Obj r := T), ports := (ports s)(port := ports u port), nodes := nodes u\<rparr>)
     \<and> same_data (nodes s) (nodes u))"
proof -
  let ?A = "tk_sig_alloc (tasks s (Obj r))" and ?v = "alloc_result (- 1) (tk_sig_alloc (tasks s (Obj r)))"
  have g: "- 1 < SIGNALS_WIDTH" by (simp add: SIGNALS_WIDTH_def)
  have ne: "?v \<noteq> - 1" using assms(7) by (auto simp: alloc_result_def)
  note f = alloc_result_free [OF order_refl g ne]
  have p: "p\<lparr>mp_signal := a, mp_action := b, mp_task := c\<rparr> = \<lparr>mp_task = c, mp_signal = a, mp_action = b\<rparr>"
    for p :: MsgPort and a b c by (cases p) simp
  show ?thesis
    unfolding msgport_init_def runs_to_bindM
  proof (rule runs_to_weaken [OF signal_allocate_kern [OF assms(1-4) order_refl g]], elim conjE)
    fix v u
    assume v: "v = ?v" and k: "kern u L r rs ws"
      and u: "u = s\<lparr>tasks := (tasks s)(Obj r := allocated (sig_mask (alloc_target (- 1) ?A)) (tasks s (Obj r)))\<rparr>"
    let ?p = "\<lparr>mp_task = Obj r, mp_signal = sig_mask (nat v), mp_action = MSGPORT_SIGNAL\<rparr>"
    let ?w = "\<lambda>h. u\<lparr>ports := (ports u)(port := ?p), nodes := h\<rparr>"
    have "kern (?w h) (L(port \<mapsto> [])) r rs ws" if "lists_ok h (L(port \<mapsto> []))" "same_data (nodes u) h" for h
      by (rule kern_other_list [OF k assms(5,6)]) (use that kern_lists(5) [OF k] in \<open>auto simp: irq_ok_def\<close>)
    then have init: "runs_to (list_init port) (nodes u) (\<lambda>_ h. kern (?w h) (L(port \<mapsto> [])) r rs ws \<and> same_data (nodes u) h)"
      using lc.init_law [OF kern_lists(1) [OF k], of port] by (auto elim!: runs_to_weaken)
    have "tk_sig_alloc (tasks u (Obj r)) = ?A OR sig_mask (nat v)"
      using f(4) v by (simp add: u allocated_def)
    then have "runs_to (list_init port) (nodes u) (\<lambda>_ h. \<exists>k<16. kern (?w h) (L(port \<mapsto> [])) r rs ws
        \<and> ports (?w h) port = \<lparr>mp_task = Obj r, mp_signal = sig_mask k, mp_action = MSGPORT_SIGNAL\<rparr>
        \<and> \<not> bit ?A k \<and> tk_sig_alloc (tasks (?w h) (Obj r)) = ?A OR sig_mask k
        \<and> (\<exists>T. ?w h = s\<lparr>tasks := (tasks s)(Obj r := T), ports := (ports s)(port := ports (?w h) port), nodes := nodes (?w h)\<rparr>)
        \<and> same_data (nodes s) (nodes (?w h)))"
      by (intro runs_to_weaken [OF init] exI [of _ "nat v"]) (use f(1-3) v u in auto)
    then show "runs_to (seqM (assertM (- 1 \<noteq> v))
         (seqM (set_port port (\<lambda>p. p\<lparr>mp_signal := sig_mask (nat v)\<rparr>))
           (seqM (set_port port (mp_action_update (\<lambda>_. MSGPORT_SIGNAL)))
             (bindM (gets running) (\<lambda>r. seqM (set_port port (mp_task_update (\<lambda>_. r))) (in_nodes (list_init port))))))) u
       (\<lambda>_ u. \<exists>k<16. kern u (L(port \<mapsto> [])) r rs ws
        \<and> ports u port = \<lparr>mp_task = Obj r, mp_signal = sig_mask k, mp_action = MSGPORT_SIGNAL\<rparr>
        \<and> \<not> bit ?A k \<and> tk_sig_alloc (tasks u (Obj r)) = ?A OR sig_mask k
        \<and> (\<exists>T. u = s\<lparr>tasks := (tasks s)(Obj r := T), ports := (ports s)(port := ports u port), nodes := nodes u\<rparr>)
        \<and> same_data (nodes s) (nodes u))"
      using ne v by (simp add: run_simps p kern_lists(4) [OF k])
  qed
qed

theorem msgport_init_ok_witness:
  "runs_to (msgport_init 62) demo_state (\<lambda>_ u. \<exists>k < 16. kern u (demo_lists(62 \<mapsto> [])) 5 [6, 0] [7]
     \<and> ports u 62 = \<lparr>mp_task = Obj 5, mp_signal = sig_mask k, mp_action = MSGPORT_SIGNAL\<rparr>
     \<and> \<not> bit (tk_sig_alloc (tasks demo_state (Obj 5))) k
     \<and> tk_sig_alloc (tasks u (Obj 5)) = tk_sig_alloc (tasks demo_state (Obj 5)) OR sig_mask k
     \<and> (\<exists>T. u = demo_state\<lparr>tasks := (tasks demo_state)(Obj 5 := T), ports := (ports demo_state)(62 := ports u 62), nodes := nodes u\<rparr>)
     \<and> same_data (nodes demo_state) (nodes u))"
  by (rule msgport_init_ok [OF demo_kern _ _ demo_room])
    (simp_all add: ready_def waiting_def demo_tasks_def demo_task_def exI [of _ 1] bit_numeral_rec)

end
