(* ===== verification/TimerC.thy ===== *)
theory TimerC
  imports MsgC
begin

unbundle bit_operations_syntax

text \<open>
  Timers: \<open>src/timer.c\<close> and the clock interrupt of \<open>platform.c\<close>.  The queue of pending timers is
  the list \<open>timers\<close>; the fields of a timer are in \<open>tmrs\<close>, its links in \<open>nodes\<close>.
\<close>

section \<open>The code\<close>

definition get_timer :: "ptr \<Rightarrow> (Timer \<Rightarrow> 'a) \<Rightarrow> 'a K" where
  "get_timer p f = (\<lambda>s. if p = NULL then Inl NullDeref else Inr (f (tmrs s p), s))"

definition set_timer :: "ptr \<Rightarrow> (Timer \<Rightarrow> Timer) \<Rightarrow> unit K" where
  "set_timer p f = (\<lambda>s. if p = NULL then Inl NullDeref else Inr ((), s\<lparr>tmrs := (tmrs s)(p := f (tmrs s p))\<rparr>))"

definition timer_get_clock :: "Ticks K" where
  "timer_get_clock = gets timer_now"

definition timer_allocate :: "ptr \<Rightarrow> unit K" where
  "timer_allocate timer =
     bindM (gets running) (\<lambda>r.
     seqM (set_timer timer (\<lambda>t. t\<lparr>tm_task := r\<rparr>)) (
     bindM (signal_allocate (- 1)) (\<lambda>signum.
     seqM (assertM (- 1 \<noteq> signum)) (
     seqM (set_timer timer (\<lambda>t. t\<lparr>tm_signal := sig_mask (nat signum)\<rparr>)) (
     seqM (set_timer timer (\<lambda>t. t\<lparr>tm_op := TIMER_NONE\<rparr>)) (
     set_timer timer (\<lambda>t. t\<lparr>tm_status := TIMER_INITIALIZED\<rparr>)))))))"

definition timer_free :: "ptr \<Rightarrow> unit K" where
  "timer_free timer =
     seqM (set_timer timer (\<lambda>t. t\<lparr>tm_task := NULL\<rparr>)) (
     bindM (get_timer timer tm_signal) (\<lambda>g.
     seqM (signal_free g) (
     seqM (set_timer timer (\<lambda>t. t\<lparr>tm_op := TIMER_NONE\<rparr>)) (
     set_timer timer (\<lambda>t. t\<lparr>tm_status := TIMER_INVALID\<rparr>)))))"

text \<open>The loop of \<open>timer_add\<close>: the first queued timer with a later tick, if there is one.\<close>

partial_function (option) timer_scan ::
  "heap \<Rightarrow> (ptr \<Rightarrow> Timer) \<Rightarrow> Ticks \<Rightarrow> ptr \<Rightarrow> (fault + ptr option) option" where
  "timer_scan h tm tick tnode =
     (if tnode = NULL then Some (Inl NullDeref)
      else if nd_next (h tnode) = NULL then Some (Inr None)
      else if tick < tm_tick (tm tnode) then Some (Inr (Some tnode))
      else timer_scan h tm tick (nd_next (h tnode)))"

definition timer_add :: "ptr \<Rightarrow> unit K" where
  "timer_add timer =
     bindM (get_timer timer tm_op) (\<lambda>op.
     seqM (assertM (TIMER_DELAY = op \<or> TIMER_ALARM = op)) (
     bindM (get_timer timer tm_status) (\<lambda>st.
     seqM (assertM (TIMER_INITIALIZED = st \<or> TIMER_DONE = st \<or> TIMER_ABORTED = st)) (
     seqM (whenM (TIMER_DELAY = op) (
       bindM timer_get_clock (\<lambda>now. set_timer timer (\<lambda>t. t\<lparr>tm_tick := now + tm_delay t\<rparr>)))) (
     bindM (get_timer timer tm_tick) (\<lambda>tick.
     bindM timer_get_clock (\<lambda>now.
     if tick \<le> now then set_timer timer (\<lambda>t. t\<lparr>tm_status := TIMER_ABORTED\<rparr>)
     else
       seqM disable (
       seqM (set_timer timer (\<lambda>t. t\<lparr>tm_status := TIMER_ADDED\<rparr>)) (
       bindM (in_nodes (get_next (Head timers))) (\<lambda>first.
       bindM (gets (\<lambda>s. of_loop (timer_scan (nodes s) (tmrs s) tick first))) (\<lambda>res.
       bindM (lift_result res) (\<lambda>found.
       seqM (case found of
           Some tnode \<Rightarrow> bindM (in_nodes (get_prev tnode)) (\<lambda>p. in_nodes (list_insert timers timer p))
         | None \<Rightarrow> in_nodes (list_add_tail timers timer)) (
       enable)))))))))))))"

definition timer_abort :: "ptr \<Rightarrow> unit K" where
  "timer_abort timer =
     seqM disable (
     bindM (get_timer timer tm_status) (\<lambda>st.
     seqM (whenM (TIMER_ADDED = st) (in_nodes (list_unlink timer))) (
     enable)))"

text \<open>The body and the loop of \<open>timer_poll\<close>.\<close>

definition timer_fire :: "ptr \<Rightarrow> unit K" where
  "timer_fire tnode =
     seqM (in_nodes (list_unlink tnode)) (
     seqM (set_timer tnode (\<lambda>t. t\<lparr>tm_status := TIMER_DONE\<rparr>)) (
     bindM (get_timer tnode tm_task) (\<lambda>task.
     bindM (get_timer tnode tm_signal) (\<lambda>g.
     signal_send task g))))"

partial_function (option) timer_poll_loop :: "Ticks \<Rightarrow> ptr \<Rightarrow> kstate \<Rightarrow> (fault + unit \<times> kstate) option" where
  "timer_poll_loop now tnode s =
     (if tnode = NULL then Some (Inl NullDeref)
      else if nd_next (nodes s tnode) = NULL then Some (Inr ((), s))
      else if now < tm_tick (tmrs s tnode) then Some (Inr ((), s))
      else case timer_fire tnode s of
        Inl e \<Rightarrow> Some (Inl e)
      | Inr (_, t) \<Rightarrow> timer_poll_loop now (nd_next (nodes t tnode)) t)"

definition timer_poll :: "unit K" where
  "timer_poll =
     bindM timer_get_clock (\<lambda>now.
     seqM disable (
     bindM (in_nodes (get_next (Head timers))) (\<lambda>tnode.
     seqM (\<lambda>s. of_loop (timer_poll_loop now tnode s)) (
     enable))))"

text \<open>\<open>timer_delay\<close> with its local variable \<open>timer\<close>; the task may block in \<open>signal_wait\<close>.\<close>

datatype delay_result = Elapsed | DelayBlocked int

definition delay_finish :: "ptr \<Rightarrow> wait_result \<Rightarrow> delay_result K" where
  "delay_finish timer w = (case w of
       Returned _ \<Rightarrow> seqM (timer_free timer) (ret Elapsed)
     | Blocked n \<Rightarrow> ret (DelayBlocked n))"

definition timer_delay :: "ptr \<Rightarrow> Ticks \<Rightarrow> delay_result K" where
  "timer_delay timer ticks =
     seqM (timer_allocate timer) (
     seqM (set_timer timer (\<lambda>t. t\<lparr>tm_op := TIMER_DELAY\<rparr>)) (
     seqM (set_timer timer (\<lambda>t. t\<lparr>tm_delay := ticks\<rparr>)) (
     seqM (timer_add timer) (
     bindM (get_timer timer tm_status) (\<lambda>st.
     if TIMER_ADDED = st then
       bindM (get_timer timer tm_signal) (\<lambda>g. bindM (signal_wait g) (delay_finish timer))
     else seqM (timer_free timer) (ret Elapsed))))))"

definition timer_delay_resume :: "ptr \<Rightarrow> Signals \<Rightarrow> int \<Rightarrow> delay_result K" where
  "timer_delay_resume timer g nestcnt = bindM (signal_wait_resume g nestcnt) (delay_finish timer)"

text \<open>
  The clock interrupt; the argument is what \<open>TIM_GetITStatus\<close> reports.  Starting the
  hardware timer and clearing its interrupt flag are not part of the state.
\<close>

definition TIM2_IRQHandler :: "bool \<Rightarrow> unit K" where
  "TIM2_IRQHandler update =
     whenM update (
     seqM (modify (\<lambda>s. s\<lparr>timer_now := timer_now s + 1\<rparr>)) (
     timer_poll))"

definition timer_init_platform :: "unit K" where
  "timer_init_platform = modify (\<lambda>s. s\<lparr>timer_now := 0\<rparr>)"

definition timer_init :: "unit K" where
  "timer_init = seqM (in_nodes (list_init timers)) timer_init_platform"

lemma runs_to_get_timer [run_simps]: "runs_to (get_timer p f) s P \<longleftrightarrow> p \<noteq> NULL \<and> P (f (tmrs s p)) s"
  by (simp add: runs_to_def get_timer_def)

lemma runs_to_set_timer [run_simps]:
  "runs_to (set_timer p f) s P \<longleftrightarrow> p \<noteq> NULL \<and> P () (s\<lparr>tmrs := (tmrs s)(p := f (tmrs s p))\<rparr>)"
  by (simp add: runs_to_def set_timer_def)

lemma runs_to_timer_get_clock [run_simps]: "runs_to timer_get_clock s P = P (timer_now s) s"
  by (simp add: timer_get_clock_def run_simps)

section \<open>What \<open>signal_send\<close> leaves of the heap\<close>

lemma list_unlink_frame:
  assumes "lists_ok h L" "L l = Some xs" "x \<in> set xs"
  shows "runs_to (list_unlink (Obj x)) h (\<lambda>_ h'. frame h h' (set (cells l xs)))"
proof -
  obtain pre post where xs: "xs = pre @ x # post" using assms(3) by (auto simp: in_set_conv_decomp)
  have "{before l pre, after l post} \<subseteq> set (cells l xs)"
    using before_cases [of l pre] after_cases [of l post] xs by (auto simp: set_cells)
  then show ?thesis
    using list_unlink_dll [of h l pre x post] lists_ok_dll [OF assms(1,2)] xs
    by (auto simp: runs_to_def intro: frame_mono [OF frame_link_out])
qed

lemma list_enqueue_frame:
  assumes "lists_ok h L" "L l = Some xs" "unlinked L n"
  shows "runs_to (list_enqueue l (Obj n)) h (\<lambda>_ h'. frame h h' (insert (Obj n) (set (cells l xs))))"
proof -
  let ?P = "\<lambda>y. nd_prio (h (Obj n)) \<le> nd_prio (h (Obj y))"
  have "{before l (takeWhile ?P xs), Obj n, after l (dropWhile ?P xs)} \<subseteq> insert (Obj n) (set (cells l xs))"
    using before_cases [of l "takeWhile ?P xs"] after_cases [of l "dropWhile ?P xs"]
    by (auto simp: set_cells dest: set_takeWhileD set_dropWhileD)
  then show ?thesis
    using assms by (simp add: runs_to_def list_enqueue_dll [OF lists_ok_dll unlinkedD] frame_mono [OF frame_link_in])
qed

lemma signal_send_frame:
  assumes k: "kern s L r rs ws" and a: "a \<in> insert r (set rs \<union> set ws)" and n: "nest_room 1 s"
  shows "runs_to (signal_send (Obj a) sg) s
     (\<lambda>_ u. frame (nodes s) (nodes u) (set (cells ready rs) \<union> set (cells waiting ws)))"
proof -
  note i = kern_lists(5) [OF k]
  let ?F = "set (cells ready rs) \<union> set (cells waiting ws)"
  show ?thesis
  proof (cases "tk_state (tasks s (Obj a)) = TASK_WAITING \<and> sg AND tk_sig_wait (tasks s (Obj a)) \<noteq> 0")
    case True
    then have w: "a \<in> set ws" using a kern_tasks(1,4) [OF k] by (cases "a \<in> set rs"; cases "a \<in> set ws") auto
    have "runs_to (list_unlink (Obj a)) (nodes s) (\<lambda>_ h1. runs_to (list_enqueue ready (Obj a)) h1
        (\<lambda>_ h. frame (nodes s) h ?F))"
    proof (rule runs_to_weaken [OF runs_to_conj [OF lc.unlink_law [OF kern_lists(1,3) [OF k] w]
          list_unlink_frame [OF kern_lists(1,3) [OF k] w]]], elim conjE)
      fix x h1
      assume h1: "lists_ok h1 (L(waiting \<mapsto> remove1 a ws))" "frame (nodes s) h1 (set (cells waiting ws))"
      have "runs_to (list_enqueue ready (Obj a)) h1 (\<lambda>_ h. frame h1 h (insert (Obj a) (set (cells ready rs))))"
        using lc.unlinked_remove1 [OF kern_lists(1,3) [OF k] w] kern_lists(2) [OF k]
        by (intro list_enqueue_frame [OF h1(1)]) simp_all
      then show "runs_to (list_enqueue ready (Obj a)) h1 (\<lambda>_ h. frame (nodes s) h ?F)"
        by (rule runs_to_weaken) (use h1(2) w in \<open>auto intro!: frame_trans [of _ h1] elim!: frame_mono simp: set_cells\<close>)
    qed
    then show ?thesis
      using True by (simp add: signal_send_def run_simps crit [OF i n] kern_lists(4) [OF k])
  next
    case False
    then show ?thesis
      by (auto simp: signal_send_def run_simps crit [OF i n])
  qed
qed

section \<open>The queue of timers\<close>

text \<open>Timers are queued by ascending tick, which is descending \<open>tick_key\<close>.\<close>

definition tick_key :: "(ptr \<Rightarrow> Timer) \<Rightarrow> addr \<Rightarrow> int" where
  "tick_key tm x = - uint (tm_tick (tm (Obj x)))"

lemma tick_key_le: "tick_key tm x \<le> tick_key tm y \<longleftrightarrow> tm_tick (tm (Obj y)) \<le> tm_tick (tm (Obj x))"
  by (simp add: tick_key_def word_le_def)

definition timer_ok :: "kstate \<Rightarrow> addr set \<Rightarrow> addr \<Rightarrow> bool" where
  "timer_ok s ts x = (tm_status (tmrs s (Obj x)) = TIMER_ADDED \<and> (\<exists>t \<in> ts. tm_task (tmrs s (Obj x)) = Obj t))"

definition timers_ok :: "kstate \<Rightarrow> lists \<Rightarrow> addr \<Rightarrow> addr set \<Rightarrow> addr list \<Rightarrow> bool" where
  "timers_ok s L r ts xs = (alive s L r ts \<and> L timers = Some xs \<and> sorted_prio (tick_key (tmrs s)) xs
     \<and> (\<forall>x \<in> set xs. timer_ok s ts x))"

lemma timer_scan_dll:
  assumes "dll h l (xs @ ys)"
  shows "timer_scan h tm tick (after l ys) = Some (Inr (case dropWhile (\<lambda>y. tm_tick (tm (Obj y)) \<le> tick) ys of
     [] \<Rightarrow> None | y # _ \<Rightarrow> Some (Obj y)))"
  using assms
proof (induction ys arbitrary: xs)
  case Nil
  then show ?case using dll_ends(4) [of h l xs] by (subst timer_scan.simps) simp
next
  case (Cons y ys)
  have "dll h l ((xs @ [y]) @ ys)" using Cons.prems by simp
  then have IH: "timer_scan h tm tick (after l ys) = Some (Inr (case dropWhile (\<lambda>y. tm_tick (tm (Obj y)) \<le> tick) ys of
     [] \<Rightarrow> None | y # _ \<Rightarrow> Some (Obj y)))" by (rule Cons.IH)
  have nx: "nd_next (h (Obj y)) = after l ys" by (rule dll_neighbours(2) [OF Cons.prems])
  show ?case using IH nx by (subst timer_scan.simps) (auto simp: not_le)
qed

text \<open>Inserting before the found timer, or at the end, is insertion by tick.\<close>

lemma timer_insert_lists:
  assumes ok: "lists_ok h L" and l: "L timers = Some xs" and x: "unlinked L x"
  shows "runs_to (case (case dropWhile (\<lambda>y. tm_tick (tm (Obj y)) \<le> tm_tick (tm (Obj x))) xs of
         [] \<Rightarrow> None | y # _ \<Rightarrow> Some (Obj y)) of
       Some tnode \<Rightarrow> bindM (get_prev tnode) (list_insert timers (Obj x))
     | None \<Rightarrow> list_add_tail timers (Obj x)) h
     (\<lambda>_ h'. lists_ok h' (L(timers \<mapsto> enqueue_spec (tick_key tm) x xs)) \<and> same_data h h')"
proof -
  let ?P = "\<lambda>y. tm_tick (tm (Obj y)) \<le> tm_tick (tm (Obj x))"
  have e: "enqueue_spec (tick_key tm) x xs = takeWhile ?P xs @ x # dropWhile ?P xs"
    by (simp add: enqueue_spec_def tick_key_le)
  have d: "dll h timers xs" by (rule lists_ok_dll [OF ok l])
  show ?thesis
  proof (cases "dropWhile ?P xs")
    case Nil
    then have "takeWhile ?P xs = xs" by (metis append_Nil2 takeWhile_dropWhile_id)
    then show ?thesis using lc.add_tail_law [OF ok l x] by (simp only: e Nil list.case option.case)
  next
    case (Cons y ys)
    have split: "xs = takeWhile ?P xs @ y # ys" using Cons by (metis takeWhile_dropWhile_id)
    then have "nd_prev (h (Obj y)) = before timers (takeWhile ?P xs)"
      using dll_neighbours(1) [of h timers "takeWhile ?P xs" y ys] d by simp
    then have "runs_to (bindM (get_prev (Obj y)) (list_insert timers (Obj x))) h Q =
        runs_to (list_insert timers (Obj x) (before timers (takeWhile ?P xs))) h Q" for Q
      by (simp add: runs_to_def bindM_def get_prev_def run_apply)
    then show ?thesis
      using list_insert_lists [OF ok, of timers "takeWhile ?P xs" "y # ys" x] l split x
      by (simp only: e Cons list.case option.case)
  qed
qed

definition added_tick :: "kstate \<Rightarrow> addr \<Rightarrow> Ticks" where
  "added_tick s x = (let T = tmrs s (Obj x) in if tm_op T = TIMER_DELAY then timer_now s + tm_delay T else tm_tick T)"

definition with_timer :: "kstate \<Rightarrow> addr \<Rightarrow> Timer_Status \<Rightarrow> kstate" where
  "with_timer s x st = s\<lparr>tmrs := (tmrs s)(Obj x := (tmrs s (Obj x))\<lparr>tm_tick := added_tick s x, tm_status := st\<rparr>)\<rparr>"

lemma with_timer_simps [simp]:
  "nodes (with_timer s x st) = nodes s" "tasks (with_timer s x st) = tasks s" "running (with_timer s x st) = running s"
  "pendsv (with_timer s x st) = pendsv s" "id_nestcnt (with_timer s x st) = id_nestcnt s"
  "primask (with_timer s x st) = primask s" "irq_ok (with_timer s x st) = irq_ok s" "timer_now (with_timer s x st) = timer_now s"
  by (simp_all add: with_timer_def irq_ok_def)

lemma timers_ok_with_timer:
  assumes "timers_ok s L r ts xs" "x \<notin> set xs"
  shows "alive (with_timer s x st) L r ts" "sorted_prio (tick_key (tmrs (with_timer s x st))) xs"
    "\<forall>y \<in> set xs. timer_ok (with_timer s x st) ts y"
proof -
  have al: "alive s L r ts" using assms(1) by (simp add: timers_ok_def)
  show "alive (with_timer s x st) L r ts" by (rule alive_cong [OF al]) (use alive_facts(2) [OF al] in simp_all)
  have "sorted_prio (tick_key (tmrs (with_timer s x st))) xs = sorted_prio (tick_key (tmrs s)) xs"
    using assms(2) by (intro sorted_prio_cong) (auto simp: tick_key_def with_timer_def)
  then show "sorted_prio (tick_key (tmrs (with_timer s x st))) xs" using assms(1) by (simp add: timers_ok_def)
  show "\<forall>y \<in> set xs. timer_ok (with_timer s x st) ts y"
    using assms by (auto simp: timers_ok_def timer_ok_def with_timer_def)
qed

definition timer_addable :: "kstate \<Rightarrow> addr set \<Rightarrow> addr \<Rightarrow> bool" where
  "timer_addable s ts x = (tm_op (tmrs s (Obj x)) \<in> {TIMER_DELAY, TIMER_ALARM}
     \<and> tm_status (tmrs s (Obj x)) \<in> {TIMER_INITIALIZED, TIMER_DONE, TIMER_ABORTED}
     \<and> (\<exists>t \<in> ts. tm_task (tmrs s (Obj x)) = Obj t))"

lemma timer_add_elapsed:
  assumes "timer_addable s ts x" "added_tick s x \<le> timer_now s"
  shows "runs_to (timer_add (Obj x)) s (\<lambda>_ u. u = with_timer s x TIMER_ABORTED)"
  using assms
  by (auto simp: timer_add_def run_simps timer_addable_def added_tick_def with_timer_def Let_def)

lemma timer_add_queues:
  assumes t: "timers_ok s L r ts xs" and x: "unlinked L x" "x \<notin> ts" and n: "nest_room 1 s"
    and a: "timer_addable s ts x" "timer_now s < added_tick s x"
  defines "s1 \<equiv> with_timer s x TIMER_ADDED"
  shows "runs_to (timer_add (Obj x)) s (\<lambda>_ u. \<exists>h.
     timers_ok u (L(timers \<mapsto> enqueue_spec (tick_key (tmrs s1)) x xs)) r ts (enqueue_spec (tick_key (tmrs s1)) x xs)
     \<and> u = s1\<lparr>nodes := h\<rparr> \<and> same_data (nodes s) h)"
proof -
  have al: "alive s L r ts" and l: "L timers = Some xs" using t by (simp_all add: timers_ok_def)
  have nx: "x \<notin> set xs" using x(1) l by (rule unlinkedD)
  note i = alive_facts(2) [OF al] and ok = alive_facts(1) [OF al]
  note w = timers_ok_with_timer [OF t nx, of TIMER_ADDED, folded s1_def]
  let ?q = "enqueue_spec (tick_key (tmrs s1)) x xs"
  have rq: "r \<notin> set ?q"
    using alive_facts(4) [OF al] alive_facts(5) [OF al l] x(2) by auto
  have x1: "timer_ok s1 ts x"
    using a(1) by (auto simp: timer_ok_def timer_addable_def s1_def with_timer_def)
  have post: "timers_ok (s1\<lparr>nodes := h\<rparr>) (L(timers \<mapsto> ?q)) r ts ?q"
    if "lists_ok h (L(timers \<mapsto> ?q)) \<and> same_data (nodes s) h" for h
  proof -
    have "alive (s1\<lparr>nodes := h\<rparr>) (L(timers \<mapsto> ?q)) r ts"
      by (rule alive_other_list [OF w(1)]) (use that rq i in \<open>simp_all add: s1_def irq_ok_def\<close>)
    then show ?thesis
      using w(2,3) x1 sorted_enqueue_spec [of "tick_key (tmrs s1)" xs x]
      by (auto simp: timers_ok_def timer_ok_def)
  qed
  have tk: "tm_tick (tmrs s1 (Obj x)) = added_tick s x" by (simp add: s1_def with_timer_def)
  note scan = timer_scan_dll [of "nodes s" timers "[]" xs, simplified, OF lists_ok_dll [OF ok l]]
  have ins: "runs_to (case (case dropWhile (\<lambda>y. tm_tick (tmrs s1 (Obj y)) \<le> added_tick s x) xs of
         [] \<Rightarrow> None | y # _ \<Rightarrow> Some (Obj y)) of
       Some tnode \<Rightarrow> bindM (get_prev tnode) (list_insert timers (Obj x))
     | None \<Rightarrow> list_add_tail timers (Obj x)) (nodes s)
     (\<lambda>_ h'. \<exists>h. timers_ok (s1\<lparr>nodes := h'\<rparr>) (L(timers \<mapsto> ?q)) r ts ?q \<and> s1\<lparr>nodes := h'\<rparr> = s1\<lparr>nodes := h\<rparr>
        \<and> same_data (nodes s) h)"
    by (rule runs_to_weaken [OF timer_insert_lists [OF ok l x(1), of "tmrs s1", unfolded tk]]) (use post in blast)
  have case_found: "runs_to (case f of Some t \<Rightarrow> bindM (in_nodes (get_prev t)) (\<lambda>p. in_nodes (g p)) | None \<Rightarrow> in_nodes e) v P
      = runs_to (case f of Some t \<Rightarrow> bindM (get_prev t) g | None \<Rightarrow> e) (nodes v) (\<lambda>y h. P y (v\<lparr>nodes := h\<rparr>))"
    for f g e v P by (cases f) (simp_all add: run_simps)
  have s1': "s1 = s\<lparr>tmrs := (tmrs s)(Obj x := (tmrs s (Obj x))\<lparr>tm_tick := added_tick s x, tm_status := TIMER_ADDED\<rparr>)\<rparr>"
    by (simp add: s1_def with_timer_def)
  have id: "T\<lparr>tm_tick := tm_tick T, tm_status := st\<rparr> = T\<lparr>tm_status := st\<rparr>" for T :: Timer and st by (cases T) simp
  have first: "runs_to (get_next (Head timers)) (nodes s) P = P (after timers xs) (nodes s)" for P
    using dll_ends(1) [OF lists_ok_dll [OF ok l]] by (simp add: runs_to_def get_next_def run_apply)
  show ?thesis
  proof (cases "tm_op (tmrs s (Obj x)) = TIMER_DELAY")
    case True
    then show ?thesis
      using a(1) a(2) [folded not_le] ins
      by (simp add: timer_add_def run_simps crit [OF i n] timer_addable_def case_found first scan s1' added_tick_def)
        auto
  next
    case False
    then show ?thesis
      using a(1) a(2) [folded not_le] ins
      by (simp add: timer_add_def run_simps crit [OF i n] timer_addable_def case_found first scan s1' added_tick_def id)
        auto
  qed
qed

section \<open>Firing timers\<close>

definition obj_of :: "ptr \<Rightarrow> addr" where
  "obj_of p = (case p of Obj a \<Rightarrow> a | _ \<Rightarrow> 0)"

text \<open>The signals the timers \<open>xs\<close> send.\<close>

definition timer_mail :: "kstate \<Rightarrow> addr list \<Rightarrow> (addr \<times> Signals) list" where
  "timer_mail s xs = map (\<lambda>x. (obj_of (tm_task (tmrs s (Obj x))), tm_signal (tmrs s (Obj x)))) xs"

definition fired :: "kstate \<Rightarrow> addr list \<Rightarrow> ptr \<Rightarrow> Timer" where
  "fired s xs p = (if p \<in> Obj ` set xs then (tmrs s p)\<lparr>tm_status := TIMER_DONE\<rparr> else tmrs s p)"

definition timer_frame :: "kstate \<Rightarrow> lists \<Rightarrow> kstate \<Rightarrow> lists \<Rightarrow> bool" where
  "timer_frame s L u L' = (sems u = sems s \<and> reqs u = reqs s \<and> ports u = ports s \<and> msgs u = msgs s \<and> ram u = ram s
     \<and> timer_now u = timer_now s \<and> null_name u = null_name s \<and> same_data (nodes s) (nodes u)
     \<and> id_nestcnt u = id_nestcnt s \<and> primask u = primask s \<and> (pendsv s \<longrightarrow> pendsv u)
     \<and> (\<forall>l. l \<noteq> ready \<longrightarrow> l \<noteq> waiting \<longrightarrow> l \<noteq> timers \<longrightarrow> L' l = L l))"

lemma timer_frame_refl: "timer_frame s L s L"
  by (simp add: timer_frame_def same_data_def)

lemma timer_frame_trans: "timer_frame s L t L1 \<Longrightarrow> timer_frame t L1 u L2 \<Longrightarrow> timer_frame s L u L2"
  by (auto simp: timer_frame_def intro: same_data_trans)

definition fire_post :: "kstate \<Rightarrow> lists \<Rightarrow> addr \<Rightarrow> addr set \<Rightarrow> addr list \<Rightarrow> addr list \<Rightarrow> kstate \<Rightarrow> bool" where
  "fire_post s L r ts xs ys u = (\<exists>L'. timers_ok u L' r ts ys \<and> timer_frame s L u L' \<and> tmrs u = fired s xs
     \<and> recorded s u (sent_to (timer_mail s xs)))"

lemma timer_fire_ok:
  assumes t: "timers_ok s L r ts (x # xs)" and n: "nest_room 1 s"
  shows "runs_to (timer_fire (Obj x)) s (\<lambda>_ u. fire_post s L r ts [x] xs u
     \<and> nd_next (nodes u (Obj x)) = after timers xs)"
proof -
  obtain rs ws where k: "kern s L r rs ws" and ts: "ts = insert r (set rs \<union> set ws)"
    using t by (auto simp: timers_ok_def alive_def)
  have l: "L timers = Some (x # xs)" and so: "sorted_prio (tick_key (tmrs s)) xs" and al: "alive s L r ts"
    and tok: "\<forall>y \<in> set (x # xs). timer_ok s ts y"
    using t by (auto simp: timers_ok_def sorted_prio_def)
  note ok = kern_lists(1) [OF k] and i = kern_lists(5) [OF k]
  obtain a where a: "a \<in> ts" "tm_task (tmrs s (Obj x)) = Obj a" using tok by (auto simp: timer_ok_def)
  have dist: "x \<notin> set xs" using lists_ok_distinct [OF ok l] by simp
  have xts: "x \<notin> ts" "r \<notin> set xs"
    using alive_facts(5) [OF al l, of x] alive_facts(5) [OF al l, of r] alive_facts(4) [OF al] by auto
  have nx: "nd_next (nodes s (Obj x)) = after timers xs"
    using dll_neighbours(2) [of "nodes s" timers "[]" x xs] lists_ok_dll [OF ok l] by simp
  let ?g = "tm_signal (tmrs s (Obj x))" and ?L = "L(timers \<mapsto> xs)"
  let ?s = "\<lambda>h. s\<lparr>nodes := h, tmrs := (tmrs s)(Obj x := (tmrs s (Obj x))\<lparr>tm_status := TIMER_DONE\<rparr>)\<rparr>"
  have unl: "runs_to (list_unlink (Obj x)) (nodes s) (\<lambda>_ h. lists_ok h ?L \<and> same_data (nodes s) h
      \<and> nd_next (h (Obj x)) = after timers xs)"
    using lc.unlink_law [OF ok l, of x] nx by simp
  have fire: "fire_post s L r ts [x] xs u \<and> nd_next (nodes u (Obj x)) = after timers xs"
    if h: "lists_ok h ?L" "same_data (nodes s) h" "nd_next (h (Obj x)) = after timers xs"
      and k1: "kern (?s h) ?L r rs ws" and p: "send_post (?s h) ?L r rs ws a ?g u"
      and f: "frame h (nodes u) (set (cells ready rs) \<union> set (cells waiting ws))" for h u
  proof -
    let ?L' = "?L(waiting \<mapsto> send_waiting (?s h) ws a ?g, ready \<mapsto> send_ready (?s h) rs ws a ?g)"
    have nt: "notified (?s h) ?L r ts u ?L' ((\<lambda>_. 0)(a := ?g))"
      using send_post_notified [OF k1 p] ts by simp
    have tm: "tmrs u = fired s [x]"
      using nt by (auto simp: notified_def same_defs fired_def fun_eq_iff)
    have "timers_ok u ?L' r ts xs"
      using nt so tok dist sorted_prio_cong [of xs "tick_key (tmrs u)" "tick_key (tmrs s)"]
      by (auto simp: timers_ok_def notified_def tm fired_def tick_key_def timer_ok_def)
    moreover have "timer_frame s L u ?L'"
      using nt h(2) by (auto simp: notified_def same_defs timer_frame_def intro: same_data_trans)
    moreover have "sent_to (timer_mail s [x]) = (\<lambda>_. 0)(a := ?g)"
      using a by (auto simp: timer_mail_def obj_of_def fun_eq_iff)
    ultimately have "fire_post s L r ts [x] xs u"
      using nt tm by (auto simp: fire_post_def notified_def recorded_def)
    moreover have "nodes u (Obj x) = h (Obj x)"
      using f xts(1) ts by (auto simp: frame_def set_cells)
    ultimately show ?thesis using h(3) by simp
  qed
  have "runs_to (list_unlink (Obj x)) (nodes s) (\<lambda>_ h. runs_to (signal_send (Obj a) ?g) (?s h)
      (\<lambda>_ u. fire_post s L r ts [x] xs u \<and> nd_next (nodes u (Obj x)) = after timers xs))"
  proof (rule runs_to_weaken [OF unl], elim conjE)
    fix y h assume h: "lists_ok h ?L" "same_data (nodes s) h" "nd_next (h (Obj x)) = after timers xs"
    have "kern (s\<lparr>nodes := h\<rparr>) ?L r rs ws"
      by (rule kern_other_list [OF k]) (use h i xts(2) in \<open>auto simp: irq_ok_def\<close>)
    then have k1: "kern (?s h) ?L r rs ws"
      by (rule kern_cong) (use i in \<open>simp_all add: irq_ok_def\<close>)
    have n1: "nest_room 1 (?s h)" and a1: "a \<in> insert r (set rs \<union> set ws)"
      using n a ts by (simp_all add: nest_room_def)
    show "runs_to (signal_send (Obj a) ?g) (?s h)
        (\<lambda>_ u. fire_post s L r ts [x] xs u \<and> nd_next (nodes u (Obj x)) = after timers xs)"
      by (rule runs_to_weaken [OF runs_to_conj [OF signal_send_kern [OF k1 a1 n1] signal_send_frame [OF k1 a1 n1]]])
        (use fire [OF h k1] in simp)
  qed
  then show ?thesis
    using a by (simp add: timer_fire_def run_simps)
qed

lemma sent_to_append: "sent_to (ms @ ns) b = sent_to ms b OR sent_to ns b"
  by (induction ms) (simp_all add: or.assoc)

lemma fire_post_step:
  assumes a: "fire_post s L r ts [x] xs t" and b: "\<And>L1. timers_ok t L1 r ts xs \<Longrightarrow> fire_post t L1 r ts ys zs u"
    and x: "x \<notin> set ys"
  shows "fire_post s L r ts (x # ys) zs u"
proof -
  obtain L1 where t: "timers_ok t L1 r ts xs" "timer_frame s L t L1" "tmrs t = fired s [x]"
    "recorded s t (sent_to (timer_mail s [x]))" using a by (auto simp: fire_post_def)
  obtain L2 where u: "timers_ok u L2 r ts zs" "timer_frame t L1 u L2" "tmrs u = fired t ys"
    "recorded t u (sent_to (timer_mail t ys))" using b [OF t(1)] by (auto simp: fire_post_def)
  have mail: "timer_mail t ys = timer_mail s ys"
    using x by (auto simp: timer_mail_def t(3) fired_def)
  have "(\<lambda>c. sent_to (timer_mail s [x]) c OR sent_to (timer_mail t ys) c) = sent_to (timer_mail s (x # ys))"
    unfolding mail by (simp add: fun_eq_iff timer_mail_def)
  then have "recorded s u (sent_to (timer_mail s (x # ys)))"
    using recorded_trans [OF t(4) u(4)] by simp
  moreover have "tmrs u = fired s (x # ys)"
    by (auto simp: u(3) fired_def t(3) fun_eq_iff)
  ultimately show ?thesis
    using u(1) timer_frame_trans [OF t(2) u(2)] by (auto simp: fire_post_def)
qed

lemma timer_poll_loop_ok:
  "timers_ok s L r ts xs \<Longrightarrow> nest_room 1 s \<Longrightarrow>
   runs_to (\<lambda>s. of_loop (timer_poll_loop now (after timers xs) s)) s (\<lambda>_ u.
     fire_post s L r ts (takeWhile (\<lambda>x. tm_tick (tmrs s (Obj x)) \<le> now) xs)
       (dropWhile (\<lambda>x. tm_tick (tmrs s (Obj x)) \<le> now) xs) u)"
proof (induction xs arbitrary: s L)
  case Nil
  have d: "dll (nodes s) timers []"
    using Nil(1) by (auto simp: timers_ok_def intro: lists_ok_dll alive_facts(1))
  have "fire_post s L r ts [] [] s"
    using Nil(1) by (auto simp: fire_post_def timer_frame_refl fired_def timer_mail_def recorded_def fun_eq_iff)
  then show ?case
    using dll_ends(4) [OF d] by (subst timer_poll_loop.simps) (simp add: runs_to_def)
next
  case (Cons x xs)
  have l: "L timers = Some (x # xs)" and ok: "lists_ok (nodes s) L"
    using Cons.prems(1) by (auto simp: timers_ok_def intro: alive_facts(1))
  have d: "dll (nodes s) timers (x # xs)" by (rule lists_ok_dll [OF ok l])
  have nx: "nd_next (nodes s (Obj x)) = after timers xs"
    using dll_neighbours(2) [of "nodes s" timers "[]" x xs] d by simp
  then have nn: "nd_next (nodes s (Obj x)) \<noteq> NULL" using after_cases [of timers xs] by auto
  have dist: "x \<notin> set xs" using d by (simp add: dll_def)
  show ?case
  proof (cases "now < tm_tick (tmrs s (Obj x))")
    case True
    have "fire_post s L r ts [] (x # xs) s"
      using Cons.prems(1) by (auto simp: fire_post_def timer_frame_refl fired_def timer_mail_def recorded_def fun_eq_iff)
    then show ?thesis
      using True nn by (subst timer_poll_loop.simps) (auto simp: runs_to_def not_le)
  next
    case False
    from timer_fire_ok [OF Cons.prems] obtain t where t: "timer_fire (Obj x) s = Inr ((), t)"
      "fire_post s L r ts [x] xs t" "nd_next (nodes t (Obj x)) = after timers xs"
      by (auto elim: runs_toE)
    obtain L1 where L1: "timers_ok t L1 r ts xs" "nest_room 1 t" and tm: "tmrs t = fired s [x]"
      using t(2) Cons.prems(2) by (auto simp: fire_post_def timer_frame_def nest_room_def)
    have tick: "tm_tick (tmrs t p) = tm_tick (tmrs s p)" for p by (simp add: tm fired_def)
    have loop: "timer_poll_loop now (Obj x) s = timer_poll_loop now (after timers xs) t"
      using False nn t by (subst timer_poll_loop.simps) simp
    have "runs_to (\<lambda>s. of_loop (timer_poll_loop now (after timers xs) s)) t (\<lambda>_ u.
        fire_post s L r ts (x # takeWhile (\<lambda>x. tm_tick (tmrs s (Obj x)) \<le> now) xs)
          (dropWhile (\<lambda>x. tm_tick (tmrs s (Obj x)) \<le> now) xs) u)"
    proof -
      obtain u where u: "of_loop (timer_poll_loop now (after timers xs) t) = Inr ((), u)"
        using Cons.IH [OF L1] by (auto elim: runs_toE)
      have "fire_post t L2 r ts (takeWhile (\<lambda>x. tm_tick (tmrs s (Obj x)) \<le> now) xs)
          (dropWhile (\<lambda>x. tm_tick (tmrs s (Obj x)) \<le> now) xs) u" if "timers_ok t L2 r ts xs" for L2
        using Cons.IH [OF that L1(2)] u by (simp add: runs_to_def tick)
      moreover have "x \<notin> set (takeWhile (\<lambda>x. tm_tick (tmrs s (Obj x)) \<le> now) xs)"
        using dist by (auto dest: set_takeWhileD)
      ultimately show ?thesis
        using fire_post_step [OF t(2)] u by (simp add: runs_to_def)
    qed
    then show ?thesis using False loop by (simp add: runs_to_def not_less after_def)
  qed
qed

lemma takeWhile_due:
  assumes "sorted_prio (tick_key tm) xs"
  shows "takeWhile (\<lambda>x. tm_tick (tm (Obj x)) \<le> now) xs = filter (\<lambda>x. tm_tick (tm (Obj x)) \<le> now) xs"
    "dropWhile (\<lambda>x. tm_tick (tm (Obj x)) \<le> now) xs = filter (\<lambda>x. now < tm_tick (tm (Obj x))) xs"
proof -
  have "takeWhile (\<lambda>x. tm_tick (tm (Obj x)) \<le> now) xs = filter (\<lambda>x. tm_tick (tm (Obj x)) \<le> now) xs
      \<and> dropWhile (\<lambda>x. tm_tick (tm (Obj x)) \<le> now) xs = filter (\<lambda>x. now < tm_tick (tm (Obj x))) xs"
    using assms
  proof (induction xs)
    case (Cons x xs)
    show ?case
    proof (cases "tm_tick (tm (Obj x)) \<le> now")
      case True
      then show ?thesis using Cons by (simp add: sorted_prio_def not_less)
    next
      case False
      then have "\<forall>y \<in> set xs. now < tm_tick (tm (Obj y))"
        using Cons.prems by (auto simp: sorted_prio_def tick_key_le)
      then show ?thesis using False by (auto simp: filter_empty_conv not_le filter_id_conv)
    qed
  qed simp
  then show "takeWhile (\<lambda>x. tm_tick (tm (Obj x)) \<le> now) xs = filter (\<lambda>x. tm_tick (tm (Obj x)) \<le> now) xs"
    "dropWhile (\<lambda>x. tm_tick (tm (Obj x)) \<le> now) xs = filter (\<lambda>x. now < tm_tick (tm (Obj x))) xs" by auto
qed

end
