(* ===== verification/TimerProps.thy ===== *)
theory TimerProps
  imports TimerC
begin

unbundle bit_operations_syntax

text \<open>
  Polling the queue of timers, the clock interrupt, and the properties of timers.
\<close>

section \<open>Polling\<close>

lemma timers_ok_masked:
  assumes "timers_ok s L r ts xs"
  shows "timers_ok (masked s) L r ts xs"
  using assms by (auto simp: timers_ok_def timer_ok_def alive_def intro: kern_masked)

lemma timers_ok_cong:
  assumes "timers_ok s L r ts xs" "nodes u = nodes s" "running u = running s" "pendsv u = pendsv s" "irq_ok u"
    "tasks u = tasks s" "tmrs u = tmrs s"
  shows "timers_ok u L r ts xs"
  using assms by (auto simp: timers_ok_def timer_ok_def intro: alive_cong)

lemma timers_ok_facts:
  assumes "timers_ok s L r ts xs"
  shows "alive s L r ts" "L timers = Some xs" "sorted_prio (tick_key (tmrs s)) xs" "irq_ok s"
    "lists_ok (nodes s) L" "running s = Obj r"
  using assms by (auto simp: timers_ok_def intro: alive_facts)

text \<open>Leaving the critical section keeps what the loop has done.\<close>

lemma fire_post_unmasked:
  assumes i: "irq_ok s" and f: "fire_post (masked s) L r ts xs ys u"
  shows "fire_post s L r ts xs ys (unmasked s u)"
proof -
  obtain L' where L': "timers_ok u L' r ts ys" "timer_frame (masked s) L u L'" "tmrs u = fired (masked s) xs"
    "recorded (masked s) u (sent_to (timer_mail (masked s) xs))"
    using f by (auto simp: fire_post_def)
  have "timers_ok (unmasked s u) L' r ts ys"
    by (rule timers_ok_cong [OF L'(1)]) (use i in \<open>simp_all add: unmasked_def irq_ok_def\<close>)
  then show ?thesis
    using L'(2-4) by (auto simp: fire_post_def timer_frame_def unmasked_def masked_def fired_def recorded_def timer_mail_def
        fun_eq_iff)
qed

lemma timer_poll_ok:
  assumes t: "timers_ok s L r ts xs" and n: "nest_room 2 s"
  shows "runs_to timer_poll s (\<lambda>_ u. fire_post s L r ts
     (filter (\<lambda>x. tm_tick (tmrs s (Obj x)) \<le> timer_now s) xs)
     (filter (\<lambda>x. timer_now s < tm_tick (tmrs s (Obj x))) xs) u)"
proof -
  note f = timers_ok_facts [OF t]
  have n1: "nest_room 1 s" "nest_room 1 (masked s)" using n by (simp_all add: nest_room_def masked_def)
  have first: "runs_to (get_next (Head timers)) (nodes s) P = P (after timers xs) (nodes s)" for P
    using dll_ends(1) [OF lists_ok_dll [OF f(5,2)]] by (simp add: runs_to_def get_next_def run_apply)
  have "runs_to (\<lambda>v. of_loop (timer_poll_loop (timer_now s) (after timers xs) v)) (masked s) (\<lambda>_ u. runs_to enable u
      (\<lambda>_ u. fire_post s L r ts (filter (\<lambda>x. tm_tick (tmrs s (Obj x)) \<le> timer_now s) xs)
        (filter (\<lambda>x. timer_now s < tm_tick (tmrs s (Obj x))) xs) u))"
  proof (rule runs_to_weaken [OF timer_poll_loop_ok [OF timers_ok_masked [OF t] n1(2), of "timer_now s"]])
    fix y u
    assume u: "fire_post (masked s) L r ts (takeWhile (\<lambda>x. tm_tick (tmrs (masked s) (Obj x)) \<le> timer_now s) xs)
        (dropWhile (\<lambda>x. tm_tick (tmrs (masked s) (Obj x)) \<le> timer_now s) xs) u"
    then have e: "id_nestcnt u = id_nestcnt s + 1" "primask u"
      by (auto simp: fire_post_def timer_frame_def masked_def)
    show "runs_to enable u (\<lambda>_ u. fire_post s L r ts (filter (\<lambda>x. tm_tick (tmrs s (Obj x)) \<le> timer_now s) xs)
        (filter (\<lambda>x. timer_now s < tm_tick (tmrs s (Obj x))) xs) u)"
      using fire_post_unmasked [OF f(4) u] by (simp add: leave_critical [OF f(4) n1(1) e] takeWhile_due [OF f(3)])
  qed
  then show ?thesis
    by (simp add: timer_poll_def run_simps enter_critical [OF f(4) n1(1)] first del: runs_to_disable runs_to_enable)
qed

section \<open>The clock interrupt\<close>

text \<open>After \<open>n\<close> clock interrupts: the timers of \<open>xs\<close> that are due by then have fired.\<close>

definition due :: "kstate \<Rightarrow> Ticks \<Rightarrow> addr \<Rightarrow> bool" where
  "due s t x = (tm_tick (tmrs s (Obj x)) \<le> t)"

definition ticked :: "kstate \<Rightarrow> addr \<Rightarrow> addr set \<Rightarrow> addr list \<Rightarrow> Ticks \<Rightarrow> kstate \<Rightarrow> bool" where
  "ticked s r ts xs t u = ((\<exists>L'. timers_ok u L' r ts (filter (\<lambda>x. \<not> due s t x) xs)) \<and> timer_now u = t
     \<and> id_nestcnt u = id_nestcnt s \<and> primask u = primask s \<and> same_data (nodes s) (nodes u)
     \<and> tmrs u = fired s (filter (due s t) xs)
     \<and> recorded s u (sent_to (timer_mail s (filter (due s t) xs))))"

lemma TIM2_ok:
  assumes t: "timers_ok s L r ts xs" and n: "nest_room 2 s"
  shows "runs_to (TIM2_IRQHandler True) s (\<lambda>_ u. ticked s r ts xs (timer_now s + 1) u)"
proof -
  let ?s = "s\<lparr>timer_now := timer_now s + 1\<rparr>"
  have t': "timers_ok ?s L r ts xs"
    by (rule timers_ok_cong [OF t]) (use timers_ok_facts(4) [OF t] in \<open>simp_all add: irq_ok_def\<close>)
  have n': "nest_room 2 ?s" using n by (simp add: nest_room_def)
  have "fire_post ?s L r ts ys zs u \<Longrightarrow> timer_now u = timer_now s + 1 \<and> id_nestcnt u = id_nestcnt s \<and> primask u = primask s
      \<and> same_data (nodes s) (nodes u) \<and> tmrs u = fired s ys \<and> recorded s u (sent_to (timer_mail s ys)) \<and> (\<exists>L'. timers_ok u L' r ts zs)" for ys zs u
    by (auto simp: fire_post_def timer_frame_def fired_def recorded_def timer_mail_def fun_eq_iff)
  then show ?thesis
    using timer_poll_ok [OF t' n']
    by (auto simp: TIM2_IRQHandler_def run_simps ticked_def due_def [abs_def] not_le elim!: runs_to_weaken)
qed


lemma due_split:
  assumes "sorted_prio (tick_key (tmrs s)) xs" and "a \<le> b"
  shows "filter (due s b) xs = filter (due s a) xs @ filter (due s b) (filter (\<lambda>x. \<not> due s a x) xs)"
proof -
  let ?T = "takeWhile (due s a) xs" and ?D = "dropWhile (due s a) xs"
  have TD: "?T = filter (due s a) xs" "?D = filter (\<lambda>x. \<not> due s a x) xs"
    using takeWhile_due [OF assms(1), of a] by (simp_all add: due_def [abs_def] not_le)
  have "filter (due s b) ?T = ?T"
    using assms(2) by (auto simp: filter_id_conv due_def dest!: set_takeWhileD)
  then have "filter (due s b) xs = ?T @ filter (due s b) ?D"
    using filter_append [of "due s b" ?T ?D] by simp
  then show ?thesis by (simp only: TD)
qed

lemma fired_keeps [simp]:
  "tm_tick (fired s xs p) = tm_tick (tmrs s p)" "tm_task (fired s xs p) = tm_task (tmrs s p)"
  "tm_signal (fired s xs p) = tm_signal (tmrs s p)"
  by (simp_all add: fired_def)

lemma sent_to_covers: "(b, g) \<in> set ms \<Longrightarrow> sent_to ms b AND g = g"
  by (induction ms) (auto simp: and_or_absorb)

lemma ticked_step:
  assumes so: "sorted_prio (tick_key (tmrs s)) xs" and u: "ticked s r ts xs t u" and le: "t \<le> t'"
    and v: "ticked u r ts (filter (\<lambda>x. \<not> due s t x) xs) t' v"
  shows "ticked s r ts xs t' v"
proof -
  let ?ys = "filter (\<lambda>x. \<not> due s t x) xs" and ?f = "filter (due s t) xs"
  have tm: "tmrs u = fired s ?f" using u by (simp add: ticked_def)
  then have d: "due u t' = due s t'" by (simp add: due_def fun_eq_iff)
  have mail: "timer_mail u zs = timer_mail s zs" for zs by (simp add: timer_mail_def tm)
  note split = due_split [OF so le]
  have "filter (\<lambda>x. \<not> due s t' x) ?ys = filter (\<lambda>x. \<not> due s t' x) xs"
    using le by (auto simp: due_def filter_filter intro!: filter_cong)
  moreover have "fired u (filter (due s t') ?ys) = fired s (filter (due s t') xs)"
    unfolding split by (auto simp: fired_def tm fun_eq_iff)
  moreover have "recorded s v (sent_to (timer_mail s (filter (due s t') xs)))"
  proof -
    have "recorded s v (\<lambda>b. sent_to (timer_mail s ?f) b OR sent_to (timer_mail s (filter (due s t') ?ys)) b)"
      using u v by (auto simp: ticked_def d mail intro: recorded_trans)
    then show ?thesis unfolding split by (simp add: timer_mail_def sent_to_append [abs_def])
  qed
  ultimately show ?thesis using u v by (auto simp: ticked_def d intro: same_data_trans)
qed

lemma ticks_ok:
  "timers_ok s L r ts xs \<Longrightarrow> nest_room 2 s \<Longrightarrow> unat (timer_now s) + Suc k < 2 ^ 32 \<Longrightarrow>
   runs_to (repeatM (Suc k) (TIM2_IRQHandler True)) s (\<lambda>_ u. ticked s r ts xs (timer_now s + of_nat (Suc k)) u)"
proof (induction k)
  case 0
  then show ?case using TIM2_ok [OF 0(1,2)] by (simp add: run_simps)
next
  case (Suc k)
  let ?t = "timer_now s + of_nat (Suc k)" and ?m = "timer_now s + of_nat (Suc (Suc k)) :: Ticks"
  have le: "?t \<le> ?m"
  proof -
    have "unat (timer_now s + of_nat n) = unat (timer_now s) + n" if "n \<le> Suc (Suc k)" for n
      using that Suc.prems(3) by (simp add: unat_word_ariths unat_of_nat mod_less)
    then show ?thesis by (simp add: word_le_nat_alt del: of_nat_Suc)
  qed
  have "runs_to (repeatM (Suc k) (TIM2_IRQHandler True)) s (\<lambda>_ u. ticked s r ts xs ?t u)"
    using Suc by simp
  then show ?case
    unfolding runs_to_repeatM_Suc [of "Suc k"]
  proof (rule runs_to_weaken)
    fix x u assume u: "ticked s r ts xs ?t u"
    then obtain L' where L': "timers_ok u L' r ts (filter (\<lambda>x. \<not> due s ?t x) xs)" by (auto simp: ticked_def)
    have "nest_room 2 u" "timer_now u + 1 = ?m" using u Suc.prems(2) by (auto simp: ticked_def nest_room_def)
    then have "runs_to (TIM2_IRQHandler True) u (\<lambda>_ v. ticked u r ts (filter (\<lambda>x. \<not> due s ?t x) xs) ?m v)"
      using TIM2_ok [OF L'] by metis
    then show "runs_to (TIM2_IRQHandler True) u (\<lambda>_ v. ticked s r ts xs ?m v)"
      by (rule runs_to_weaken) (rule ticked_step [OF timers_ok_facts(3) [OF Suc.prems(1)] u le])
  qed
qed


section \<open>Arming a timer\<close>

lemma alive_kern:
  assumes "alive s L r ts" "L ready = Some rs" "L waiting = Some ws"
  shows "kern s L r rs ws" "ts = insert r (set rs \<union> set ws)"
proof -
  obtain rs' ws' where k: "kern s L r rs' ws'" "ts = insert r (set rs' \<union> set ws')" using assms(1) by (auto simp: alive_def)
  then have "rs' = rs" "ws' = ws" using kern_lists(2,3) [OF k(1)] assms(2,3) by simp_all
  with k show "kern s L r rs ws" "ts = insert r (set rs \<union> set ws)" by simp_all
qed

lemma kern_tmrs [simp]:
  "kern (s\<lparr>tmrs := m\<rparr>) L r rs ws = kern s L r rs ws"
  "kern (s\<lparr>tmrs := m, tasks := tk\<rparr>) L r rs ws = kern (s\<lparr>tasks := tk\<rparr>) L r rs ws"
  by (simp_all add: kern_def irq_ok_def)

lemma timers_ok_other:
  assumes "timers_ok s L r ts xs" "alive u L' r ts" "L' timers = L timers" "\<forall>y \<in> set xs. tmrs u (Obj y) = tmrs s (Obj y)"
  shows "timers_ok u L' r ts xs"
proof -
  have "sorted_prio (tick_key (tmrs u)) xs = sorted_prio (tick_key (tmrs s)) xs"
    using assms(4) by (intro sorted_prio_cong) (simp add: tick_key_def)
  then show ?thesis using assms by (auto simp: timers_ok_def timer_ok_def)
qed

text \<open>The state after \<open>timer_allocate\<close> found the free signal \<open>k\<close>.\<close>

definition allocated_timer :: "kstate \<Rightarrow> addr \<Rightarrow> nat \<Rightarrow> addr \<Rightarrow> kstate" where
  "allocated_timer s r k x = s\<lparr>tmrs := (tmrs s)(Obj x := (tmrs s (Obj x))
       \<lparr>tm_task := Obj r, tm_signal := sig_mask k, tm_op := TIMER_NONE, tm_status := TIMER_INITIALIZED\<rparr>),
     tasks := (tasks s)(Obj r := allocated (sig_mask k) (tasks s (Obj r)))\<rparr>"

lemma timer_allocate_ok:
  assumes k: "kern s L r rs ws" and r: "r \<notin> set rs" "r \<notin> set ws" and n: "nest_room 1 s"
    and f: "\<exists>k < 16. \<not> bit (tk_sig_alloc (tasks s (Obj r))) k"
  shows "runs_to (timer_allocate (Obj x)) s (\<lambda>_ u. \<exists>k < 16. k \<noteq> 0 \<and> \<not> bit (tk_sig_alloc (tasks s (Obj r))) k
     \<and> kern u L r rs ws \<and> u = allocated_timer s r k x)"
proof -
  let ?s = "s\<lparr>tmrs := (tmrs s)(Obj x := (tmrs s (Obj x))\<lparr>tm_task := Obj r\<rparr>)\<rparr>"
  have k1: "kern ?s L r rs ws" and n1: "nest_room 1 ?s" and f1: "\<exists>k < 16. \<not> bit (tk_sig_alloc (tasks ?s (Obj r))) k"
    using k n f by (simp_all add: nest_room_def)
  show ?thesis
    unfolding timer_allocate_def run_simps
    by (simp add: kern_lists(4) [OF k], rule runs_to_weaken [OF fresh_signal [OF k1 r n1 f1]])
      (auto simp: allocated_timer_def)
qed

lemma timer_free_ok:
  assumes k: "kern s L r rs ws" and r: "r \<notin> set rs" "r \<notin> set ws"
    and g: "g AND SIGF_SINGLE = 0" "g AND tk_sig_alloc (tasks s (Obj r)) = g" "tm_signal (tmrs s (Obj x)) = g"
  shows "runs_to (timer_free (Obj x)) s (\<lambda>_ u. kern u L r rs ws
     \<and> u = s\<lparr>tmrs := (tmrs s)(Obj x := (tmrs s (Obj x))\<lparr>tm_task := NULL, tm_op := TIMER_NONE, tm_status := TIMER_INVALID\<rparr>),
         tasks := (tasks s)(Obj r := (tasks s (Obj r))\<lparr>tk_sig_alloc := tk_sig_alloc (tasks s (Obj r)) AND NOT g\<rparr>)\<rparr>)"
proof -
  let ?s = "s\<lparr>tmrs := (tmrs s)(Obj x := (tmrs s (Obj x))\<lparr>tm_task := NULL\<rparr>)\<rparr>"
  have "kern ?s L r rs ws" "g AND tk_sig_alloc (tasks ?s (Obj r)) = g" using k g(2) by simp_all
  note free = signal_free_kern [OF this(1) r g(1) this(2)]
  show ?thesis
    unfolding timer_free_def run_simps
    by (simp add: g(3), rule runs_to_weaken [OF free]) auto
qed

text \<open>A timer with a delay of \<open>d\<close> ticks, allocated and then added.\<close>

definition armed_timer :: "kstate \<Rightarrow> addr \<Rightarrow> nat \<Rightarrow> addr \<Rightarrow> Ticks \<Rightarrow> kstate" where
  "armed_timer s r k x d = (allocated_timer s r k x)\<lparr>tmrs := (tmrs s)(Obj x := (tmrs s (Obj x))
     \<lparr>tm_task := Obj r, tm_signal := sig_mask k, tm_status := TIMER_INITIALIZED, tm_op := TIMER_DELAY, tm_delay := d\<rparr>)\<rparr>"

definition armed :: "kstate \<Rightarrow> lists \<Rightarrow> addr \<Rightarrow> addr list \<Rightarrow> addr list \<Rightarrow> addr list \<Rightarrow> addr \<Rightarrow> Ticks \<Rightarrow> nat \<Rightarrow> kstate \<Rightarrow> bool" where
  "armed s L r rs ws xs x d k u = (let ts = insert r (set rs \<union> set ws) in
     u = (armed_timer s r k x d)\<lparr>nodes := nodes u, tmrs := tmrs u\<rparr> \<and> same_data (nodes s) (nodes u)
     \<and> (\<forall>p. p \<noteq> Obj x \<longrightarrow> tmrs u p = tmrs s p)
     \<and> tm_signal (tmrs u (Obj x)) = sig_mask k \<and> tm_task (tmrs u (Obj x)) = Obj r
     \<and> tm_tick (tmrs u (Obj x)) = timer_now s + d
     \<and> (if timer_now s + d \<le> timer_now s
        then kern u L r rs ws \<and> timers_ok u L r ts xs \<and> tm_status (tmrs u (Obj x)) = TIMER_ABORTED
        else \<exists>q. kern u (L(timers \<mapsto> q)) r rs ws \<and> timers_ok u (L(timers \<mapsto> q)) r ts q \<and> set q = insert x (set xs)
          \<and> tm_status (tmrs u (Obj x)) = TIMER_ADDED))"

lemma timer_arm_ok:
  assumes k: "kern s L r rs ws" and r: "r \<notin> set rs" "r \<notin> set ws" and n: "nest_room 1 s"
    and t: "timers_ok s L r (insert r (set rs \<union> set ws)) xs" and x: "unlinked L x" "x \<notin> insert r (set rs \<union> set ws)"
    and a: "kern (allocated_timer s r k x) L r rs ws"
  shows "runs_to (timer_add (Obj x)) (armed_timer s r k x d) (\<lambda>_ u. armed s L r rs ws xs x d k u)"
proof -
  let ?ts = "insert r (set rs \<union> set ws)" and ?s = "armed_timer s r k x d"
  have nx: "x \<notin> set xs" by (rule unlinkedD [OF x(1) timers_ok_facts(2) [OF t]])
  have ks: "kern ?s L r rs ws" using a by (simp add: armed_timer_def)
  have ts: "timers_ok ?s L r ?ts xs"
    by (rule timers_ok_other [OF t aliveI [OF ks]]) (use nx in \<open>auto simp: armed_timer_def\<close>)
  have ad: "timer_addable ?s ?ts x" "added_tick ?s x = timer_now s + d"
    by (auto simp: timer_addable_def armed_timer_def added_tick_def allocated_timer_def)
  have ns: "nest_room 1 ?s" and now: "timer_now ?s = timer_now s"
    using n by (simp_all add: nest_room_def armed_timer_def allocated_timer_def)
  show ?thesis
  proof (cases "timer_now s + d \<le> timer_now s")
    case True
    have el: "added_tick ?s x \<le> timer_now ?s" using True by (simp add: ad now)
    have "timers_ok (with_timer ?s x TIMER_ABORTED) L r ?ts xs"
      using timers_ok_with_timer [OF ts nx] timers_ok_facts(2) [OF t] by (simp add: timers_ok_def)
    moreover have "kern (with_timer ?s x TIMER_ABORTED) L r rs ws" using ks by (simp add: with_timer_def)
    ultimately show ?thesis
      using True by (intro runs_to_weaken [OF timer_add_elapsed [OF ad(1) el]])
        (auto simp: armed_def Let_def with_timer_def added_tick_def armed_timer_def allocated_timer_def same_data_def)
  next
    case False
    then have lt: "timer_now ?s < added_tick ?s x" by (simp add: ad now)
    let ?q = "enqueue_spec (tick_key (tmrs (with_timer ?s x TIMER_ADDED))) x xs"
    have kq: "kern u (L(timers \<mapsto> ?q)) r rs ws" if "timers_ok u (L(timers \<mapsto> ?q)) r ?ts ?q" for u
      using that kern_lists(2,3) [OF k] by (intro alive_kern(1) [OF timers_ok_facts(1)]) auto
    show ?thesis
      using False by (intro runs_to_weaken [OF timer_add_queues [OF ts x ns ad(1) lt]])
        (auto simp: armed_def Let_def with_timer_def added_tick_def armed_timer_def allocated_timer_def intro!: exI [of _ ?q] kq)
  qed
qed

section \<open>Delays\<close>

text \<open>What \<open>timer_allocate\<close> and the two assignments after it leave to \<open>timer_add\<close>.\<close>

lemma timer_prepare:
  assumes k: "kern s L r rs ws" and r: "r \<notin> set rs" "r \<notin> set ws" and n: "nest_room 1 s"
    and f: "\<exists>k < 16. \<not> bit (tk_sig_alloc (tasks s (Obj r))) k"
    and c: "\<And>k. k < 16 \<Longrightarrow> k \<noteq> 0 \<Longrightarrow> \<not> bit (tk_sig_alloc (tasks s (Obj r))) k \<Longrightarrow>
      kern (allocated_timer s r k x) L r rs ws \<Longrightarrow> runs_to c (armed_timer s r k x d) P"
  shows "runs_to (seqM (timer_allocate (Obj x)) (
     seqM (set_timer (Obj x) (\<lambda>t. t\<lparr>tm_op := TIMER_DELAY\<rparr>)) (
     seqM (set_timer (Obj x) (\<lambda>t. t\<lparr>tm_delay := d\<rparr>)) c))) s P"
proof -
  have st: "(allocated_timer s r k x)\<lparr>tmrs := (tmrs (allocated_timer s r k x))(Obj x :=
      (tmrs (allocated_timer s r k x) (Obj x))\<lparr>tm_op := TIMER_DELAY, tm_delay := d\<rparr>)\<rparr> = armed_timer s r k x d" for k
    by (simp add: armed_timer_def allocated_timer_def)
  show ?thesis
    unfolding run_simps
    by (rule runs_to_weaken [OF timer_allocate_ok [OF k r n f]]) (use c in \<open>auto simp: st\<close>)
qed

lemma armed_facts:
  assumes "armed s L r rs ws xs x d k u"
  shows "tasks u = (tasks s)(Obj r := allocated (sig_mask k) (tasks s (Obj r)))" "id_nestcnt u = id_nestcnt s"
    "tm_signal (tmrs u (Obj x)) = sig_mask k" "tm_task (tmrs u (Obj x)) = Obj r" "timer_now u = timer_now s"
    "pendsv u = pendsv s" "primask u = primask s" "reqs u = reqs s" "sems u = sems s" "ports u = ports s"
    "running u = running s"
proof -
  have u: "u = (armed_timer s r k x d)\<lparr>nodes := nodes u, tmrs := tmrs u\<rparr>"
    using assms by (simp add: armed_def Let_def)
  show "tm_signal (tmrs u (Obj x)) = sig_mask k" "tm_task (tmrs u (Obj x)) = Obj r"
    using assms by (simp_all add: armed_def Let_def)
  show "tasks u = (tasks s)(Obj r := allocated (sig_mask k) (tasks s (Obj r)))" "id_nestcnt u = id_nestcnt s"
    "timer_now u = timer_now s" "pendsv u = pendsv s" "primask u = primask s" "reqs u = reqs s" "sems u = sems s"
    "ports u = ports s" "running u = running s"
    by (subst u, simp add: armed_timer_def allocated_timer_def)+
qed

lemma armed_wait_blocks:
  assumes "armed s L r rs ws xs x d k u" and "k < 16"
  shows "sig_mask k AND tk_sig_recvd (tasks u (Obj r)) = 0"
  by (auto simp: armed_facts(1) [OF assms(1)] allocated_def bit_eq_iff [where 'a = "16 word"] bit_and_iff bit_not_iff)

text \<open>The delayed task runs again after its timer fired.\<close>

lemma timer_delay_returns:
  assumes k: "kern s L r rs ws" and r: "r \<notin> set rs" "r \<notin> set ws" "r \<noteq> init_addr" and i: "id_nestcnt s = - 1"
    and g: "tk_sig_wait (tasks s (Obj r)) = g" "g AND tk_sig_recvd (tasks s (Obj r)) \<noteq> 0"
      "tm_signal (tmrs s (Obj x)) = g" "g AND SIGF_SINGLE = 0" "g AND tk_sig_alloc (tasks s (Obj r)) = g"
    and n: "0 \<le> n" "n \<le> INT32_MAX"
  shows "runs_to (timer_delay_resume (Obj x) g n) s (\<lambda>v u. v = Elapsed \<and> kern u L r rs ws \<and> id_nestcnt u = n - 1
     \<and> tk_sig_alloc (tasks u (Obj r)) = tk_sig_alloc (tasks s (Obj r)) AND NOT g
     \<and> timer_now u = timer_now s \<and> (\<forall>p. p \<noteq> Obj x \<longrightarrow> tmrs u p = tmrs s p))"
  unfolding timer_delay_resume_def runs_to_bindM
proof (rule runs_to_weaken [OF signal_wait_resume_kern [OF k r g(1) i n]])
  fix v u assume u: "wait_post s L r rs ws g n v u"
  then have ku: "kern u L r rs ws" and v: "\<exists>y. v = Returned y" and o: "id_nestcnt u = n - 1" "tmrs u = tmrs s"
    "tk_sig_alloc (tasks u (Obj r)) = tk_sig_alloc (tasks s (Obj r))" "timer_now u = timer_now s"
    using g(2) by (simp_all add: wait_post_def Let_def same_store_def consume_def)
  have "g AND tk_sig_alloc (tasks u (Obj r)) = g" "tm_signal (tmrs u (Obj x)) = g" using g o by simp_all
  note free = timer_free_ok [OF ku r(1,2) g(4) this]
  show "runs_to (delay_finish (Obj x) v) u (\<lambda>v u. v = Elapsed \<and> kern u L r rs ws \<and> id_nestcnt u = n - 1
     \<and> tk_sig_alloc (tasks u (Obj r)) = tk_sig_alloc (tasks s (Obj r)) AND NOT g
     \<and> timer_now u = timer_now s \<and> (\<forall>p. p \<noteq> Obj x \<longrightarrow> tmrs u p = tmrs s p))"
    using v by (auto simp: delay_finish_def run_simps o intro!: runs_to_weaken [OF free])
qed

section \<open>A system with timers\<close>

text \<open>
  The demonstration system at clock \<open>now\<close> with the timers \<open>xs\<close> queued; all timers belong to task
  7, and timer \<open>x\<close> is set to tick \<open>x\<close> or to a delay of 3 if not queued.
\<close>

definition demo_timer :: "Ticks \<Rightarrow> addr list \<Rightarrow> kstate" where
  "demo_timer now xs = demo_state\<lparr>nodes := link_all timers [] xs demo_nodes, timer_now := now,
     tmrs := (\<lambda>p. \<lparr>tm_task = Obj 7, tm_signal = 0x10, tm_delay = 3, tm_tick = of_nat (obj_of p), tm_op = TIMER_DELAY,
       tm_status = (if p \<in> Obj ` set xs then TIMER_ADDED else TIMER_INITIALIZED)\<rparr>)\<rparr>"

lemma demo_timer_lists:
  assumes "distinct xs" "set xs \<inter> {0, 5, 6, 7} = {}"
  shows "lists_ok (link_all timers [] xs demo_nodes) (demo_lists(timers \<mapsto> xs))
     \<and> same_data demo_nodes (link_all timers [] xs demo_nodes)"
  using lists_ok_link_all [OF demo_lists_ok, of timers "[]" xs] assms
  by (auto simp: demo_lists_def [of timers] intro: demo_unlinked)

lemma demo_timer_kern:
  assumes "distinct xs" "set xs \<inter> {0, 5, 6, 7} = {}"
  shows "kern (demo_timer now xs) (demo_lists(timers \<mapsto> xs)) 5 [6, 0] [7]"
  by (rule kern_other_list [OF demo_kern])
    (use demo_timer_lists [OF assms] assms in \<open>auto simp: demo_timer_def irq_ok_def\<close>)

lemma demo_timer_ok:
  assumes "distinct xs" "set xs \<inter> {0, 5, 6, 7} = {}" "sorted_wrt (\<lambda>x y. of_nat x \<le> (of_nat y :: Ticks)) xs"
  shows "timers_ok (demo_timer now xs) (demo_lists(timers \<mapsto> xs)) 5 {0, 5, 6, 7} xs"
proof -
  have "alive (demo_timer now xs) (demo_lists(timers \<mapsto> xs)) 5 {0, 5, 6, 7}"
    using aliveI [OF demo_timer_kern [OF assms(1,2), of now]] by (simp add: insert_commute)
  then show ?thesis
    using assms(3) by (simp add: timers_ok_def timer_ok_def demo_timer_def sorted_prio_def tick_key_le obj_of_def)
qed

lemma demo_timer_room: "nest_room 2 (demo_timer now xs)" "nest_room 1 (demo_timer now xs)"
  by (simp_all add: nest_room_def demo_timer_def INT32_MAX_def)

lemma demo_timer_unlinked: "n \<notin> {0, 6, 7} \<union> set xs \<Longrightarrow> unlinked (demo_lists(timers \<mapsto> xs)) n"
  using demo_unlinked [of n] by (auto simp: unlinked_def)

section \<open>Properties\<close>

text \<open>
  C22: Every clock interrupt fires exactly the timers that are due.  The clock goes up by one; the
  queued timers whose tick has been reached are done and off the queue, the others stay
  queued in their order; and every task has received, beyond what it had, exactly the
  signals of the due timers that belong to it.
\<close>

theorem timer_tick_fires_due:
  assumes "timers_ok s L r ts xs" and "nest_room 2 s"
  shows "runs_to (TIM2_IRQHandler True) s (\<lambda>_ u. timer_now u = timer_now s + 1
     \<and> (\<exists>L'. timers_ok u L' r ts (filter (\<lambda>x. timer_now u < tm_tick (tmrs s (Obj x))) xs))
     \<and> (\<forall>x \<in> set xs. tm_status (tmrs u (Obj x)) =
          (if tm_tick (tmrs s (Obj x)) \<le> timer_now u then TIMER_DONE else TIMER_ADDED))
     \<and> (\<forall>b. tk_sig_recvd (tasks u (Obj b)) = tk_sig_recvd (tasks s (Obj b))
          OR sent_to (timer_mail s (filter (\<lambda>x. tm_tick (tmrs s (Obj x)) \<le> timer_now u) xs)) b))"
proof (rule runs_to_weaken [OF TIM2_ok [OF assms]])
  fix y u assume u: "ticked s r ts xs (timer_now s + 1) u"
  have st: "tm_status (tmrs s (Obj x)) = TIMER_ADDED" if "x \<in> set xs" for x
    using assms(1) that by (simp add: timers_ok_def timer_ok_def)
  show "timer_now u = timer_now s + 1
     \<and> (\<exists>L'. timers_ok u L' r ts (filter (\<lambda>x. timer_now u < tm_tick (tmrs s (Obj x))) xs))
     \<and> (\<forall>x \<in> set xs. tm_status (tmrs u (Obj x)) =
          (if tm_tick (tmrs s (Obj x)) \<le> timer_now u then TIMER_DONE else TIMER_ADDED))
     \<and> (\<forall>b. tk_sig_recvd (tasks u (Obj b)) = tk_sig_recvd (tasks s (Obj b))
          OR sent_to (timer_mail s (filter (\<lambda>x. tm_tick (tmrs s (Obj x)) \<le> timer_now u) xs)) b)"
    using u by (auto simp: ticked_def due_def [abs_def] not_le fired_def st recorded_def)
qed

theorem timer_tick_fires_due_witness:
  "runs_to (TIM2_IRQHandler True) (demo_timer 19 [20, 30]) (\<lambda>_ u. timer_now u = timer_now (demo_timer 19 [20, 30]) + 1
     \<and> (\<exists>L'. timers_ok u L' 5 {0, 5, 6, 7}
          (filter (\<lambda>x. timer_now u < tm_tick (tmrs (demo_timer 19 [20, 30]) (Obj x))) [20, 30]))
     \<and> (\<forall>x \<in> set [20, 30]. tm_status (tmrs u (Obj x)) =
          (if tm_tick (tmrs (demo_timer 19 [20, 30]) (Obj x)) \<le> timer_now u then TIMER_DONE else TIMER_ADDED))
     \<and> (\<forall>b. tk_sig_recvd (tasks u (Obj b)) = tk_sig_recvd (tasks (demo_timer 19 [20, 30]) (Obj b))
          OR sent_to (timer_mail (demo_timer 19 [20, 30])
            (filter (\<lambda>x. tm_tick (tmrs (demo_timer 19 [20, 30]) (Obj x)) \<le> timer_now u) [20, 30])) b))"
  by (rule timer_tick_fires_due [OF demo_timer_ok demo_timer_room(1)]) simp_all

text \<open>
  \<open>timer_add\<close> on a timer of a living task that is on no list.  A tick that is not in the future
  aborts it and leaves the queue alone; otherwise it is queued behind all timers with the
  same or an earlier tick and before all later ones, so the queue stays sorted.  No task
  changes.
\<close>

theorem timer_add_sorted:
  assumes "timers_ok s L r ts xs" and "unlinked L x" and "x \<notin> ts" and "nest_room 1 s" and "timer_addable s ts x"
  shows "runs_to (timer_add (Obj x)) s (\<lambda>_ u. \<exists>q. timers_ok u (L(timers \<mapsto> q)) r ts q \<and> tasks u = tasks s
     \<and> (if added_tick s x \<le> timer_now s then q = xs \<and> tm_status (tmrs u (Obj x)) = TIMER_ABORTED
        else tm_status (tmrs u (Obj x)) = TIMER_ADDED \<and> (\<exists>ys zs. xs = ys @ zs \<and> q = ys @ x # zs
          \<and> (\<forall>y \<in> set ys. tm_tick (tmrs s (Obj y)) \<le> added_tick s x)
          \<and> (\<forall>z \<in> set zs. added_tick s x < tm_tick (tmrs s (Obj z))))))"
proof (cases "added_tick s x \<le> timer_now s")
  case True
  have l: "L timers = Some xs" by (rule timers_ok_facts(2) [OF assms(1)])
  have "timers_ok (with_timer s x TIMER_ABORTED) (L(timers \<mapsto> xs)) r ts xs"
    using timers_ok_with_timer [OF assms(1) unlinkedD [OF assms(2) l]] l by (simp add: timers_ok_def fun_upd_idem)
  then show ?thesis
    using True by (intro runs_to_weaken [OF timer_add_elapsed [OF assms(5)]] exI [of _ xs]) (auto simp: with_timer_def)
next
  case False
  let ?s1 = "with_timer s x TIMER_ADDED"
  let ?P = "\<lambda>y. tm_tick (tmrs s (Obj y)) \<le> added_tick s x"
  have nx: "x \<notin> set xs" by (rule unlinkedD [OF assms(2) timers_ok_facts(2) [OF assms(1)]])
  have tk: "tm_tick (tmrs ?s1 (Obj y)) = (if y = x then added_tick s x else tm_tick (tmrs s (Obj y)))" for y
    by (simp add: with_timer_def)
  have "y \<in> set xs \<Longrightarrow> tick_key (tmrs ?s1) x \<le> tick_key (tmrs ?s1) y \<longleftrightarrow> ?P y" for y
    using nx by (auto simp: tick_key_le tk)
  then have q: "enqueue_spec (tick_key (tmrs ?s1)) x xs = takeWhile ?P xs @ x # dropWhile ?P xs"
    by (simp add: enqueue_spec_def cong: takeWhile_cong dropWhile_cong)
  have "\<forall>z \<in> set (dropWhile ?P xs). added_tick s x < tm_tick (tmrs s (Obj z))"
    using takeWhile_due(2) [OF timers_ok_facts(3) [OF assms(1)], of "added_tick s x"] by simp
  then have "\<exists>ys zs. xs = ys @ zs \<and> enqueue_spec (tick_key (tmrs ?s1)) x xs = ys @ x # zs
      \<and> (\<forall>y \<in> set ys. ?P y) \<and> (\<forall>z \<in> set zs. added_tick s x < tm_tick (tmrs s (Obj z)))"
    using q by (intro exI [of _ "takeWhile ?P xs"] exI [of _ "dropWhile ?P xs"]) (auto dest: set_takeWhileD)
  then show ?thesis
    using False by (intro runs_to_weaken [OF timer_add_queues [OF assms]] exI [of _ "enqueue_spec (tick_key (tmrs ?s1)) x xs"])
      (auto simp: with_timer_def)
qed

theorem timer_add_sorted_witness:
  "runs_to (timer_add (Obj 22)) (demo_timer 19 [20, 30]) (\<lambda>_ u. \<exists>q.
     timers_ok u (demo_lists(timers \<mapsto> [20, 30], timers \<mapsto> q)) 5 {0, 5, 6, 7} q \<and> tasks u = tasks (demo_timer 19 [20, 30])
     \<and> (if added_tick (demo_timer 19 [20, 30]) 22 \<le> timer_now (demo_timer 19 [20, 30])
        then q = [20, 30] \<and> tm_status (tmrs u (Obj 22)) = TIMER_ABORTED
        else tm_status (tmrs u (Obj 22)) = TIMER_ADDED \<and> (\<exists>ys zs. [20, 30] = ys @ zs \<and> q = ys @ 22 # zs
          \<and> (\<forall>y \<in> set ys. tm_tick (tmrs (demo_timer 19 [20, 30]) (Obj y)) \<le> added_tick (demo_timer 19 [20, 30]) 22)
          \<and> (\<forall>z \<in> set zs. added_tick (demo_timer 19 [20, 30]) 22 < tm_tick (tmrs (demo_timer 19 [20, 30]) (Obj z))))))"
  by (rule timer_add_sorted [OF demo_timer_ok demo_timer_unlinked _ demo_timer_room(2)])
    (simp_all add: timer_addable_def demo_timer_def image_iff)


text \<open>
  C25: A delay that crosses the end of the 32-bit clock is not waited for: \<open>timer_add\<close> aborts the timer
  at once as if it had elapsed, and changes no list and no task.
\<close>

theorem timer_add_wraps:
  assumes "timer_addable s ts x" and "tm_op (tmrs s (Obj x)) = TIMER_DELAY"
    and "2 ^ 32 \<le> unat (timer_now s) + unat (tm_delay (tmrs s (Obj x)))"
  shows "runs_to (timer_add (Obj x)) s (\<lambda>_ u. tm_status (tmrs u (Obj x)) = TIMER_ABORTED \<and> nodes u = nodes s
     \<and> tasks u = tasks s)"
proof -
  let ?d = "tm_delay (tmrs s (Obj x))"
  have lim: "unat w < 2 ^ 32" for w :: Ticks using unsigned_less [of w] by simp
  have "unat (timer_now s + ?d) = unat (timer_now s) + unat ?d - 2 ^ 32"
    using assms(3) lim [of "timer_now s"] lim [of ?d]
    by (simp add: unat_word_ariths mod_if)
  then have "added_tick s x \<le> timer_now s"
    using assms(2) lim [of ?d] by (simp add: added_tick_def word_le_nat_alt)
  then show ?thesis
    by (intro runs_to_weaken [OF timer_add_elapsed [OF assms(1)]]) (simp_all add: with_timer_def)
qed

theorem timer_add_wraps_witness:
  "runs_to (timer_add (Obj 22)) (demo_timer 0xFFFFFFFE []) (\<lambda>_ u. tm_status (tmrs u (Obj 22)) = TIMER_ABORTED
     \<and> nodes u = nodes (demo_timer 0xFFFFFFFE []) \<and> tasks u = tasks (demo_timer 0xFFFFFFFE []))"
  by (rule timer_add_wraps [of _ "{7}"]) (simp_all add: timer_addable_def demo_timer_def)

text \<open>
  C23: A delay takes exactly its number of clock interrupts.  A timer added with a delay of \<open>d > 0\<close>
  ticks that does not cross the end of the clock is still queued after each of the first
  \<open>d - 1\<close> clock interrupts; after the \<open>d\<close>-th it is done and its task has received its signal.
\<close>

theorem timer_fires_on_time:
  assumes "timers_ok s L r ts xs" and "unlinked L x" and "x \<notin> ts" and "nest_room 2 s" and "timer_addable s ts x"
    and "tm_op (tmrs s (Obj x)) = TIMER_DELAY" and "tm_task (tmrs s (Obj x)) = Obj t"
    and "unat (timer_now s) + unat (tm_delay (tmrs s (Obj x))) < 2 ^ 32"
    and "0 < k" and "k \<le> unat (tm_delay (tmrs s (Obj x)))"
  shows "runs_to (seqM (timer_add (Obj x)) (repeatM k (TIM2_IRQHandler True))) s (\<lambda>_ u.
     if k < unat (tm_delay (tmrs s (Obj x))) then tm_status (tmrs u (Obj x)) = TIMER_ADDED
     else tm_status (tmrs u (Obj x)) = TIMER_DONE
       \<and> tk_sig_recvd (tasks u (Obj t)) AND tm_signal (tmrs s (Obj x)) = tm_signal (tmrs s (Obj x)))"
    (is "runs_to _ _ ?Q")
proof -
  let ?d = "tm_delay (tmrs s (Obj x))"
  have un: "unat (timer_now s + ?d) = unat (timer_now s) + unat ?d" "unat (timer_now s + of_nat k) = unat (timer_now s) + k"
    using assms(8,10) by (simp_all add: unat_word_ariths unat_of_nat)
  have at: "added_tick s x = timer_now s + ?d" using assms(6) by (simp add: added_tick_def)
  have lt: "timer_now s < added_tick s x"
    using assms(9,10) un by (simp add: at word_less_nat_alt)
  obtain j where j: "k = Suc j" using assms(9) by (cases k) auto
  let ?s1 = "with_timer s x TIMER_ADDED"
  let ?q = "enqueue_spec (tick_key (tmrs ?s1)) x xs"
  have n1: "nest_room 1 s" using assms(4) by (simp add: nest_room_def)
  show ?thesis
    unfolding runs_to_seqM
  proof (rule runs_to_weaken [OF timer_add_queues [OF assms(1,2,3) n1 assms(5) lt]], elim exE conjE)
    fix y v h
    assume v: "timers_ok v (L(timers \<mapsto> ?q)) r ts ?q" "v = ?s1\<lparr>nodes := h\<rparr>"
    have f: "timer_now v = timer_now s" "nest_room 2 v" "tm_tick (tmrs v (Obj x)) = timer_now s + ?d"
      "tm_status (tmrs v (Obj x)) = TIMER_ADDED" "tm_task (tmrs v (Obj x)) = Obj t"
      "tm_signal (tmrs v (Obj x)) = tm_signal (tmrs s (Obj x))"
      using assms(4,7) by (simp_all add: v(2) nest_room_def with_timer_def at)
    have due: "due v (timer_now s + of_nat k) x \<longleftrightarrow> k = unat ?d"
      using un assms(10) by (auto simp: due_def f word_le_nat_alt)
    have sent: "sent_to (timer_mail v zs) t AND tm_signal (tmrs s (Obj x)) = tm_signal (tmrs s (Obj x))" if "x \<in> set zs" for zs
      by (rule sent_to_covers) (use that in \<open>auto simp: timer_mail_def obj_of_def f intro!: image_eqI [of _ _ x]\<close>)
    have "runs_to (repeatM k (TIM2_IRQHandler True)) v (\<lambda>_ u. ticked v r ts ?q (timer_now s + of_nat k) u)"
    proof -
      have "unat (timer_now v) + Suc j < 2 ^ 32" using assms(8,10) j by (simp add: f(1))
      from ticks_ok [OF v(1) f(2) this] show ?thesis unfolding f(1) j .
    qed
    then show "runs_to (repeatM k (TIM2_IRQHandler True)) v ?Q"
    proof (rule runs_to_weaken)
      fix z u assume u: "ticked v r ts ?q (timer_now s + of_nat k) u"
      show "?Q z u"
        using u assms(10) f(4) due sent [of "filter (due v (timer_now s + of_nat k)) ?q"]
        by (auto simp: ticked_def fired_def recorded_def and_or_absorb)
    qed
  qed
qed

theorem timer_fires_on_time_witness:
  "runs_to (seqM (timer_add (Obj 22)) (repeatM 3 (TIM2_IRQHandler True))) (demo_timer 19 [20, 30]) (\<lambda>_ u.
     if 3 < unat (tm_delay (tmrs (demo_timer 19 [20, 30]) (Obj 22))) then tm_status (tmrs u (Obj 22)) = TIMER_ADDED
     else tm_status (tmrs u (Obj 22)) = TIMER_DONE
       \<and> tk_sig_recvd (tasks u (Obj 7)) AND tm_signal (tmrs (demo_timer 19 [20, 30]) (Obj 22)) =
           tm_signal (tmrs (demo_timer 19 [20, 30]) (Obj 22)))"
  by (rule timer_fires_on_time [OF demo_timer_ok demo_timer_unlinked _ demo_timer_room(1)])
    (simp_all add: timer_addable_def demo_timer_def image_iff)

text \<open>Taking a queued timer off the queue; on any other timer \<open>timer_abort\<close> does nothing.\<close>

lemma timer_abort_queued:
  assumes "timers_ok s L r ts xs" and "x \<in> set xs" and "nest_room 1 s"
  shows "runs_to (timer_abort (Obj x)) s (\<lambda>_ u. timers_ok u (L(timers \<mapsto> remove1 x xs)) r ts (remove1 x xs)
     \<and> u = s\<lparr>nodes := nodes u\<rparr> \<and> same_data (nodes s) (nodes u))"
proof -
  note f = timers_ok_facts [OF assms(1)]
  have st: "tm_status (tmrs s (Obj x)) = TIMER_ADDED" using assms(1,2) by (simp add: timers_ok_def timer_ok_def)
  have rx: "r \<notin> set (remove1 x xs)"
    using alive_facts(4) [OF f(1)] alive_facts(5) [OF f(1,2)] by (auto dest: notin_set_remove1)
  have al: "alive (s\<lparr>nodes := h\<rparr>) (L(timers \<mapsto> remove1 x xs)) r ts"
    if "lists_ok h (L(timers \<mapsto> remove1 x xs))" "same_data (nodes s) h" for h
    by (rule alive_other_list [OF f(1)]) (use that f(4) rx in \<open>simp_all add: irq_ok_def\<close>)
  have so: "sorted_prio (tick_key (tmrs s)) (remove1 x xs)"
    using f(3) lists_ok_distinct [OF f(5,2)]
    by (simp add: sorted_prio_def distinct_remove1_removeAll removeAll_filter_not_eq sorted_wrt_filter)
  have "timers_ok (s\<lparr>nodes := h\<rparr>) (L(timers \<mapsto> remove1 x xs)) r ts (remove1 x xs)"
    if "lists_ok h (L(timers \<mapsto> remove1 x xs))" "same_data (nodes s) h" for h
    using al [OF that] so assms(1) by (auto simp: timers_ok_def timer_ok_def dest: notin_set_remove1)
  then have "runs_to (list_unlink (Obj x)) (nodes s) (\<lambda>_ h.
     timers_ok (s\<lparr>nodes := h\<rparr>) (L(timers \<mapsto> remove1 x xs)) r ts (remove1 x xs) \<and> same_data (nodes s) h)"
    by (intro runs_to_weaken [OF lc.unlink_law [OF f(5,2) assms(2)]]) auto
  then show ?thesis
    using st by (simp add: timer_abort_def run_simps crit [OF f(4) assms(3)])
qed

lemma timer_abort_idle:
  assumes "irq_ok s" and "nest_room 1 s" and "tm_status (tmrs s (Obj x)) \<noteq> TIMER_ADDED"
  shows "runs_to (timer_abort (Obj x)) s (\<lambda>_ u. u = s)"
  using assms(3) by (simp add: timer_abort_def run_simps crit [OF assms(1,2)])

text \<open>
  C26: \<open>timer_abort\<close> on a queued timer takes exactly this timer off the queue and changes no task, but
  leaves its status \<open>TIMER_ADDED\<close>: adding the timer again stops the system.
\<close>

theorem timer_abort_keeps_added:
  assumes "timers_ok s L r ts xs" and "x \<in> set xs" and "nest_room 1 s"
  shows "runs_to (timer_abort (Obj x)) s (\<lambda>_ u.
     timers_ok u (L(timers \<mapsto> remove1 x xs)) r ts (remove1 x xs) \<and> tasks u = tasks s \<and> tmrs u = tmrs s
     \<and> tm_status (tmrs u (Obj x)) = TIMER_ADDED \<and> timer_add (Obj x) u = Inl AssertFailed)"
proof (rule runs_to_weaken [OF timer_abort_queued [OF assms]], elim conjE)
  have st: "tm_status (tmrs s (Obj x)) = TIMER_ADDED" using assms(1,2) by (simp add: timers_ok_def timer_ok_def)
  fix v u assume t: "timers_ok u (L(timers \<mapsto> remove1 x xs)) r ts (remove1 x xs)" and e: "u = s\<lparr>nodes := nodes u\<rparr>"
  have u: "tmrs u = tmrs s" "tasks u = tasks s" by (subst e, simp)+
  then show "timers_ok u (L(timers \<mapsto> remove1 x xs)) r ts (remove1 x xs) \<and> tasks u = tasks s \<and> tmrs u = tmrs s
     \<and> tm_status (tmrs u (Obj x)) = TIMER_ADDED \<and> timer_add (Obj x) u = Inl AssertFailed"
    using t st by (simp add: timer_add_def run_apply get_timer_def)
qed

theorem timer_abort_keeps_added_witness:
  "runs_to (timer_abort (Obj 20)) (demo_timer 19 [20, 30]) (\<lambda>_ u.
     timers_ok u (demo_lists(timers \<mapsto> [20, 30], timers \<mapsto> remove1 20 [20, 30])) 5 {0, 5, 6, 7} (remove1 20 [20, 30])
     \<and> tasks u = tasks (demo_timer 19 [20, 30]) \<and> tmrs u = tmrs (demo_timer 19 [20, 30])
     \<and> tm_status (tmrs u (Obj 20)) = TIMER_ADDED \<and> timer_add (Obj 20) u = Inl AssertFailed)"
  by (rule timer_abort_keeps_added [OF demo_timer_ok _ demo_timer_room(2)]) simp_all


text \<open>
  C24: \<open>timer_delay\<close> by the running task, with its local timer on no list and a signal free.  A delay
  of zero, or one that crosses the end of the clock, returns at once with the signal freed
  again.  Otherwise the task blocks: it is on the waiting list, waits for the signal that
  the queued timer will send to it and for no other, and the timer is set to the current
  time plus the delay.
\<close>

theorem timer_delay_outcome:
  assumes "kern s L r rs ws" and "r \<notin> set rs" and "r \<notin> set ws" and "r \<noteq> init_addr" and "nest_room 1 s"
    and "timers_ok s L r (insert r (set rs \<union> set ws)) xs" and "unlinked L x" and "x \<notin> insert r (set rs \<union> set ws)"
    and "\<exists>k < 16. \<not> bit (tk_sig_alloc (tasks s (Obj r))) k"
  shows "runs_to (timer_delay (Obj x) d) s (\<lambda>v u.
     if timer_now s + d \<le> timer_now s
     then v = Elapsed \<and> kern u L r rs ws \<and> tk_sig_alloc (tasks u (Obj r)) = tk_sig_alloc (tasks s (Obj r))
     else v = DelayBlocked (to_int16 (id_nestcnt s + 1)) \<and> pendsv u
       \<and> tk_sig_wait (tasks u (Obj r)) = tm_signal (tmrs u (Obj x)) \<and> tm_signal (tmrs u (Obj x)) \<noteq> 0
       \<and> tm_task (tmrs u (Obj x)) = Obj r \<and> tm_tick (tmrs u (Obj x)) = timer_now s + d
       \<and> (\<exists>q L'. timers_ok u L' r (insert r (set rs \<union> set ws)) q \<and> set q = insert x (set xs)
            \<and> kern u L' r rs (ws @ [r])))" (is "runs_to _ _ ?Q")
proof -
  let ?ts = "insert r (set rs \<union> set ws)"
  have "runs_to (seqM (timer_add (Obj x)) (bindM (get_timer (Obj x) tm_status) (\<lambda>st.
     if TIMER_ADDED = st then
       bindM (get_timer (Obj x) tm_signal) (\<lambda>g. bindM (signal_wait g) (delay_finish (Obj x)))
     else seqM (timer_free (Obj x)) (ret Elapsed)))) (armed_timer s r k x d) ?Q"
    if k: "k < 16" "k \<noteq> 0" "\<not> bit (tk_sig_alloc (tasks s (Obj r))) k" "kern (allocated_timer s r k x) L r rs ws" for k
    unfolding run_simps
  proof (rule runs_to_weaken [OF timer_arm_ok [OF assms(1,2,3,5,6,7,8) k(4)]])
    fix y u assume u: "armed s L r rs ws xs x d k u"
    note f = armed_facts [OF u] and w = armed_wait_blocks [OF u k(1)]
    show "Obj x \<noteq> NULL \<and> (if TIMER_ADDED = tm_status (tmrs u (Obj x)) then Obj x \<noteq> NULL
        \<and> runs_to (signal_wait (tm_signal (tmrs u (Obj x)))) u (\<lambda>a t. runs_to (delay_finish (Obj x) a) t ?Q)
        else runs_to (timer_free (Obj x)) u (\<lambda>_ t. ?Q Elapsed t))"
    proof (cases "timer_now s + d \<le> timer_now s")
      case True
      then have st: "tm_status (tmrs u (Obj x)) = TIMER_ABORTED" and ku: "kern u L r rs ws"
        using u by (simp_all add: armed_def Let_def)
      have al: "sig_mask k AND tk_sig_alloc (tasks u (Obj r)) = sig_mask k"
        using fresh_mask(2) [OF k(1,2)] by (simp add: f allocated_def)
      show ?thesis
        using True by (simp add: st, intro runs_to_weaken [OF timer_free_ok [OF ku assms(2,3) fresh_mask(1) [OF k(1,2)] al f(3)]])
          (use fresh_mask(4) [OF k(1,2,3)] in \<open>auto simp: f allocated_def\<close>)
    next
      case False
      then obtain q where st: "tm_status (tmrs u (Obj x)) = TIMER_ADDED" and ku: "kern u (L(timers \<mapsto> q)) r rs ws"
        and q: "timers_ok u (L(timers \<mapsto> q)) r ?ts q" "set q = insert x (set xs)" "tm_tick (tmrs u (Obj x)) = timer_now s + d"
        using u by (auto simp: armed_def Let_def)
      have n: "nest_room 1 u" using assms(5) by (simp add: nest_room_def f)
      have "timers_ok v (L(timers \<mapsto> q, waiting \<mapsto> ws @ [r])) r ?ts q"
        if "kern v (L(timers \<mapsto> q, waiting \<mapsto> ws @ [r])) r rs (ws @ [r])" "tmrs v = tmrs u" for v
        using that aliveI [OF that(1)] by (intro timers_ok_other [OF q(1)]) auto
      then show ?thesis
        using False q(2,3) fresh_mask(3) [OF k(1,2)]
        by (simp add: st f(3), intro runs_to_weaken [OF signal_wait_kern [OF ku assms(2-4) n]])
          (auto simp: wait_post_def same_store_def Let_def w f(2-4) delay_finish_def run_simps)
    qed
  qed
  then show ?thesis
    unfolding timer_delay_def by (rule timer_prepare [OF assms(1-3,5,9)])
qed

theorem timer_delay_outcome_witness:
  "runs_to (timer_delay (Obj 22) 8) (demo_timer 19 [20, 30]) (\<lambda>v u.
     if timer_now (demo_timer 19 [20, 30]) + 8 \<le> timer_now (demo_timer 19 [20, 30])
     then v = Elapsed \<and> kern u (demo_lists(timers \<mapsto> [20, 30])) 5 [6, 0] [7]
       \<and> tk_sig_alloc (tasks u (Obj 5)) = tk_sig_alloc (tasks (demo_timer 19 [20, 30]) (Obj 5))
     else v = DelayBlocked (to_int16 (id_nestcnt (demo_timer 19 [20, 30]) + 1)) \<and> pendsv u
       \<and> tk_sig_wait (tasks u (Obj 5)) = tm_signal (tmrs u (Obj 22)) \<and> tm_signal (tmrs u (Obj 22)) \<noteq> 0
       \<and> tm_task (tmrs u (Obj 22)) = Obj 5 \<and> tm_tick (tmrs u (Obj 22)) = timer_now (demo_timer 19 [20, 30]) + 8
       \<and> (\<exists>q L'. timers_ok u L' 5 (insert 5 (set [6, 0] \<union> set [7])) q \<and> set q = insert 22 (set [20, 30])
            \<and> kern u L' 5 [6, 0] ([7] @ [5])))"
proof (rule timer_delay_outcome [OF demo_timer_kern _ _ _ demo_timer_room(2) _ demo_timer_unlinked])
  show "timers_ok (demo_timer 19 [20, 30]) (demo_lists(timers \<mapsto> [20, 30])) 5 (insert 5 (set [6, 0] \<union> set [7])) [20, 30]"
    using demo_timer_ok [of "[20, 30]" 19] by (simp add: insert_commute)
  show "\<exists>k<16. \<not> bit (tk_sig_alloc (tasks (demo_timer 19 [20, 30]) (Obj 5))) k"
    by (simp add: demo_timer_def demo_tasks_def demo_task_def exI [of _ 1] bit_numeral_rec)
qed (simp_all add: init_addr_def)


text \<open>
  C21: A delay ends when it should.  Task \<open>w\<close> is blocked in \<open>timer_delay\<close>, more urgent than every
  other task, and its timer is set to the next tick.  The next clock interrupt requests a
  context switch, whatever other timers it fires; the switch runs \<open>w\<close>, whose \<open>timer_delay\<close>
  returns with its signal freed and the nesting count of its caller.
\<close>

theorem timer_delay_completes:
  assumes "timers_ok s L y ts xs" and "nest_room 2 s" and "\<not> primask s"
    and "x \<in> set xs" and "tm_tick (tmrs s (Obj x)) = timer_now s + 1" and "tm_task (tmrs s (Obj x)) = Obj w"
    and "w \<in> ts" and "w \<noteq> y" and "w \<noteq> init_addr"
    and "\<forall>t \<in> ts. t \<noteq> w \<longrightarrow> prio_of (nodes s) t < prio_of (nodes s) w"
    and "tk_sig_wait (tasks s (Obj w)) = tm_signal (tmrs s (Obj x))" and "tm_signal (tmrs s (Obj x)) \<noteq> 0"
    and "tm_signal (tmrs s (Obj x)) AND SIGF_SINGLE = 0"
    and "tm_signal (tmrs s (Obj x)) AND tk_sig_alloc (tasks s (Obj w)) = tm_signal (tmrs s (Obj x))"
    and "frame_fits (psp - 32) (tk_context (tasks s (Obj y)))" and "0 \<le> n" and "n \<le> INT32_MAX"
  shows "runs_to (TIM2_IRQHandler True) s (\<lambda>_ u. pendsv u
     \<and> runs_to (bindM (PendSV_Handler psp) (\<lambda>_. timer_delay_resume (Obj x) (tm_signal (tmrs s (Obj x))) n)) u
        (\<lambda>v t. v = Elapsed \<and> running t = Obj w \<and> id_nestcnt t = n - 1
           \<and> tk_sig_alloc (tasks t (Obj w)) = tk_sig_alloc (tasks s (Obj w)) AND NOT (tm_signal (tmrs s (Obj x)))
           \<and> (\<exists>L' rs' ws'. kern t L' w rs' ws')))" (is "runs_to _ _ ?Q")
proof (rule runs_to_weaken [OF TIM2_ok [OF assms(1,2)]])
  let ?g = "tm_signal (tmrs s (Obj x))"
  fix z u assume u: "ticked s y ts xs (timer_now s + 1) u"
  obtain L' where L': "timers_ok u L' y ts (filter (\<lambda>x. \<not> due s (timer_now s + 1) x) xs)" using u by (auto simp: ticked_def)
  let ?f = "filter (due s (timer_now s + 1)) xs"
  have mail: "sent_to (timer_mail s ?f) w AND ?g = ?g"
    by (rule sent_to_covers) (use assms(4-6) in \<open>auto simp: timer_mail_def obj_of_def due_def intro!: image_eqI [of _ _ x]\<close>)
  have R: "tk_sig_recvd (tasks u (Obj w)) AND ?g = ?g" "tk_sig_wait (tasks u (Obj w)) = ?g"
    "tk_sig_alloc (tasks u (Obj w)) = tk_sig_alloc (tasks s (Obj w))" "tk_context (tasks u (Obj y)) = tk_context (tasks s (Obj y))"
    "tm_signal (tmrs u (Obj x)) = ?g" "\<not> primask u" "id_nestcnt u = - 1"
    using u mail assms(3,11) timers_ok_facts(4) [OF assms(1)] by (simp_all add: ticked_def recorded_def and_or_absorb irq_ok_def)
  then have "tk_sig_wait (tasks u (Obj w)) AND tk_sig_recvd (tasks u (Obj w)) \<noteq> 0" using assms(12) by (simp add: and.commute)
  from received_ready [OF timers_ok_facts(1) [OF L'] assms(7,8) this]
  obtain rs ws where k: "kern u L' y rs ws" "w \<in> set rs" "ts = insert y (set rs \<union> set ws)" by blast
  have pr: "\<forall>t \<in> insert y (set rs). t \<noteq> w \<longrightarrow> prio_of (nodes u) t < prio_of (nodes u) w"
    using assms(10) k(3) same_data_prio_of [of "nodes s" "nodes u"] u by (simp add: ticked_def)
  note sw = switch_to_urgent [OF k(1,2) assms(8) pr]
  have "runs_to (bindM (PendSV_Handler psp) (\<lambda>_. timer_delay_resume (Obj x) ?g n)) u
      (\<lambda>v t. v = Elapsed \<and> running t = Obj w \<and> id_nestcnt t = n - 1
         \<and> tk_sig_alloc (tasks t (Obj w)) = tk_sig_alloc (tasks s (Obj w)) AND NOT ?g \<and> (\<exists>L' rs' ws'. kern t L' w rs' ws'))"
    unfolding runs_to_bindM
  proof (rule runs_to_weaken [OF PendSV_kern [OF k(1) R(6)]])
    show "frame_fits (psp - 32) (tk_context (tasks u (Obj y)))" using assms(15) R(4) by simp
    fix v t assume t: "switch_post u L' y rs ws (psp - 32) v t"
    let ?L = "L'(ready \<mapsto> tl (switch_queue u y rs ws))" and ?ys = "tl (switch_queue u y rs ws)"
    have kt: "kern t ?L w ?ys ws" and np: "\<not> pendsv t" and o: "id_nestcnt t = - 1" "tmrs t = tmrs u"
      and T: "tasks t (Obj w) = (tasks u (Obj w))\<lparr>tk_state := TASK_RUNNING\<rparr>"
      using t sw(2) R(7) assms(8) by (simp_all add: switch_post_def Let_def same_defs switch_tasks_def)
    have g: "tk_sig_wait (tasks t (Obj w)) = ?g" "?g AND tk_sig_recvd (tasks t (Obj w)) \<noteq> 0" "tm_signal (tmrs t (Obj x)) = ?g"
      "?g AND tk_sig_alloc (tasks t (Obj w)) = ?g"
      using R assms(12,14) T o by (simp_all add: and.commute)
    have "tk_sig_alloc (tasks t (Obj w)) = tk_sig_alloc (tasks s (Obj w))" using T R(3) by simp
    with timer_delay_returns [OF kt kern_sched(1,2) [OF kt np] assms(9) o(1) g(1-3) assms(13) g(4) assms(16,17)]
    show "runs_to (timer_delay_resume (Obj x) ?g n) t
      (\<lambda>v t. v = Elapsed \<and> running t = Obj w \<and> id_nestcnt t = n - 1
         \<and> tk_sig_alloc (tasks t (Obj w)) = tk_sig_alloc (tasks s (Obj w)) AND NOT ?g \<and> (\<exists>L' rs' ws'. kern t L' w rs' ws'))"
      by (auto elim!: runs_to_weaken dest: kern_lists(4))
  qed
  then show "?Q z u" using sw(1) by simp
qed

theorem timer_delay_completes_witness:
  "runs_to (TIM2_IRQHandler True) (demo_timer 19 [20, 30]) (\<lambda>_ u. pendsv u
     \<and> runs_to (bindM (PendSV_Handler 0x20000300)
          (\<lambda>_. timer_delay_resume (Obj 20) (tm_signal (tmrs (demo_timer 19 [20, 30]) (Obj 20))) 0)) u
        (\<lambda>v t. v = Elapsed \<and> running t = Obj 7 \<and> id_nestcnt t = 0 - 1
           \<and> tk_sig_alloc (tasks t (Obj 7)) = tk_sig_alloc (tasks (demo_timer 19 [20, 30]) (Obj 7))
               AND NOT (tm_signal (tmrs (demo_timer 19 [20, 30]) (Obj 20)))
           \<and> (\<exists>L' rs' ws'. kern t L' 7 rs' ws')))"
proof (rule timer_delay_completes [OF demo_timer_ok demo_timer_room(1)])
  show "\<forall>t \<in> {0, 5, 6, 7}. t \<noteq> 7 \<longrightarrow> prio_of (nodes (demo_timer 19 [20, 30])) t < prio_of (nodes (demo_timer 19 [20, 30])) 7"
    using demo_timer_lists [of "[20, 30]"] demo_order
    by (auto simp: demo_timer_def same_data_prio_of demo_prio_of intro: order.strict_trans order.strict_trans1)
qed (simp_all add: demo_timer_def obj_of_def init_addr_def demo_tasks_def demo_task_def frame_fits_def blank_task_def
    frame_offsets SIGF_SINGLE_def INT32_MAX_def)

end
