(* ===== verification/SysArch.thy ===== *)
theory SysArch
  imports TimerProps
begin

unbundle bit_operations_syntax

text \<open>
  The port of the lwIP stack to the kernel, \<open>lwip_martos/sys_arch.c\<close> with the types of
  \<open>lwip_martos/include/arch\<close>: semaphores with timeout, mailboxes and threads for the
  network stack.  lwIP itself is not part of the repository: its memory allocator and the two
  constants the port uses are the parameter \<open>lwip\<close>.  Statistics counters are lwIP's too and are
  not modelled.
\<close>

section \<open>What the port uses of lwIP\<close>

text \<open>
  \<open>'m\<close> is the state of the allocator.  \<open>malloc_msg\<close>, \<open>malloc_task\<close> and \<open>malloc_stack\<close> are
  \<open>mem_malloc\<close> for a message, a task object and a stack of a number of bytes; the null pointer
  (address zero for a stack) is the failure.
\<close>

record 'm lwip =
  malloc_msg :: "'m \<Rightarrow> ptr \<times> 'm"
  malloc_task :: "'m \<Rightarrow> ptr \<times> 'm"
  malloc_stack :: "int \<Rightarrow> 'm \<Rightarrow> 32 word \<times> 'm"
  mem_free_obj :: "ptr \<Rightarrow> 'm \<Rightarrow> 'm"
  SYS_ARCH_TIMEOUT :: "32 word"
  SYS_MBOX_EMPTY :: "32 word"

text \<open>The state: the kernel's, the payload field \<open>ptr\<close> of every \<open>sys_msg_t\<close>, and the allocator's.\<close>

record 'm lstate =
  kernel :: kstate
  msg_ptr :: "ptr \<Rightarrow> 32 word"
  mem :: 'm

type_synonym ('m, 'a) LW = "('m lstate, 'a) M"

datatype err_t = ERR_OK

definition kcall :: "'a K \<Rightarrow> ('m, 'a) LW" where
  "kcall m = on_field kernel (\<lambda>k s. s\<lparr>kernel := k\<rparr>) m"

definition in_mem :: "('m \<Rightarrow> 'a \<times> 'm) \<Rightarrow> ('m, 'a) LW" where
  "in_mem f = (\<lambda>s. let (x, m) = f (mem s) in Inr (x, s\<lparr>mem := m\<rparr>))"

definition get_ptr :: "ptr \<Rightarrow> ('m, 32 word) LW" where
  "get_ptr m = (\<lambda>s. if m = NULL then Inl NullDeref else Inr (msg_ptr s m, s))"

definition set_ptr :: "ptr \<Rightarrow> 32 word \<Rightarrow> ('m, unit) LW" where
  "set_ptr m v = (\<lambda>s. if m = NULL then Inl NullDeref else Inr ((), s\<lparr>msg_ptr := (msg_ptr s)(m := v)\<rparr>))"

lemma runs_to_kcall [run_simps]:
  "runs_to (kcall m) s P = runs_to m (kernel s) (\<lambda>x k. P x (s\<lparr>kernel := k\<rparr>))"
  by (simp add: kcall_def run_simps)

lemma runs_to_in_mem [run_simps]: "runs_to (in_mem f) s P = (case f (mem s) of (x, m) \<Rightarrow> P x (s\<lparr>mem := m\<rparr>))"
  by (simp add: runs_to_def in_mem_def split: prod.split)

lemma runs_to_get_ptr [run_simps]: "runs_to (get_ptr m) s P \<longleftrightarrow> m \<noteq> NULL \<and> P (msg_ptr s m) s"
  by (simp add: runs_to_def get_ptr_def)

lemma runs_to_set_ptr [run_simps]:
  "runs_to (set_ptr m v) s P \<longleftrightarrow> m \<noteq> NULL \<and> P () (s\<lparr>msg_ptr := (msg_ptr s)(m := v)\<rparr>)"
  by (simp add: runs_to_def set_ptr_def)

section \<open>Semaphores\<close>

definition sys_arch_abort :: "unit K" where
  "sys_arch_abort = user_halt"

definition sys_init :: "unit K" where
  "sys_init = ret ()"

definition sys_sem_new :: "addr \<Rightarrow> 8 word \<Rightarrow> err_t K" where
  "sys_sem_new sem cnt = seqM (sem_init sem (uint cnt)) (ret ERR_OK)"

definition sys_sem_free :: "addr \<Rightarrow> unit K" where
  "sys_sem_free sem = ret ()"

definition sys_sem_valid :: "addr \<Rightarrow> int K" where
  "sys_sem_valid sem = ret 1"

definition sys_sem_set_invalid :: "addr \<Rightarrow> unit K" where
  "sys_sem_set_invalid sem = ret ()"

definition sys_sem_signal :: "addr \<Rightarrow> unit K" where
  "sys_sem_signal sem = sem_signal sem"

text \<open>The expression \<open>1 << signal_allocate(-1)\<close>: undefined when no signal is free.\<close>

definition shift_signal :: "SignalNumber \<Rightarrow> Signals K" where
  "shift_signal n = (if n < 0 then throw BadShift else ret (sig_mask (nat n)))"

text \<open>The set-up of a timeout, the same in \<open>sys_arch_sem_wait\<close> and \<open>sys_arch_mbox_fetch\<close>.\<close>

definition arm_timeout :: "ptr \<Rightarrow> Ticks \<Rightarrow> Signals K" where
  "arm_timeout timer timeout =
     (if 0 \<noteq> timeout then
        seqM (timer_allocate timer) (
        seqM (set_timer timer (\<lambda>t. t\<lparr>tm_op := TIMER_DELAY\<rparr>)) (
        seqM (set_timer timer (\<lambda>t. t\<lparr>tm_delay := timeout\<rparr>)) (
        bindM (get_timer timer tm_signal) (\<lambda>timer_signal.
        seqM (timer_add timer) (
        ret timer_signal)))))
      else ret 0)"

definition disarm_timeout :: "ptr \<Rightarrow> Signals \<Rightarrow> unit K" where
  "disarm_timeout timer timer_signal =
     whenM (0 \<noteq> timer_signal) (seqM (timer_abort timer) (timer_free timer))"

text \<open>
  \<open>sys_arch_sem_wait\<close> with its locals \<open>req\<close> and \<open>timer\<close>, split where it may block.  \<open>SysBlocked\<close>
  holds the locals \<open>start_time\<close> and \<open>timer_signal\<close> and the nesting count that \<open>signal_wait\<close> saved.
\<close>

datatype sys_result = SysTime "32 word" | SysBlocked Ticks Signals int

definition sem_wait_finish :: "'m lwip \<Rightarrow> ptr \<Rightarrow> ptr \<Rightarrow> Ticks \<Rightarrow> Signals \<Rightarrow> wait_result \<Rightarrow> sys_result K" where
  "sem_wait_finish lw req timer start_time timer_signal w = (case w of
       Blocked n \<Rightarrow> ret (SysBlocked start_time timer_signal n)
     | Returned got_signals \<Rightarrow>
         bindM (get_req req rq_signal) (\<lambda>g.
         bindM (if 0 \<noteq> got_signals AND g then bindM timer_get_clock (\<lambda>now. ret (now - start_time))
                else if 0 \<noteq> got_signals AND timer_signal then ret (SYS_ARCH_TIMEOUT lw)
                else throw Hang) (\<lambda>end_time.
         seqM (disarm_timeout timer timer_signal) (
         bindM (get_req req rq_signal) (\<lambda>g.
         seqM (signal_free g) (
         ret (SysTime end_time)))))))"

definition sys_arch_sem_wait :: "'m lwip \<Rightarrow> addr \<Rightarrow> ptr \<Rightarrow> ptr \<Rightarrow> Ticks \<Rightarrow> sys_result K" where
  "sys_arch_sem_wait lw sem req timer timeout =
     bindM timer_get_clock (\<lambda>start_time.
     bindM (signal_allocate (- 1)) (\<lambda>n.
     bindM (shift_signal n) (\<lambda>g.
     seqM (set_req req (\<lambda>q. q\<lparr>rq_signal := g\<rparr>)) (
     seqM (assertM (0 \<noteq> g)) (
     bindM (task_find None) (\<lambda>t.
     seqM (set_req req (\<lambda>q. q\<lparr>rq_waiter := t\<rparr>)) (
     bindM (sem_add_request sem req) (\<lambda>b.
     if b = False then
       bindM timer_get_clock (\<lambda>now.
       bindM (get_req req rq_signal) (\<lambda>g.
       seqM (signal_free g) (
       ret (SysTime (now - start_time)))))
     else
       bindM (arm_timeout timer timeout) (\<lambda>timer_signal.
       bindM (get_req req rq_signal) (\<lambda>g.
       bindM (signal_wait (timer_signal OR g)) (
       sem_wait_finish lw req timer start_time timer_signal)))))))))))"

definition sys_arch_sem_wait_resume ::
  "'m lwip \<Rightarrow> ptr \<Rightarrow> ptr \<Rightarrow> Ticks \<Rightarrow> Signals \<Rightarrow> Signals \<Rightarrow> int \<Rightarrow> sys_result K" where
  "sys_arch_sem_wait_resume lw req timer start_time timer_signal signals nestcnt =
     bindM (signal_wait_resume signals nestcnt) (sem_wait_finish lw req timer start_time timer_signal)"

section \<open>Mailboxes\<close>

definition sys_mbox_new :: "addr \<Rightarrow> int \<Rightarrow> err_t K" where
  "sys_mbox_new mbox sz =
     seqM (in_nodes (list_init mbox)) (
     seqM (set_port mbox (\<lambda>p. p\<lparr>mp_signal := 0\<rparr>)) (
     seqM (set_port mbox (\<lambda>p. p\<lparr>mp_action := MSGPORT_IGNORE\<rparr>)) (
     seqM (set_port mbox (\<lambda>p. p\<lparr>mp_task := NULL\<rparr>)) (
     ret ERR_OK))))"

definition sys_mbox_free :: "addr \<Rightarrow> unit K" where
  "sys_mbox_free mbox = bindM (get_port mbox mp_signal) signal_free"

definition sys_mbox_valid :: "addr \<Rightarrow> int K" where
  "sys_mbox_valid mbox =
     bindM (get_port mbox mp_action) (\<lambda>a. if MSGPORT_INVALID = a then ret 0 else ret 1)"

definition sys_mbox_set_invalid :: "addr \<Rightarrow> unit K" where
  "sys_mbox_set_invalid mbox = set_port mbox (\<lambda>p. p\<lparr>mp_action := MSGPORT_INVALID\<rparr>)"

definition sys_mbox_post :: "'m lwip \<Rightarrow> addr \<Rightarrow> 32 word \<Rightarrow> ('m, unit) LW" where
  "sys_mbox_post lw mbox msg =
     bindM (in_mem (malloc_msg lw)) (\<lambda>m.
     seqM (set_ptr m msg) (
     kcall (msgport_send mbox m)))"

definition sys_mbox_trypost :: "'m lwip \<Rightarrow> addr \<Rightarrow> 32 word \<Rightarrow> ('m, err_t) LW" where
  "sys_mbox_trypost lw mbox msg = seqM (sys_mbox_post lw mbox msg) (ret ERR_OK)"

text \<open>
  \<open>sys_arch_mbox_fetch\<close>: \<open>want\<close> is whether the argument \<open>msg\<close> is not null; the value stored through
  it is part of the result.
\<close>

datatype fetch_result = Fetched "32 word" "32 word option" | FetchBlocked Ticks Signals int

definition mbox_take :: "'m lwip \<Rightarrow> addr \<Rightarrow> bool \<Rightarrow> ('m, 32 word option) LW" where
  "mbox_take lw mbox want =
     bindM (kcall (msgport_get mbox)) (\<lambda>m.
     seqM (assertM (NULL \<noteq> m)) (
     bindM (if want then bindM (get_ptr m) (\<lambda>v. ret (Some v)) else ret None) (\<lambda>msg.
     seqM (in_mem (\<lambda>a. ((), mem_free_obj lw m a))) (
     ret msg))))"

definition mbox_fetch_finish ::
  "'m lwip \<Rightarrow> addr \<Rightarrow> bool \<Rightarrow> ptr \<Rightarrow> Ticks \<Rightarrow> Signals \<Rightarrow> wait_result \<Rightarrow> ('m, fetch_result) LW" where
  "mbox_fetch_finish lw mbox want timer start_time timer_signal w = (case w of
       Blocked n \<Rightarrow> ret (FetchBlocked start_time timer_signal n)
     | Returned got_signals \<Rightarrow>
         bindM (kcall (get_port mbox mp_signal)) (\<lambda>g.
         bindM (if 0 \<noteq> got_signals AND g then
                  bindM (mbox_take lw mbox want) (\<lambda>msg.
                  bindM (kcall timer_get_clock) (\<lambda>now.
                  ret (now - start_time, msg)))
                else if 0 \<noteq> got_signals AND timer_signal then ret (SYS_ARCH_TIMEOUT lw, None)
                else throw Hang) (\<lambda>(end_time, msg).
         seqM (kcall (disarm_timeout timer timer_signal)) (
         ret (Fetched end_time msg)))))"

definition sys_arch_mbox_fetch ::
  "'m lwip \<Rightarrow> addr \<Rightarrow> bool \<Rightarrow> ptr \<Rightarrow> Ticks \<Rightarrow> ('m, fetch_result) LW" where
  "sys_arch_mbox_fetch lw mbox want timer timeout =
     bindM (kcall timer_get_clock) (\<lambda>start_time.
     bindM (kcall (task_find None)) (\<lambda>t.
     seqM (kcall (set_port mbox (\<lambda>p. p\<lparr>mp_task := t\<rparr>))) (
     bindM (kcall (get_port mbox mp_signal)) (\<lambda>g.
     seqM (kcall (whenM (0 = g) (
       bindM (signal_allocate (- 1)) (\<lambda>n.
       bindM (shift_signal n) (\<lambda>g.
       seqM (set_port mbox (\<lambda>p. p\<lparr>mp_signal := g\<rparr>)) (
       assertM (0 \<noteq> g))))))) (
     seqM (kcall (set_port mbox (\<lambda>p. p\<lparr>mp_action := MSGPORT_SIGNAL\<rparr>))) (
     bindM (kcall (arm_timeout timer timeout)) (\<lambda>timer_signal.
     bindM (kcall (get_port mbox mp_signal)) (\<lambda>g.
     bindM (kcall (signal_wait (timer_signal OR g))) (
     mbox_fetch_finish lw mbox want timer start_time timer_signal)))))))))"

definition sys_arch_mbox_fetch_resume ::
  "'m lwip \<Rightarrow> addr \<Rightarrow> bool \<Rightarrow> ptr \<Rightarrow> Ticks \<Rightarrow> Signals \<Rightarrow> Signals \<Rightarrow> int \<Rightarrow> ('m, fetch_result) LW" where
  "sys_arch_mbox_fetch_resume lw mbox want timer start_time timer_signal signals nestcnt =
     bindM (kcall (signal_wait_resume signals nestcnt)) (mbox_fetch_finish lw mbox want timer start_time timer_signal)"

definition sys_arch_mbox_tryfetch :: "'m lwip \<Rightarrow> addr \<Rightarrow> bool \<Rightarrow> ('m, 32 word \<times> 32 word option) LW" where
  "sys_arch_mbox_tryfetch lw mbox want =
     seqM (assertM want) (
     bindM (kcall (msgport_get mbox)) (\<lambda>m.
     if NULL = m then ret (SYS_MBOX_EMPTY lw, None)
     else
       bindM (get_ptr m) (\<lambda>v.
       seqM (in_mem (\<lambda>a. ((), mem_free_obj lw m a))) (
       ret (0, Some v)))))"

section \<open>Threads and time\<close>

definition sys_thread_new ::
  "'m lwip \<Rightarrow> image \<Rightarrow> string option \<Rightarrow> 32 word \<Rightarrow> 32 word \<Rightarrow> int \<Rightarrow> int \<Rightarrow> ('m, ptr) LW" where
  "sys_thread_new lw im name thread arg stacksize prio =
     bindM (in_mem (malloc_stack lw stacksize)) (\<lambda>stack.
     if 0 \<noteq> stack then
       bindM (in_mem (malloc_task lw)) (\<lambda>task.
       if NULL \<noteq> task then
         seqM (kcall (task_init im task name (mk_prio prio) thread arg stack (word_of_int stacksize))) (
         seqM (kcall (task_schedule task)) (
         ret task))
       else throw Hang)
     else throw Hang)"

definition sys_now :: "32 word K" where
  "sys_now = timer_get_clock"

end
