(* ===== verification/SysArchProps.thy ===== *)
theory SysArchProps
  imports SysArch
begin

unbundle bit_operations_syntax

text \<open>
  Properties of the lwIP port: mailboxes as queues of payloads, and what its semaphores and
  mailboxes do with timeouts and with messages posted early.
\<close>

section \<open>Mailboxes as queues of payloads\<close>

text \<open>The messages \<open>q\<close> on a mailbox carry the payloads \<open>ps\<close>.\<close>

definition mbox_holds :: "'m lstate \<Rightarrow> lists \<Rightarrow> addr \<Rightarrow> addr set \<Rightarrow> addr \<Rightarrow> addr list \<Rightarrow> 32 word list \<Rightarrow> bool" where
  "mbox_holds s L r ts mbox q ps = (port_ok (kernel s) L r ts mbox q \<and> ps = map (\<lambda>m. msg_ptr s (Obj m)) q)"

primrec post_all :: "'m lwip \<Rightarrow> addr \<Rightarrow> 32 word list \<Rightarrow> ('m, unit) LW" where
  "post_all lw mbox [] = ret ()"
| "post_all lw mbox (v # vs) = seqM (sys_mbox_post lw mbox v) (post_all lw mbox vs)"

primrec tryfetch_all :: "'m lwip \<Rightarrow> addr \<Rightarrow> nat \<Rightarrow> ('m, (32 word \<times> 32 word option) list) LW" where
  "tryfetch_all lw mbox 0 = ret []"
| "tryfetch_all lw mbox (Suc n) =
     bindM (sys_arch_mbox_tryfetch lw mbox True) (\<lambda>x. bindM (tryfetch_all lw mbox n) (\<lambda>xs. ret (x # xs)))"

text \<open>The objects that \<open>n\<close> requests for a message get.\<close>

primrec alloc_msgs :: "'m lwip \<Rightarrow> nat \<Rightarrow> 'm \<Rightarrow> ptr list" where
  "alloc_msgs lw 0 a = []"
| "alloc_msgs lw (Suc n) a = (case malloc_msg lw a of (m, a') \<Rightarrow> m # alloc_msgs lw n a')"

lemma sys_mbox_post_ok:
  assumes h: "mbox_holds s L r ts mbox q ps" and n: "nest_room 2 (kernel s)"
    and m: "malloc_msg lw (mem s) = (Obj m, a)" "unlinked L m" "m \<notin> ts"
  shows "runs_to (sys_mbox_post lw mbox v) s (\<lambda>_ u. \<exists>L'. mbox_holds u L' r ts mbox (q @ [m]) (ps @ [v])
     \<and> nest_room 2 (kernel u) \<and> mem u = a \<and> port_frame (kernel s) L mbox (kernel u) L')"
proof -
  have p: "port_ok (kernel s) L r ts mbox q" and ps: "ps = map (\<lambda>m. msg_ptr s (Obj m)) q" using h by (simp_all add: mbox_holds_def)
  have "m \<notin> set q" using p m(2) by (auto simp: port_ok_def dest: unlinkedD)
  then have ps': "ps @ [v] = map (\<lambda>x. ((msg_ptr s)(Obj m := v)) (Obj x)) (q @ [m])" using ps by auto
  show ?thesis
    by (simp add: sys_mbox_post_def run_simps m(1), rule runs_to_weaken [OF msgport_send_ok [OF p m(2,3) n]])
      (use n ps' in \<open>auto simp: mbox_holds_def port_frame_def same_defs nest_room_def\<close>)
qed

lemma tryfetch_ok:
  assumes h: "mbox_holds s L r ts mbox q ps" and n: "nest_room 2 (kernel s)"
  shows "runs_to (sys_arch_mbox_tryfetch lw mbox True) s (\<lambda>x u. (\<exists>L'. mbox_holds u L' r ts mbox (tl q) (tl ps))
     \<and> nest_room 2 (kernel u) \<and> x = (case ps of [] \<Rightarrow> (SYS_MBOX_EMPTY lw, None) | p # _ \<Rightarrow> (0, Some p)))"
proof -
  have p: "port_ok (kernel s) L r ts mbox q" and ps: "ps = map (\<lambda>m. msg_ptr s (Obj m)) q" using h by (simp_all add: mbox_holds_def)
  have n1: "nest_room 1 (kernel s)" using n by (simp add: nest_room_def)
  show ?thesis
    by (simp add: sys_arch_mbox_tryfetch_def run_simps, rule runs_to_weaken [OF msgport_get_ok [OF p n1]])
      (use n ps in \<open>auto simp: mbox_holds_def port_frame_def same_defs nest_room_def map_tl split: list.splits\<close>)
qed

lemma tryfetch_all_ok:
  "mbox_holds s L r ts mbox q ps \<Longrightarrow> nest_room 2 (kernel s) \<Longrightarrow>
   runs_to (tryfetch_all lw mbox (length ps)) s (\<lambda>xs u. xs = map (\<lambda>p. (0, Some p)) ps
     \<and> (\<exists>L'. mbox_holds u L' r ts mbox [] []))"
proof (induction ps arbitrary: s L q)
  case Nil
  then show ?case by (auto simp: run_simps mbox_holds_def)
next
  case (Cons p ps)
  show ?case
    unfolding list.size(4) add_Suc_right add_0_right tryfetch_all.simps(2) runs_to_bindM
    by (rule runs_to_weaken [OF tryfetch_ok [OF Cons.prems]])
      (auto simp: run_simps intro!: runs_to_weaken [OF Cons.IH])
qed

lemma post_all_ok:
  "mbox_holds s L r ts mbox q ps \<Longrightarrow> nest_room 2 (kernel s) \<Longrightarrow> alloc_msgs lw (length vs) (mem s) = map Obj ms \<Longrightarrow>
   distinct ms \<Longrightarrow> \<forall>m \<in> set ms. unlinked L m \<and> m \<notin> ts \<Longrightarrow>
   runs_to (post_all lw mbox vs) s (\<lambda>_ u. \<exists>L'. mbox_holds u L' r ts mbox (q @ ms) (ps @ vs) \<and> nest_room 2 (kernel u))"
proof (induction vs arbitrary: s L q ps ms)
  case Nil
  then show ?case by (auto simp: run_simps)
next
  case (Cons v vs)
  obtain m a where a: "malloc_msg lw (mem s) = (m, a)" by fastforce
  then obtain n ns where ms: "ms = n # ns" "m = Obj n" "alloc_msgs lw (length vs) a = map Obj ns"
    using Cons.prems(3) by (cases ms) auto
  have n: "unlinked L n" "n \<notin> ts" using Cons.prems(5) ms by auto
  show ?case
    unfolding post_all.simps runs_to_seqM
  proof (rule runs_to_weaken [OF sys_mbox_post_ok [OF Cons.prems(1,2) a [unfolded ms(2)] n]], elim exE conjE)
    fix x u L'
    assume u: "mbox_holds u L' r ts mbox (q @ [n]) (ps @ [v])" "nest_room 2 (kernel u)" "mem u = a"
      "port_frame (kernel s) L mbox (kernel u) L'"
    have "unlinked L' y \<and> y \<notin> ts" if "y \<in> set ns" for y
    proof -
      have y: "unlinked L y" "y \<notin> ts" "y \<noteq> n" using that Cons.prems(4,5) ms by auto
      have "L mbox = Some q" using Cons.prems(1) by (simp add: mbox_holds_def port_ok_def)
      then have "y \<notin> set (q @ [n])" using y by (auto dest: unlinkedD)
      then show ?thesis using y u(1,4) mb.unlinked_after by (auto simp: mbox_holds_def)
    qed
    then have "runs_to (post_all lw mbox vs) u (\<lambda>_ w. \<exists>L'. mbox_holds w L' r ts mbox ((q @ [n]) @ ns) ((ps @ [v]) @ vs)
        \<and> nest_room 2 (kernel w))"
      using Cons.IH [OF u(1,2)] u(3) ms(1,3) Cons.prems(4) by simp
    then show "runs_to (post_all lw mbox vs) u (\<lambda>_ w. \<exists>L'. mbox_holds w L' r ts mbox (q @ ms) (ps @ v # vs)
        \<and> nest_room 2 (kernel w))"
      by (simp add: ms(1))
  qed
qed


section \<open>Semaphores with timeout\<close>

lemma kern_other_fields [simp]:
  "kern (s\<lparr>reqs := q\<rparr>) L r rs ws = kern s L r rs ws"
  "kern (s\<lparr>ports := p\<rparr>) L r rs ws = kern s L r rs ws"
  "kern (s\<lparr>tasks := tk, reqs := q\<rparr>) L r rs ws = kern (s\<lparr>tasks := tk\<rparr>) L r rs ws"
  "kern (s\<lparr>ports := p, tasks := tk\<rparr>) L r rs ws = kern (s\<lparr>tasks := tk\<rparr>) L r rs ws"
  by (simp_all add: kern_def irq_ok_def)

text \<open>A timer that has fired is disarmed by freeing its signal.\<close>

lemma disarm_done:
  assumes k: "kern s L r rs ws" and r: "r \<notin> set rs" "r \<notin> set ws" and n: "nest_room 1 s" and t: "t \<noteq> 0"
    and g: "t AND SIGF_SINGLE = 0" "t AND tk_sig_alloc (tasks s (Obj r)) = t" "tm_signal (tmrs s (Obj y)) = t"
      "tm_status (tmrs s (Obj y)) = TIMER_DONE"
  shows "runs_to (disarm_timeout (Obj y) t) s (\<lambda>_ u. kern u L r rs ws \<and> sems u = sems s \<and> reqs u = reqs s
     \<and> tk_sig_alloc (tasks u (Obj r)) = tk_sig_alloc (tasks s (Obj r)) AND NOT t \<and> id_nestcnt u = id_nestcnt s)"
proof -
  have "s\<lparr>id_nestcnt := id_nestcnt s, primask := primask s\<rparr> = s" by simp
  then show ?thesis
    using t g(4) by (auto simp: disarm_timeout_def timer_abort_def run_simps crit [OF kern_lists(5) [OF k] n]
        intro!: runs_to_weaken [OF timer_free_ok [OF k r g(1-3)]])
qed

text \<open>
  What \<open>arm_timeout\<close> does for the running task \<open>r\<close>: with timeout zero nothing; otherwise it takes a
  free signal \<open>t\<close> and a timer \<open>y\<close> that will send it, queued unless its tick is not in the future.
\<close>

definition timed_lists ::
  "kstate \<Rightarrow> lists \<Rightarrow> addr \<Rightarrow> addr list \<Rightarrow> addr list \<Rightarrow> addr list \<Rightarrow> addr \<Rightarrow> Ticks \<Rightarrow> lists \<Rightarrow> kstate \<Rightarrow> bool" where
  "timed_lists s L r rs ws xs y d L' u = (\<exists>q. kern u L' r rs ws \<and> timers_ok u L' r (insert r (set rs \<union> set ws)) q
     \<and> (\<forall>l. l \<noteq> timers \<longrightarrow> L' l = L l)
     \<and> set q = (if timer_now s + d \<le> timer_now s then set xs else insert y (set xs)))"

definition timed_signal :: "kstate \<Rightarrow> addr \<Rightarrow> addr \<Rightarrow> Ticks \<Rightarrow> Signals \<Rightarrow> kstate \<Rightarrow> bool" where
  "timed_signal s r y d t u = (t AND tk_sig_alloc (tasks s (Obj r)) = 0
     \<and> (if d = 0 then t = 0 else t \<noteq> 0 \<and> tm_signal (tmrs u (Obj y)) = t \<and> tm_task (tmrs u (Obj y)) = Obj r
         \<and> tm_tick (tmrs u (Obj y)) = timer_now s + d))"

lemma allocated_0 [simp]: "allocated 0 T = T"
  by (simp add: allocated_def)

lemma free_mask: "\<not> bit A k \<Longrightarrow> k < 16 \<Longrightarrow> sig_mask k AND A = 0"
  by (auto simp: bit_eq_iff [where 'a = "16 word"] bit_and_iff bit_sig_mask)

lemma arm_timeout_ok:
  assumes k: "kern s L r rs ws" and r: "r \<notin> set rs" "r \<notin> set ws" and n: "nest_room 1 s"
    and t: "timers_ok s L r (insert r (set rs \<union> set ws)) xs" and y: "unlinked L y" "y \<notin> insert r (set rs \<union> set ws)"
    and f: "d \<noteq> 0 \<Longrightarrow> \<exists>k < 16. \<not> bit (tk_sig_alloc (tasks s (Obj r))) k"
  shows "runs_to (arm_timeout (Obj y) d) s (\<lambda>t u. timed_signal s r y d t u \<and> (\<exists>L'. timed_lists s L r rs ws xs y d L' u)
     \<and> tasks u = (tasks s)(Obj r := allocated t (tasks s (Obj r))) \<and> sems u = sems s \<and> reqs u = reqs s \<and> ports u = ports s
     \<and> timer_now u = timer_now s \<and> id_nestcnt u = id_nestcnt s)" (is "runs_to _ _ ?Q")
proof (cases "d = 0")
  case True
  then show ?thesis using k t by (auto simp: arm_timeout_def run_simps timed_signal_def timed_lists_def)
next
  case False
  have "runs_to (bindM (get_timer (Obj y) tm_signal) (\<lambda>g. seqM (timer_add (Obj y)) (ret g))) (armed_timer s r k y d) ?Q"
    if k': "k < 16" "k \<noteq> 0" "\<not> bit (tk_sig_alloc (tasks s (Obj r))) k" "kern (allocated_timer s r k y) L r rs ws" for k
  proof -
    have g: "tm_signal (tmrs (armed_timer s r k y d) (Obj y)) = sig_mask k" by (simp add: armed_timer_def)
    have "?Q (sig_mask k) u" if u: "armed s L r rs ws xs y d k u" for u
    proof -
      have "\<exists>L'. timed_lists s L r rs ws xs y d L' u"
      proof (cases "timer_now s + d \<le> timer_now s")
        case True
        then show ?thesis using u by (auto simp: armed_def Let_def timed_lists_def)
      next
        case False
        then obtain q where "kern u (L(timers \<mapsto> q)) r rs ws" "timers_ok u (L(timers \<mapsto> q)) r (insert r (set rs \<union> set ws)) q"
          "set q = insert y (set xs)" using u by (auto simp: armed_def Let_def)
        then show ?thesis using False by (intro exI [of _ "L(timers \<mapsto> q)"]) (auto simp: timed_lists_def)
      qed
      moreover have "timed_signal s r y d (sig_mask k) u"
        using False u free_mask [OF k'(3,1)] fresh_mask(3) [OF k'(1,2)] by (simp add: timed_signal_def armed_def Let_def)
      ultimately show ?thesis by (simp add: armed_facts [OF u])
    qed
    then show ?thesis
      by (simp add: run_simps g, intro runs_to_weaken [OF timer_arm_ok [OF k r n t y k'(4)]]) simp
  qed
  then show ?thesis
    unfolding arm_timeout_def using False f by (simp, intro timer_prepare [OF k r n]) auto
qed

text \<open>Waiting for \<open>g\<close> under a timeout, when neither is pending, blocks.\<close>

lemma timed_wait_blocks:
  assumes k: "kern s L r rs ws" and r: "r \<notin> set rs" "r \<notin> set ws" "r \<noteq> init_addr" and n: "nest_room 1 s"
    and t: "timers_ok s L r (insert r (set rs \<union> set ws)) xs" and y: "unlinked L y" "y \<notin> insert r (set rs \<union> set ws)"
    and f: "d \<noteq> 0 \<Longrightarrow> \<exists>k < 16. \<not> bit (tk_sig_alloc (tasks s (Obj r))) k"
    and g: "g AND tk_sig_recvd (tasks s (Obj r)) = 0" and G: "\<And>u. reqs u = reqs s \<Longrightarrow> ports u = ports s \<Longrightarrow> G u = g"
    and c: "\<And>t u L'. timed_signal s r y d t u \<Longrightarrow> timed_lists s (L(waiting \<mapsto> ws @ [r])) r rs (ws @ [r]) xs y d L' u \<Longrightarrow>
      pendsv u \<Longrightarrow> tk_sig_wait (tasks u (Obj r)) = t OR g \<Longrightarrow> sems u = sems s \<Longrightarrow> reqs u = reqs s \<Longrightarrow> ports u = ports s \<Longrightarrow>
      R t (Blocked (to_int16 (id_nestcnt s + 1))) u"
  shows "runs_to (arm_timeout (Obj y) d) s (\<lambda>t u. runs_to (signal_wait (t OR G u)) u (R t))"
proof (rule runs_to_weaken [OF arm_timeout_ok [OF k r(1,2) n t y f]])
  fix tg u
  assume u: "timed_signal s r y d tg u \<and> (\<exists>L'. timed_lists s L r rs ws xs y d L' u)
     \<and> tasks u = (tasks s)(Obj r := allocated tg (tasks s (Obj r))) \<and> sems u = sems s \<and> reqs u = reqs s \<and> ports u = ports s
     \<and> timer_now u = timer_now s \<and> id_nestcnt u = id_nestcnt s"
  then obtain L' q where L': "kern u L' r rs ws" "timers_ok u L' r (insert r (set rs \<union> set ws)) q" "\<forall>l. l \<noteq> timers \<longrightarrow> L' l = L l"
    "set q = (if timer_now s + d \<le> timer_now s then set xs else insert y (set xs))" by (auto simp: timed_lists_def)
  have z: "(tg OR g) AND tk_sig_recvd (tasks u (Obj r)) = 0"
    using u g by (auto simp: allocated_def bit_or_iff bit_eq_iff [where 'a = "16 word"] bit_and_iff bit_not_iff)
  have "timed_lists s (L(waiting \<mapsto> ws @ [r])) r rs (ws @ [r]) xs y d (L'(waiting \<mapsto> ws @ [r])) v"
    if v: "kern v (L'(waiting \<mapsto> ws @ [r])) r rs (ws @ [r])" "tmrs v = tmrs u" for v
  proof -
    have "timers_ok v (L'(waiting \<mapsto> ws @ [r])) r (insert r (set rs \<union> set (ws @ [r]))) q"
    proof -
      have ts: "insert r (set rs \<union> set (ws @ [r])) = insert r (set rs \<union> set ws)" by auto
      show ?thesis using aliveI [OF v(1)] v(2) unfolding ts by (intro timers_ok_other [OF L'(2)]) auto
    qed
    then show ?thesis using v L'(3,4) by (auto simp: timed_lists_def)
  qed
  note lists = this
  have "R tg v w" if w: "wait_post u L' r rs ws (tg OR g) (id_nestcnt u + 1) v w" for v w
  proof -
    have "v = Blocked (to_int16 (id_nestcnt s + 1))" and k': "kern w (L'(waiting \<mapsto> ws @ [r])) r rs (ws @ [r])" "pendsv w"
      "tk_sig_wait (tasks w (Obj r)) = tg OR g"
      and o: "tmrs w = tmrs u" "sems w = sems s" "reqs w = reqs s" "ports w = ports s"
      using w z u by (simp_all add: wait_post_def Let_def same_store_def)
    then show ?thesis using c [OF _ lists [OF k'(1) o(1)], of tg] u by (simp add: timed_signal_def)
  qed
  moreover have "nest_room 1 u" and "G u = g" using n u G by (simp_all add: nest_room_def)
  ultimately show "runs_to (signal_wait (tg OR G u)) u (R tg)"
    using runs_to_weaken [OF signal_wait_kern [OF L'(1) r]] by simp
qed

text \<open>The state after the request has been made, with the signal of number \<open>k\<close>.\<close>

definition requested :: "kstate \<Rightarrow> addr \<Rightarrow> addr \<Rightarrow> addr \<Rightarrow> nat \<Rightarrow> kstate \<Rightarrow> bool" where
  "requested s sem r x k u = (k < 16 \<and> k \<noteq> 0 \<and> \<not> bit (tk_sig_alloc (tasks s (Obj r))) k
     \<and> sm_count (sems u sem) = sm_count (sems s sem) - 1 \<and> reqs u (Obj x) = \<lparr>rq_waiter = Obj r, rq_signal = sig_mask k\<rparr>
     \<and> tasks u = (tasks s)(Obj r := allocated (sig_mask k) (tasks s (Obj r)))
     \<and> id_nestcnt u = id_nestcnt s \<and> timer_now u = timer_now s \<and> tmrs u = tmrs s)"

lemma runs_to_task_find_None: "runs_to (task_find None) w P = P (running w) w"
  by (simp add: task_find_def run_simps)

lemma runs_to_shift_signal: "runs_to (shift_signal (int k)) w P = P (sig_mask k) w"
  by (simp add: shift_signal_def run_simps)

lemma sem_wait_split:
  assumes k: "kern s L r rs ws" and r: "r \<notin> set rs" "r \<notin> set ws" and n: "nest_room 1 s"
    and sem: "sem \<noteq> ready" "sem \<noteq> waiting" "L sem = Some q" and x: "unlinked L x" "x \<noteq> r"
    and f: "\<exists>k < 16. \<not> bit (tk_sig_alloc (tasks s (Obj r))) k"
    and cnt: "INT32_MIN < sm_count (sems s sem)" "sm_count (sems s sem) \<le> INT32_MAX"
    and got: "\<And>k u. requested s sem r x k u \<Longrightarrow> 0 < sm_count (sems s sem) \<Longrightarrow> kern u L r rs ws \<Longrightarrow>
      runs_to (signal_free (sig_mask k)) u (\<lambda>_. Q (SysTime 0))"
    and wait: "\<And>k u. requested s sem r x k u \<Longrightarrow> sm_count (sems s sem) \<le> 0 \<Longrightarrow> kern u (L(sem \<mapsto> q @ [x])) r rs ws \<Longrightarrow>
      runs_to (arm_timeout timer d) u (\<lambda>t u. runs_to (signal_wait (t OR rq_signal (reqs u (Obj x)))) u
        (\<lambda>v u. runs_to (sem_wait_finish lw (Obj x) timer (timer_now s) t v) u Q))"
  shows "runs_to (sys_arch_sem_wait lw sem (Obj x) timer d) s Q"
proof -
  let ?c = "sm_count (sems s sem)"
  let ?P = "\<lambda>b t. if b = False then runs_to (signal_free (rq_signal (reqs t (Obj x)))) t (\<lambda>_. Q (SysTime (timer_now t - timer_now s)))
    else runs_to (arm_timeout timer d) t (\<lambda>tsig t. runs_to (signal_wait (tsig OR rq_signal (reqs t (Obj x)))) t
      (\<lambda>v t. runs_to (sem_wait_finish lw (Obj x) timer (timer_now s) tsig v) t Q))"
  have add: "runs_to (sem_add_request sem (Obj x)) w ?P"
    if w: "kern w L r rs ws" "sems w = sems s" "requested s sem r x k (w\<lparr>sems := (sems w)(sem := (sems w sem)\<lparr>sm_count := ?c - 1\<rparr>)\<rparr>)" for k w
  proof -
    have raw: "L sem = Some (snd (?c, q))" "sm_count (sems w sem) = fst (?c, q)" "nest_room 1 w"
      "INT32_MIN \<le> fst (?c, q) - 1" "fst (?c, q) - 1 \<le> INT32_MAX"
      using sem(3) w n cnt by (simp_all add: requested_def nest_room_def)
    show ?thesis
    proof (rule runs_to_weaken [OF sem_add_request_raw [OF w(1) sem(1,2) raw(1-3) x raw(4,5)]], elim conjE)
    fix v t
    assume t: "v = (fst (?c, q) - 1 < 0)" "kern t (L(sem \<mapsto> snd (sem_add x (?c, q)))) r rs ws"
      "sm_count (sems t sem) = fst (sem_add x (?c, q))" "sem_frame w L sem t (L(sem \<mapsto> snd (sem_add x (?c, q))))" "tasks t = tasks w"
    have rq: "requested s sem r x k t" using t w(2,3) by (simp add: requested_def sem_frame_def sem_add_def)
    show "?P v t"
    proof (cases "0 < ?c")
      case True
      then have "L(sem \<mapsto> snd (sem_add x (?c, q))) = L" using sem(3) by (simp add: sem_add_def fun_upd_idem)
      then show ?thesis using got [OF rq] True t(1,2) rq by (simp add: requested_def)
    next
      case False
      then show ?thesis using wait [OF rq] t(1,2) by (simp add: sem_add_def)
    qed
  qed
  qed
  have rq: "q\<lparr>rq_signal := a, rq_waiter := b\<rparr> = \<lparr>rq_waiter = b, rq_signal = a\<rparr>" for q :: SemaphoreRequest and a b
    by (cases q) simp
  have start: "runs_to (sys_arch_sem_wait lw sem (Obj x) timer d) s Q =
      runs_to (signal_allocate (- 1)) s (\<lambda>n u. runs_to (shift_signal n) u (\<lambda>g u. g \<noteq> 0 \<and>
        runs_to (sem_add_request sem (Obj x)) (u\<lparr>reqs := (reqs u)(Obj x := \<lparr>rq_waiter = running u, rq_signal = g\<rparr>)\<rparr>) ?P))"
    by (simp add: sys_arch_sem_wait_def run_simps runs_to_task_find_None rq eq_commute [of "0 :: Signals"])
  show ?thesis
    unfolding start
  proof (rule runs_to_weaken [OF fresh_signal [OF k r n f]], elim exE conjE)
    fix v u k
    assume a: "k < 16" "v = int k" "k \<noteq> 0" "\<not> bit (tk_sig_alloc (tasks s (Obj r))) k" "kern u L r rs ws"
      "u = s\<lparr>tasks := (tasks s)(Obj r := allocated (sig_mask k) (tasks s (Obj r)))\<rparr>"
    have "runs_to (sem_add_request sem (Obj x)) (u\<lparr>reqs := (reqs u)(Obj x := \<lparr>rq_waiter = running u, rq_signal = sig_mask k\<rparr>)\<rparr>) ?P"
      by (rule add [of _ k]) (use a kern_lists(4) [OF k] in \<open>simp_all add: requested_def\<close>)
    then show "runs_to (shift_signal v) u (\<lambda>g u. g \<noteq> 0 \<and>
        runs_to (sem_add_request sem (Obj x)) (u\<lparr>reqs := (reqs u)(Obj x := \<lparr>rq_waiter = running u, rq_signal = g\<rparr>)\<rparr>) ?P)"
      unfolding a(2) runs_to_shift_signal using fresh_mask(3) [OF a(1,3)] by blast
  qed
qed


lemma timed_lists_facts:
  assumes "timed_lists s (L(waiting \<mapsto> ws @ [r])) r rs (ws @ [r]) xs y d L' u"
  shows "\<exists>ys. kern u L' r rs (ws @ [r]) \<and> timers_ok u L' r (insert r (set rs \<union> set ws)) ys
    \<and> set ys = (if timer_now s + d \<le> timer_now s then set xs else insert y (set xs))"
    "l \<noteq> waiting \<Longrightarrow> l \<noteq> timers \<Longrightarrow> L' l = L l"
proof -
  have ts: "insert r (set rs \<union> set (ws @ [r])) = insert r (set rs \<union> set ws)" by auto
  show "\<exists>ys. kern u L' r rs (ws @ [r]) \<and> timers_ok u L' r (insert r (set rs \<union> set ws)) ys
    \<and> set ys = (if timer_now s + d \<le> timer_now s then set xs else insert y (set xs))"
    using assms unfolding timed_lists_def ts by blast
  show "l \<noteq> waiting \<Longrightarrow> l \<noteq> timers \<Longrightarrow> L' l = L l" using assms by (auto simp: timed_lists_def)
qed

lemma requested_ok:
  assumes u: "requested s sem r x k u" and ku: "kern u (L(sem \<mapsto> q @ [x])) r rs ws" and n: "nest_room 1 s"
    and t: "timers_ok s L r (insert r (set rs \<union> set ws)) xs" and sem: "sem \<noteq> timers" "L sem = Some q"
    and y: "unlinked L y" "y \<noteq> x"
    and i: "i < 16" "j < 16" "i \<noteq> j" "\<not> bit (tk_sig_alloc (tasks s (Obj r))) i" "\<not> bit (tk_sig_alloc (tasks s (Obj r))) j"
  shows "nest_room 1 u" "timers_ok u (L(sem \<mapsto> q @ [x])) r (insert r (set rs \<union> set ws)) xs" "unlinked (L(sem \<mapsto> q @ [x])) y"
    "sig_mask k AND tk_sig_recvd (tasks u (Obj r)) = 0" "\<exists>k<16. \<not> bit (tk_sig_alloc (tasks u (Obj r))) k"
proof -
  have rt: "tasks u (Obj r) = allocated (sig_mask k) (tasks s (Obj r))" "id_nestcnt u = id_nestcnt s" "tmrs u = tmrs s"
    using u by (simp_all add: requested_def)
  show "nest_room 1 u" using n by (simp add: nest_room_def rt)
  show "timers_ok u (L(sem \<mapsto> q @ [x])) r (insert r (set rs \<union> set ws)) xs"
    by (rule timers_ok_other [OF t aliveI [OF ku]]) (use sem rt in auto)
  show "unlinked (L(sem \<mapsto> q @ [x])) y" using sem y by (auto simp: unlinked_def)
  show "sig_mask k AND tk_sig_recvd (tasks u (Obj r)) = 0"
    by (auto simp: rt allocated_def bit_eq_iff [where 'a = "16 word"] bit_and_iff bit_not_iff)
  show "\<exists>k<16. \<not> bit (tk_sig_alloc (tasks u (Obj r))) k"
    using i by (auto simp: rt allocated_def bit_or_iff bit_sig_mask)
qed

lemma finish_blocked:
  "runs_to (sem_wait_finish lw req timer st t (Blocked n)) u Q = Q (SysBlocked st t n) u"
  "runs_to (mbox_fetch_finish lw mbox want timer st t (Blocked n)) v P = P (FetchBlocked st t n) v"
  by (simp_all add: sem_wait_finish_def mbox_fetch_finish_def run_simps)

text \<open>
  C28: A timeout of \<open>sys_arch_sem_wait\<close> leaves its request behind.  When only the timer's signal
  has arrived the call returns \<open>SYS_ARCH_TIMEOUT\<close> with both signals freed, but the request, a
  local variable of the call, is still linked into the semaphore's queue and the count is not given
  back.
\<close>

theorem sys_sem_timeout_leaves_request:
  assumes "kern s L r rs ws" and "r \<notin> set rs" and "r \<notin> set ws" and "r \<noteq> init_addr" and "id_nestcnt s = - 1"
    and "L sem = Some q" and "x \<in> set q" and "rq_signal (reqs s (Obj x)) = g"
    and "tm_signal (tmrs s (Obj y)) = t" and "tm_status (tmrs s (Obj y)) = TIMER_DONE"
    and "tk_sig_wait (tasks s (Obj r)) = t OR g" and "g AND tk_sig_recvd (tasks s (Obj r)) = 0"
    and "t AND tk_sig_recvd (tasks s (Obj r)) \<noteq> 0" and "t AND g = 0"
    and "t AND SIGF_SINGLE = 0" and "g AND SIGF_SINGLE = 0"
    and "t AND tk_sig_alloc (tasks s (Obj r)) = t" and "g AND tk_sig_alloc (tasks s (Obj r)) = g"
    and "0 \<le> n" and "n < INT32_MAX"
  shows "runs_to (sys_arch_sem_wait_resume lw (Obj x) (Obj y) start t (t OR g) n) s (\<lambda>v u.
     v = SysTime (SYS_ARCH_TIMEOUT lw) \<and> kern u L r rs ws \<and> dll (nodes u) sem q
     \<and> sm_count (sems u sem) = sm_count (sems s sem)
     \<and> tk_sig_alloc (tasks u (Obj r)) = tk_sig_alloc (tasks s (Obj r)) AND NOT t AND NOT g)" (is "runs_to _ _ ?Q")
  unfolding sys_arch_sem_wait_resume_def runs_to_bindM
proof (rule runs_to_weaken [OF signal_wait_resume_kern [OF assms(1-4,11,5,19)]])
  show "n \<le> INT32_MAX" using assms(20) by simp
  have queued: "dll (nodes u) sem q" if "kern u L r rs ws" for u
    by (rule lists_ok_dll [OF kern_lists(1) [OF that] assms(6)])
  let ?R = "tk_sig_recvd (tasks s (Obj r))" and ?A = "tk_sig_alloc (tasks s (Obj r))"
  have split: "(t OR g) AND ?R = t AND ?R"
    using assms(12) by (simp add: bit.conj_disj_distrib2)
  have tz: "t \<noteq> 0" using assms(13) by auto
  have got: "(t AND ?R) AND g = 0" "(t AND ?R) AND t \<noteq> 0"
    using assms(12-14) by (simp_all add: ac_simps flip: and.assoc [of g t])
  fix v u assume "wait_post s L r rs ws (t OR g) n v u"
  then have v: "v = Returned (t AND ?R)" and k: "kern u L r rs ws" and st: "sems u = sems s" "reqs u = reqs s" "tmrs u = tmrs s"
    and id: "id_nestcnt u = n - 1" and al: "tk_sig_alloc (tasks u (Obj r)) = ?A"
    using assms(13) by (simp_all add: wait_post_def Let_def same_store_def split consume_def)
  have n1: "nest_room 1 u" using assms(20) by (simp add: nest_room_def id)
  have keep: "g AND (?A AND NOT t) = g"
    using assms(14,18) by (metis (no_types) and.assoc and.commute and.right_neutral bit.conj_cancel_right bit.conj_disj_distrib
        bit.disj_cancel_right or.left_neutral)
  have free: "runs_to (signal_free g) w (\<lambda>_ w. ?Q (SysTime (SYS_ARCH_TIMEOUT lw)) w)"
    if w: "kern w L r rs ws" "sems w = sems u" "reqs w = reqs u" "tk_sig_alloc (tasks w (Obj r)) = ?A AND NOT t" for w
    by (rule runs_to_weaken [OF signal_free_kern [OF w(1) assms(2,3,16)]]) (use w keep queued st in \<open>auto simp: and.assoc\<close>)
  show "runs_to (sem_wait_finish lw (Obj x) (Obj y) start t v) u ?Q"
    using got by (simp add: sem_wait_finish_def v run_simps st assms(8),
        intro runs_to_weaken [OF disarm_done [OF k assms(2,3) n1 tz assms(15)]])
      (use assms(9,10,17) st al free in \<open>auto simp: assms(8)\<close>)
qed


text \<open>
  C27: \<open>sys_arch_sem_wait\<close>, with its local request \<open>x\<close> and timer \<open>y\<close> on no list and two signals free.  With
  the count positive the call takes one and returns at once after zero ticks, whatever the
  timeout, with its signal freed again.  Otherwise it blocks: its request is at the end of
  the semaphore's queue and names the running task and a signal that was free.  With timeout zero the task
  waits for this signal only; otherwise also for that of a timer set to the current
  time plus the timeout, and the timer is queued unless that sum has wrapped around: then
  the task waits for a signal that nothing will send.
\<close>

theorem sys_sem_wait_outcome:
  assumes "kern s L r rs ws" and "r \<notin> set rs" and "r \<notin> set ws" and "r \<noteq> init_addr" and "nest_room 1 s"
    and "timers_ok s L r (insert r (set rs \<union> set ws)) xs" and "sem \<noteq> ready" and "sem \<noteq> waiting" and "sem \<noteq> timers"
    and "L sem = Some q" and "unlinked L x" and "x \<noteq> r"
    and "unlinked L y" and "y \<notin> insert r (set rs \<union> set ws)" and "y \<noteq> x"
    and "i < 16" and "j < 16" and "i \<noteq> j" and "\<not> bit (tk_sig_alloc (tasks s (Obj r))) i" and "\<not> bit (tk_sig_alloc (tasks s (Obj r))) j"
    and "INT32_MIN < sm_count (sems s sem)" and "sm_count (sems s sem) \<le> INT32_MAX"
  shows "runs_to (sys_arch_sem_wait lw sem (Obj x) (Obj y) d) s (\<lambda>v u.
     sm_count (sems u sem) = sm_count (sems s sem) - 1 \<and> (
     if 0 < sm_count (sems s sem)
     then v = SysTime 0 \<and> kern u L r rs ws \<and> tk_sig_alloc (tasks u (Obj r)) = tk_sig_alloc (tasks s (Obj r))
     else \<exists>t L' ys. v = SysBlocked (timer_now s) t (to_int16 (id_nestcnt s + 1)) \<and> pendsv u
       \<and> kern u L' r rs (ws @ [r]) \<and> L' sem = Some (q @ [x]) \<and> timers_ok u L' r (insert r (set rs \<union> set ws)) ys
       \<and> rq_waiter (reqs u (Obj x)) = Obj r \<and> tk_sig_wait (tasks u (Obj r)) = t OR rq_signal (reqs u (Obj x))
       \<and> rq_signal (reqs u (Obj x)) \<noteq> 0 \<and> rq_signal (reqs u (Obj x)) AND tk_sig_alloc (tasks s (Obj r)) = 0
       \<and> t AND rq_signal (reqs u (Obj x)) = 0
       \<and> (if d = 0 then t = 0 else t \<noteq> 0 \<and> tm_signal (tmrs u (Obj y)) = t \<and> tm_task (tmrs u (Obj y)) = Obj r
            \<and> tm_tick (tmrs u (Obj y)) = timer_now s + d)
       \<and> set ys = (if timer_now s + d \<le> timer_now s then set xs else insert y (set xs))))" (is "runs_to _ _ ?Q")
proof (rule sem_wait_split [OF assms(1-3,5,7,8,10-12) _ assms(21,22)])
  let ?A = "tk_sig_alloc (tasks s (Obj r))" and ?ts = "insert r (set rs \<union> set ws)"
  show "\<exists>k<16. \<not> bit ?A k" using assms(16,19) by blast
  fix k u assume u: "requested s sem r x k u"
  then have k: "k < 16" "k \<noteq> 0" "\<not> bit ?A k" and rt: "tasks u (Obj r) = allocated (sig_mask k) (tasks s (Obj r))"
    "reqs u (Obj x) = \<lparr>rq_waiter = Obj r, rq_signal = sig_mask k\<rparr>" "sm_count (sems u sem) = sm_count (sems s sem) - 1"
    "timer_now u = timer_now s" "id_nestcnt u = id_nestcnt s" "tmrs u = tmrs s"
    by (simp_all add: requested_def)
  note f = fresh_mask [OF k(1,2)] free_mask [OF k(3,1)]
  have al: "sig_mask k AND tk_sig_alloc (tasks u (Obj r)) = sig_mask k" using f(2) by (simp add: rt allocated_def)
  show "runs_to (signal_free (sig_mask k)) u (\<lambda>_. ?Q (SysTime 0))" if c: "0 < sm_count (sems s sem)" and ku: "kern u L r rs ws"
    by (rule runs_to_weaken [OF signal_free_kern [OF ku assms(2,3) f(1) al]])
      (use c rt f(4) [OF k(3)] in \<open>auto simp: allocated_def\<close>)
  assume c: "sm_count (sems s sem) \<le> 0" and ku: "kern u (L(sem \<mapsto> q @ [x])) r rs ws"
  let ?L = "L(sem \<mapsto> q @ [x])"
  note ok = requested_ok [OF u ku assms(5,6,9,10,13,15,16,17,18,19,20)]
  show "runs_to (arm_timeout (Obj y) d) u (\<lambda>t u. runs_to (signal_wait (t OR rq_signal (reqs u (Obj x)))) u
      (\<lambda>v u. runs_to (sem_wait_finish lw (Obj x) (Obj y) (timer_now s) t v) u ?Q))"
  proof (rule timed_wait_blocks [OF ku assms(2-4) ok(1,2,3) assms(14) ok(5,4)])
    fix t w L'
    assume t: "timed_signal u r y d t w" and l: "timed_lists u (?L(waiting \<mapsto> ws @ [r])) r rs (ws @ [r]) xs y d L' w"
      and w: "pendsv w" "tk_sig_wait (tasks w (Obj r)) = t OR sig_mask k" "sems w = sems u" "reqs w = reqs u"
    have "t AND sig_mask k = 0" using t by (simp add: timed_signal_def rt allocated_def and.commute [of t] and_or_eq_0)
    moreover have "L' sem = Some (q @ [x])" using timed_lists_facts(2) [OF l assms(8,9)] by simp
    moreover obtain ys where "kern w L' r rs (ws @ [r])" "timers_ok w L' r ?ts ys"
      "set ys = (if timer_now u + d \<le> timer_now u then set xs else insert y (set xs))" using timed_lists_facts(1) [OF l] by blast
    ultimately have "?Q (SysBlocked (timer_now s) t (to_int16 (id_nestcnt u + 1))) w"
      using c by (simp only: not_le [symmetric] if_not_P simp_thms, intro conjI exI [of _ t] exI [of _ L'] exI [of _ ys])
        (use t w f(3,5) in \<open>simp_all add: rt timed_signal_def\<close>)
    then show "runs_to (sem_wait_finish lw (Obj x) (Obj y) (timer_now s) t (Blocked (to_int16 (id_nestcnt u + 1)))) w ?Q"
      unfolding finish_blocked .
  qed (simp add: rt)
qed


text \<open>A fetch from a mailbox that has no signal yet, up to the wait.\<close>

lemma mbox_fetch_start:
  assumes "running (kernel s) = Obj r" and "mp_signal (ports (kernel s) mbox) = 0"
  shows "runs_to (sys_arch_mbox_fetch lw mbox want timer d) s Q =
    runs_to (signal_allocate (- 1)) ((kernel s)\<lparr>ports := (ports (kernel s))(mbox := (ports (kernel s) mbox)\<lparr>mp_task := Obj r\<rparr>)\<rparr>)
    (\<lambda>n u. runs_to (shift_signal n) u (\<lambda>g u. g \<noteq> 0 \<and> runs_to (arm_timeout timer d)
      (u\<lparr>ports := (ports u)(mbox := (ports u mbox)\<lparr>mp_signal := g, mp_action := MSGPORT_SIGNAL\<rparr>)\<rparr>)
      (\<lambda>t u. runs_to (signal_wait (t OR mp_signal (ports u mbox))) u
      (\<lambda>v u. runs_to (mbox_fetch_finish lw mbox want timer (timer_now (kernel s)) t v) (s\<lparr>kernel := u\<rparr>) Q))))"
  using assms by (simp add: sys_arch_mbox_fetch_def runs_to_task_find_None run_simps eq_commute [of "0 :: Signals"])

text \<open>The end of a fetch without timeout that got the signal of the mailbox.\<close>

lemma mbox_fetch_got:
  assumes "got AND mp_signal (ports (kernel s) mbox) \<noteq> 0"
  shows "runs_to (mbox_fetch_finish lw mbox True timer start 0 (Returned got)) s Q = runs_to (msgport_get mbox) (kernel s) (\<lambda>m k.
    m \<noteq> NULL \<and> Q (Fetched (timer_now k - start) (Some (msg_ptr s m))) (s\<lparr>kernel := k, mem := mem_free_obj lw m (mem s)\<rparr>))"
  using assms by (simp add: mbox_fetch_finish_def mbox_take_def run_simps timer_get_clock_def disarm_timeout_def eq_commute [of "0 :: Signals"] eq_commute [of NULL])

section \<open>A system with mailboxes\<close>

text \<open>An allocator that hands out objects in order, and one that is exhausted.\<close>

definition demo_lwip :: "nat lwip" where
  "demo_lwip = \<lparr>malloc_msg = (\<lambda>a. (Obj a, a + 1)), malloc_task = (\<lambda>a. (Obj a, a + 1)), malloc_stack = (\<lambda>n a. (0x20002000, a)),
     mem_free_obj = (\<lambda>p a. a), SYS_ARCH_TIMEOUT = 0xFFFFFFFF, SYS_MBOX_EMPTY = 0xFFFFFFFF\<rparr>"

definition demo_net :: "kstate \<Rightarrow> nat lstate" where
  "demo_net k = \<lparr>kernel = k, msg_ptr = (\<lambda>_. 0), mem = 100\<rparr>"

text \<open>The demonstration system with a new mailbox at 60 that holds the messages \<open>q\<close>.\<close>

definition demo_mbox :: "addr list \<Rightarrow> kstate" where
  "demo_mbox q = demo_state\<lparr>nodes := link_all 60 [] q demo_nodes\<rparr>"

lemma demo_mbox_kern:
  assumes "distinct q" "set q \<inter> {0, 5, 6, 7} = {}"
  shows "kern (demo_mbox q) (demo_lists(60 \<mapsto> q)) 5 [6, 0] [7]"
proof -
  have "lists_ok (link_all 60 [] q demo_nodes) (demo_lists(60 \<mapsto> q)) \<and> same_data demo_nodes (link_all 60 [] q demo_nodes)"
    using lists_ok_link_all [OF demo_lists_ok, of 60 "[]" q] assms
    by (auto simp: demo_port_lists intro: demo_unlinked)
  then show ?thesis
    by (intro kern_other_list [OF demo_kern]) (use assms in \<open>auto simp: demo_mbox_def irq_ok_def demo_port_lists\<close>)
qed

section \<open>Properties\<close>

lemma demo_timers_empty:
  "kern s L 5 [6, 0] [7] \<Longrightarrow> L timers = Some [] \<Longrightarrow> timers_ok s L 5 (insert 5 (set [6, 0] \<union> set [7])) []"
  unfolding timers_ok_def by (intro conjI aliveI) (simp_all add: sorted_prio_def)

theorem sys_sem_wait_outcome_witness:
  "runs_to (sys_arch_sem_wait demo_lwip 40 (Obj 52) (Obj 53) 9) (demo_sem 0 []) (\<lambda>v u.
     sm_count (sems u 40) = - 1 \<and> (\<exists>t n. v = SysBlocked 0 t n \<and> t \<noteq> 0 \<and> tm_tick (tmrs u (Obj 53)) = 9))"
proof (rule runs_to_weaken [OF sys_sem_wait_outcome [where i = 1 and j = 2 and L = "demo_lists(40 \<mapsto> [])" and xs = "[]",
        OF demo_sem_kern _ _ _ demo_sem_room(2) demo_timers_empty [OF demo_sem_kern]]])
  show "unlinked (demo_lists(40 \<mapsto> [])) 52" "unlinked (demo_lists(40 \<mapsto> [])) 53" by (rule demo_sem_unlinked, simp)+
qed (auto simp: demo_sem_def demo_state_def blank_state_def init_addr_def ready_def waiting_def timers_def int32_bounds
      demo_tasks_def demo_task_def bit_numeral_rec demo_lists_def)

text \<open>The state of a task whose timeout has just run out.\<close>

definition demo_timeout :: kstate where
  "demo_timeout = (demo_sem (- 1) [52])\<lparr>reqs := (\<lambda>_. \<lparr>rq_waiter = Obj 5, rq_signal = 0x20\<rparr>),
     tasks := demo_tasks(Obj 5 := (demo_task TASK_RUNNING 0x60)\<lparr>tk_sig_alloc := 0x61, tk_sig_recvd := 0x40\<rparr>),
     tmrs := (\<lambda>_. \<lparr>tm_task = Obj 5, tm_signal = 0x40, tm_delay = 3, tm_tick = 3, tm_op = TIMER_DELAY, tm_status = TIMER_DONE\<rparr>)\<rparr>"

lemma demo_timeout_kern: "kern demo_timeout (demo_lists(40 \<mapsto> [52])) 5 [6, 0] [7]"
proof -
  have k: "kern (demo_sem (- 1) [52]) (demo_lists(40 \<mapsto> [52])) 5 [6, 0] [7]" by (rule demo_sem_kern) simp_all
  have "kern ((demo_sem (- 1) [52])\<lparr>tasks := tasks demo_timeout\<rparr>) (demo_lists(40 \<mapsto> [52])) 5 [6, 0] [7]"
    by (rule kern_update_running [OF k])
      (use kern_lists(5) [OF k] in \<open>auto simp: demo_timeout_def demo_sem_def demo_task_def blank_task_def task_ok_def ctx_ok_def
        frame_offsets SIGF_SINGLE_def irq_ok_def\<close>)
  then show ?thesis
    by (rule kern_cong) (use kern_lists(5) [OF k] in \<open>simp_all add: demo_timeout_def irq_ok_def demo_sem_def\<close>)
qed

theorem sys_sem_timeout_leaves_request_witness:
  "runs_to (sys_arch_sem_wait_resume demo_lwip (Obj 52) (Obj 53) 0 0x40 (0x40 OR 0x20) 0) demo_timeout (\<lambda>v u.
     v = SysTime (SYS_ARCH_TIMEOUT demo_lwip) \<and> kern u (demo_lists(40 \<mapsto> [52])) 5 [6, 0] [7]
     \<and> dll (nodes u) 40 [52]
     \<and> sm_count (sems u 40) = sm_count (sems demo_timeout 40)
     \<and> tk_sig_alloc (tasks u (Obj 5)) = tk_sig_alloc (tasks demo_timeout (Obj 5)) AND NOT 0x40 AND NOT 0x20)"
  by (rule sys_sem_timeout_leaves_request [OF demo_timeout_kern])
    (simp_all add: demo_timeout_def demo_sem_def init_addr_def demo_task_def blank_task_def SIGF_SINGLE_def int32_bounds)

text \<open>
  C29: A mailbox is a queue of payloads.  Whatever messages it holds, posting the payloads \<open>vs\<close> (with
  the allocator giving distinct objects that are in no list) and then fetching as many
  messages as there are returns the old payloads and then \<open>vs\<close>, each once and in order, and
  leaves the mailbox empty.
\<close>

theorem sys_mbox_fifo:
  fixes s :: "'m lstate"
  assumes "port_ok (kernel s) L r ts mbox q" and "nest_room 2 (kernel s)"
    and "alloc_msgs lw (length vs) (mem s) = map Obj ms" and "distinct ms" and "\<forall>m \<in> set ms. unlinked L m \<and> m \<notin> ts"
  shows "runs_to (seqM (post_all lw mbox vs) (tryfetch_all lw mbox (length q + length vs))) s (\<lambda>xs u.
     xs = map (\<lambda>p. (0, Some p)) (map (\<lambda>m. msg_ptr s (Obj m)) q @ vs) \<and> (\<exists>L'. port_ok (kernel u) L' r ts mbox []))"
proof -
  let ?ps = "map (\<lambda>m. msg_ptr s (Obj m)) q"
  have h: "mbox_holds s L r ts mbox q ?ps" using assms(1) by (simp add: mbox_holds_def)
  show ?thesis
    unfolding runs_to_seqM
  proof (rule runs_to_weaken [OF post_all_ok [OF h assms(2-5)]], elim exE conjE)
    fix x L' and u :: "'m lstate" assume u: "mbox_holds u L' r ts mbox (q @ ms) (?ps @ vs)" "nest_room 2 (kernel u)"
    show "runs_to (tryfetch_all lw mbox (length q + length vs)) u (\<lambda>xs u.
       xs = map (\<lambda>p. (0, Some p)) (?ps @ vs) \<and> (\<exists>L'. port_ok (kernel u) L' r ts mbox []))"
      using tryfetch_all_ok [OF u, of lw] by (auto simp: mbox_holds_def elim!: runs_to_weaken)
  qed
qed

theorem sys_mbox_fifo_witness:
  "runs_to (seqM (post_all demo_lwip 60 [7, 8]) (tryfetch_all demo_lwip 60 (length ([] :: addr list) + length [7, 8 :: 32 word])))
     (demo_net demo_port) (\<lambda>xs u.
     xs = map (\<lambda>p. (0, Some p)) (map (\<lambda>m. msg_ptr (demo_net demo_port) (Obj m)) [] @ [7, 8])
     \<and> (\<exists>L'. port_ok (kernel u) L' 5 {0, 5, 6, 7} 60 []))"
  by (rule sys_mbox_fifo [where ms = "[100, 101]" and L = demo_lists])
    (use demo_port_ok demo_port_room in \<open>simp_all add: demo_net_def demo_lwip_def demo_unlinked\<close>)

text \<open>
  C30: \<open>sys_arch_mbox_fetch\<close> does not look at the mailbox before it waits.  On a mailbox that has no
  signal yet, as \<open>sys_mbox_new\<close> leaves it, the first fetch blocks although messages are
  queued, whatever the timeout: they were posted without a signal, and nothing will send
  one for them.
\<close>

theorem sys_mbox_fetch_ignores_queued:
  assumes "kern (kernel s) L r rs ws" and "r \<notin> set rs" and "r \<notin> set ws" and "r \<noteq> init_addr" and "nest_room 1 (kernel s)"
    and "timers_ok (kernel s) L r (insert r (set rs \<union> set ws)) xs" and "mbox \<noteq> waiting" and "mbox \<noteq> timers" and "L mbox = Some q"
    and "mp_signal (ports (kernel s) mbox) = 0" and "unlinked L y" and "y \<notin> insert r (set rs \<union> set ws)"
    and "i < 16" and "j < 16" and "i \<noteq> j"
    and "\<not> bit (tk_sig_alloc (tasks (kernel s) (Obj r))) i" and "\<not> bit (tk_sig_alloc (tasks (kernel s) (Obj r))) j"
  shows "runs_to (sys_arch_mbox_fetch lw mbox want (Obj y) d) s (\<lambda>v u. \<exists>t L' ys.
     v = FetchBlocked (timer_now (kernel s)) t (to_int16 (id_nestcnt (kernel s) + 1)) \<and> pendsv (kernel u)
     \<and> kern (kernel u) L' r rs (ws @ [r]) \<and> L' mbox = Some q \<and> timers_ok (kernel u) L' r (insert r (set rs \<union> set ws)) ys
     \<and> tk_sig_wait (tasks (kernel u) (Obj r)) = t OR mp_signal (ports (kernel u) mbox)
     \<and> mp_task (ports (kernel u) mbox) = Obj r \<and> mp_signal (ports (kernel u) mbox) \<noteq> 0
     \<and> (if d = 0 then t = 0 else t \<noteq> 0 \<and> tm_signal (tmrs (kernel u) (Obj y)) = t
          \<and> tm_tick (tmrs (kernel u) (Obj y)) = timer_now (kernel s) + d)
     \<and> set ys = (if timer_now (kernel s) + d \<le> timer_now (kernel s) then set xs else insert y (set xs)))"
    (is "runs_to _ _ ?Q")
proof -
  let ?k = "kernel s" and ?ts = "insert r (set rs \<union> set ws)"
  let ?s = "?k\<lparr>ports := (ports ?k)(mbox := (ports ?k mbox)\<lparr>mp_task := Obj r\<rparr>)\<rparr>"
  let ?P = "\<lambda>u. runs_to (arm_timeout (Obj y) d) u (\<lambda>t u. runs_to (signal_wait (t OR mp_signal (ports u mbox))) u
      (\<lambda>v u. runs_to (mbox_fetch_finish lw mbox want (Obj y) (timer_now ?k) t v) (s\<lparr>kernel := u\<rparr>) ?Q))"
  have k1: "kern ?s L r rs ws" and n1: "nest_room 1 ?s" and f1: "\<exists>k < 16. \<not> bit (tk_sig_alloc (tasks ?s (Obj r))) k"
    using assms(1,5,13,16) by (auto simp: nest_room_def)
  have wait: "?P w"
    if w: "k < 16" "k \<noteq> 0" "kern w L r rs ws" "id_nestcnt w = id_nestcnt ?k" "mp_signal (ports w mbox) = sig_mask k"
      "mp_task (ports w mbox) = Obj r" "tasks w (Obj r) = allocated (sig_mask k) (tasks ?k (Obj r))"
      "tmrs w = tmrs ?k" "timer_now w = timer_now ?k" for k w
  proof (rule timed_wait_blocks [OF w(3) assms(2-4) _ _ assms(11,12)])
    show "nest_room 1 w" using assms(5) w(4) by (simp add: nest_room_def)
    show "timers_ok w L r ?ts xs" by (rule timers_ok_other [OF assms(6) aliveI [OF w(3)]]) (use w(8) in auto)
    show "\<exists>k<16. \<not> bit (tk_sig_alloc (tasks w (Obj r))) k"
      using assms(13-17) by (auto simp: w(7) allocated_def bit_or_iff bit_sig_mask)
    show "sig_mask k AND tk_sig_recvd (tasks w (Obj r)) = 0"
      by (auto simp: w(7) allocated_def bit_eq_iff [where 'a = "16 word"] bit_and_iff bit_not_iff)
    fix t v L'
    assume t: "timed_signal w r y d t v" and l: "timed_lists w (L(waiting \<mapsto> ws @ [r])) r rs (ws @ [r]) xs y d L' v"
      and v: "pendsv v" "tk_sig_wait (tasks v (Obj r)) = t OR sig_mask k" "ports v = ports w"
    have "L' mbox = Some q" using timed_lists_facts(2) [OF l assms(7,8)] assms(9) by simp
    moreover obtain ys where "kern v L' r rs (ws @ [r])" "timers_ok v L' r ?ts ys"
      "set ys = (if timer_now w + d \<le> timer_now w then set xs else insert y (set xs))" using timed_lists_facts(1) [OF l] by blast
    ultimately have "?Q (FetchBlocked (timer_now ?k) t (to_int16 (id_nestcnt w + 1))) (s\<lparr>kernel := v\<rparr>)"
      by (intro exI [of _ t] exI [of _ L'] exI [of _ ys]) (use t v w fresh_mask(3) [OF w(1,2)] in \<open>simp add: timed_signal_def\<close>)
    then show "runs_to (mbox_fetch_finish lw mbox want (Obj y) (timer_now ?k) t (Blocked (to_int16 (id_nestcnt w + 1)))) (s\<lparr>kernel := v\<rparr>) ?Q"
      unfolding finish_blocked .
  qed (simp add: w(5))
  show ?thesis
    unfolding mbox_fetch_start [OF kern_lists(4) [OF assms(1)] assms(10)]
  proof (rule runs_to_weaken [OF fresh_signal [OF k1 assms(2,3) n1 f1]], elim exE conjE)
    fix v u k
    assume u: "k < 16" "v = int k" "k \<noteq> 0" "kern u L r rs ws" "u = ?s\<lparr>tasks := (tasks ?s)(Obj r := allocated (sig_mask k) (tasks ?s (Obj r)))\<rparr>"
    have "?P (u\<lparr>ports := (ports u)(mbox := (ports u mbox)\<lparr>mp_signal := sig_mask k, mp_action := MSGPORT_SIGNAL\<rparr>)\<rparr>)"
      by (rule wait [OF u(1,3)]) (use u(4,5) in simp_all)
    then show "runs_to (shift_signal v) u (\<lambda>g u. g \<noteq> 0
        \<and> ?P (u\<lparr>ports := (ports u)(mbox := (ports u mbox)\<lparr>mp_signal := g, mp_action := MSGPORT_SIGNAL\<rparr>)\<rparr>))"
      unfolding u(2) runs_to_shift_signal using fresh_mask(3) [OF u(1,3)] by blast
  qed
qed

theorem sys_mbox_fetch_ignores_queued_witness:
  "runs_to (sys_arch_mbox_fetch demo_lwip 60 True (Obj 53) 0) (demo_net (demo_mbox [70])) (\<lambda>v u.
     (\<exists>n. v = FetchBlocked 0 0 n) \<and> pendsv (kernel u) \<and> mp_task (ports (kernel u) 60) = Obj 5)"
proof (rule runs_to_weaken [OF sys_mbox_fetch_ignores_queued [where i = 1 and j = 2 and L = "demo_lists(60 \<mapsto> [70])"
        and r = 5 and rs = "[6, 0]" and ws = "[7]" and xs = "[]" and q = "[70]"]])
  show k: "kern (kernel (demo_net (demo_mbox [70]))) (demo_lists(60 \<mapsto> [70])) 5 [6, 0] [7]"
    using demo_mbox_kern [of "[70]"] by (simp add: demo_net_def)
  show "timers_ok (kernel (demo_net (demo_mbox [70]))) (demo_lists(60 \<mapsto> [70])) 5 (insert 5 (set [6, 0] \<union> set [7])) []"
    by (rule demo_timers_empty [OF k]) (simp add: demo_lists_def timers_def ready_def waiting_def)
  show "unlinked (demo_lists(60 \<mapsto> [70])) 53" using demo_unlinked [of 53] by (auto simp: unlinked_def split: if_splits)
qed (auto simp: demo_net_def demo_mbox_def demo_state_def blank_state_def init_addr_def waiting_def timers_def int32_bounds nest_room_def
      demo_tasks_def demo_task_def bit_numeral_rec)

text \<open>
  C31: A post ends a fetch.  Task \<open>w\<close> is blocked in \<open>sys_arch_mbox_fetch\<close> without timeout on a mailbox that holds the messages \<open>q\<close>, which may be none, and the
  running task, of lower priority, posts a pointer.  The post returns, the context switch it requests runs \<open>w\<close>, and the fetch returns there, with
  the time since it was called and the pointer of the oldest message: the one just posted if the mailbox was empty, and otherwise that of the head of \<open>q\<close>.  This
  message has been given back to the allocator, and the mailbox holds the others in their order, with the one just posted last.
\<close>

theorem sys_mbox_post_ends_fetch:
  assumes "kern (kernel s) L r rs ws" and "\<not> pendsv (kernel s)" and "\<not> primask (kernel s)" and "w \<in> set ws"
    and "prio_of (nodes (kernel s)) r < prio_of (nodes (kernel s)) w"
    and "mbox \<noteq> ready" and "mbox \<noteq> waiting" and "L mbox = Some q"
    and "mp_task (ports (kernel s) mbox) = Obj w" and "mp_action (ports (kernel s) mbox) = MSGPORT_SIGNAL"
    and "mp_signal (ports (kernel s) mbox) \<noteq> 0" and "tk_sig_wait (tasks (kernel s) (Obj w)) = mp_signal (ports (kernel s) mbox)"
    and "malloc_msg lw (mem s) = (Obj m, a)" and "unlinked L m" and "m \<noteq> r"
    and "frame_fits (psp - 32) (tk_context (tasks (kernel s) (Obj r)))" and "0 \<le> n" and "n < INT32_MAX"
  shows "runs_to (seqM (sys_mbox_post lw mbox v) (bindM (kcall (PendSV_Handler psp))
       (\<lambda>_. sys_arch_mbox_fetch_resume lw mbox True timer start 0 (mp_signal (ports (kernel s) mbox)) n))) s
     (\<lambda>x u. x = Fetched (timer_now (kernel s) - start) (Some (if q = [] then v else msg_ptr s (Obj (hd q)))) \<and> running (kernel u) = Obj w \<and> id_nestcnt (kernel u) = n - 1
        \<and> mem u = mem_free_obj lw (Obj (hd (q @ [m]))) a
        \<and> (\<exists>L' rs' ws'. kern (kernel u) L' w rs' ws' \<and> r \<in> set rs' \<and> L' mbox = Some (tl (q @ [m]))))"
proof -
  let ?k = "kernel s" and ?g = "mp_signal (ports (kernel s) mbox)" and ?L = "L(mbox \<mapsto> q @ [m])" and ?p = "if q = [] then v else msg_ptr s (Obj (hd q))" and ?h = "hd (q @ [m])" and ?t = "tl (q @ [m])"
  let ?s = "s\<lparr>mem := a, msg_ptr := (msg_ptr s)(Obj m := v)\<rparr>"
  let ?Q = "\<lambda>x u. x = Fetched (timer_now ?k - start) (Some ?p) \<and> running (kernel u) = Obj w \<and> id_nestcnt (kernel u) = n - 1
        \<and> mem u = mem_free_obj lw (Obj ?h) a \<and> (\<exists>L' rs' ws'. kern (kernel u) L' w rs' ws' \<and> r \<in> set rs' \<and> L' mbox = Some ?t)"
  have "m \<notin> set q" using assms(8,14) by (simp add: unlinked_def)
  then have ptr: "msg_ptr ?s (Obj ?h) = ?p" by (cases q) auto
  have fin: "runs_to (mbox_fetch_finish lw mbox True timer start 0 x) (?s\<lparr>kernel := u\<rparr>) ?Q"
    if u: "woken_post (?k\<lparr>nodes := h\<rparr>) ?L r w ?g n x u" for h x u
  proof -
    obtain L' rs' ws' where k: "kern u L' w rs' ws'" "r \<in> set rs'" "L' mbox = Some (q @ [m])"
      using u assms(6,7) by (auto simp: woken_post_def other_lists_def)
    have p: "ports u = ports ?k" "timer_now u = timer_now ?k" "id_nestcnt u = n - 1" "running u = Obj w"
      and x: "x = Returned (?g AND (tk_sig_recvd (tasks ?k (Obj w)) OR ?g))"
      using u assms(12) by (simp_all add: woken_post_def same_store_def)
    have g: "(?g AND (tk_sig_recvd (tasks ?k (Obj w)) OR ?g)) AND ?g \<noteq> 0"
      using assms(11) by (auto simp: bit_eq_iff [where 'a = "16 word"] bit_simps)
    have n1: "nest_room 1 u" using assms(18) p(3) by (simp add: nest_room_def)
    have "port_ok u L' w (insert w (set rs' \<union> set ws')) mbox (q @ [m])"
      using aliveI [OF k(1)] k assms(6,7,9,10) p(1) by (auto simp: port_ok_def)
    note get = msgport_get_ok [OF this n1]
    have "?Q (Fetched (timer_now y - start) (Some ?p)) (?s\<lparr>kernel := y, mem := mem_free_obj lw (Obj ?h) a\<rparr>)"
      if y: "port_ok y (L'(mbox \<mapsto> ?t)) w (insert w (set rs' \<union> set ws')) mbox ?t" "port_frame u L' mbox y (L'(mbox \<mapsto> ?t))" for y
    proof -
      have ky: "kern y (L'(mbox \<mapsto> ?t)) w rs' ws'"
        using y(1) kern_lists(2,3) [OF k(1)] assms(6,7) by (intro alive_kern(1)) (auto simp: port_ok_def)
      moreover have "(L'(mbox \<mapsto> ?t)) mbox = Some ?t" by simp
      ultimately have "\<exists>L' rs' ws'. kern y L' w rs' ws' \<and> r \<in> set rs' \<and> L' mbox = Some ?t" using k(2) by blast
      then show ?thesis using y(2) p kern_lists(4) [OF ky] by (simp add: port_frame_def same_defs)
    qed
    then have "runs_to (msgport_get mbox) u (\<lambda>p y. p \<noteq> NULL
        \<and> ?Q (Fetched (timer_now y - start) (Some (msg_ptr ?s p))) (?s\<lparr>kernel := y, mem := mem_free_obj lw p a\<rparr>))"
      by (intro runs_to_weaken [OF get]) (use ptr in \<open>cases q; simp\<close>)
    then show ?thesis using g unfolding x by (subst mbox_fetch_got) (simp_all add: p(1))
  qed
  have "runs_to (seqM (msgport_send mbox (Obj m)) (bindM (PendSV_Handler psp) (\<lambda>_. signal_wait_resume ?g n))) ?k
     (\<lambda>x u. \<exists>h. same_data (nodes ?k) h \<and> woken_post (?k\<lparr>nodes := h\<rparr>) ?L r w ?g n x u)"
    using msgport_send_resumes [OF assms(1-10) _ assms(14-17)] assms(11,12,18) by simp
  then have "runs_to (seqM (msgport_send mbox (Obj m)) (bindM (PendSV_Handler psp) (\<lambda>_. signal_wait_resume ?g n))) ?k
     (\<lambda>x u. runs_to (mbox_fetch_finish lw mbox True timer start 0 x) (?s\<lparr>kernel := u\<rparr>) ?Q)"
    by (rule runs_to_weaken) (use fin in blast)
  then show ?thesis
    by (simp add: sys_mbox_post_def sys_arch_mbox_fetch_resume_def run_simps assms(13))
qed

text \<open>Message 70 is in the mailbox at 60 while task 7 is blocked in a fetch there.\<close>

definition demo_fetch :: "nat lstate" where
  "demo_fetch = demo_net ((demo_mbox [70])\<lparr>ports := ports demo_port\<rparr>)"

lemma demo_fetch_kern: "kern (kernel demo_fetch) (demo_lists(60 \<mapsto> [70])) 5 [6, 0] [7]"
proof -
  have "kern (demo_mbox [70]) (demo_lists(60 \<mapsto> [70])) 5 [6, 0] [7]" by (rule demo_mbox_kern) simp_all
  then show ?thesis by (rule kern_cong) (simp_all add: demo_fetch_def demo_net_def demo_mbox_def irq_ok_def)
qed

lemma demo_fetch_prio: "prio_of (nodes (kernel demo_fetch)) = demo_prio"
proof -
  have "same_data demo_nodes (nodes (kernel demo_fetch))"
    using lists_ok_link_all [OF demo_lists_ok, of 60 "[]" "[70]"] demo_unlinked
    by (simp add: demo_fetch_def demo_net_def demo_mbox_def demo_port_lists)
  then show ?thesis by (simp add: same_data_prio_of demo_prio_of)
qed

theorem sys_mbox_post_ends_fetch_witness:
  "runs_to (seqM (sys_mbox_post demo_lwip 60 99) (bindM (kcall (PendSV_Handler 0x20000300))
       (\<lambda>_. sys_arch_mbox_fetch_resume demo_lwip 60 True (Obj 53) 0 0 (mp_signal (ports (kernel demo_fetch) 60)) 0))) demo_fetch
     (\<lambda>x u. x = Fetched (timer_now (kernel demo_fetch) - 0) (Some (if [70 :: addr] = [] then 99 else msg_ptr demo_fetch (Obj (hd [70]))))
        \<and> running (kernel u) = Obj 7 \<and> id_nestcnt (kernel u) = 0 - 1 \<and> mem u = mem_free_obj demo_lwip (Obj (hd ([70] @ [100]))) 101
        \<and> (\<exists>L' rs' ws'. kern (kernel u) L' 7 rs' ws' \<and> 5 \<in> set rs' \<and> L' 60 = Some (tl ([70] @ [100]))))"
proof (rule sys_mbox_post_ends_fetch [OF demo_fetch_kern])
  show "unlinked (demo_lists(60 \<mapsto> [70])) 100" using demo_unlinked [of 100] by (auto simp: unlinked_def split: if_splits)
qed (simp_all add: demo_fetch_prio, simp_all add: demo_fetch_def demo_net_def demo_mbox_def demo_lwip_def ready_def waiting_def demo_order demo_tasks_def
    demo_task_def blank_task_def frame_fits_def SIZEOF_StackFrame_def INT32_MAX_def)

text \<open>
  The signal of a mailbox can outlive its message, when the message is taken by \<open>sys_arch_mbox_tryfetch\<close>: the next fetch is woken by the
  signal, finds the mailbox empty and fails its assertion.
\<close>

lemma sys_mbox_fetch_stale_signal:
  assumes p: "port_ok (kernel s) L r ts mbox []" and n: "nest_room 1 (kernel s)" and g: "got AND mp_signal (ports (kernel s) mbox) \<noteq> 0"
  shows "mbox_fetch_finish lw mbox want timer start t (Returned got) s = Inl AssertFailed"
proof -
  obtain u where "msgport_get mbox (kernel s) = Inr (NULL, u)" using msgport_get_ok [OF p n] by (auto elim!: runs_toE)
  then show ?thesis
    using g by (simp add: mbox_fetch_finish_def mbox_take_def run_apply kcall_def get_port_def eq_commute [of "0 :: Signals"])
qed

text \<open>A post without memory writes through the null pointer.\<close>

lemma sys_mbox_post_no_memory:
  assumes "malloc_msg lw (mem s) = (NULL, a)"
  shows "sys_mbox_post lw mbox v s = Inl NullDeref"
  using assms by (simp add: sys_mbox_post_def run_apply in_mem_def set_ptr_def)


text \<open>
  A new thread: with memory for the stack and the task object, \<open>sys_thread_new\<close> returns the task,
  created and ready; without it the call never returns.
\<close>

lemma sys_thread_new_ok:
  assumes "malloc_stack lw stacksize (mem s) = (stack, a)" and "stack \<noteq> 0" and "malloc_task lw a = (Obj t, a')"
    and "kern (kernel s) L r rs ws" and "nest_room 1 (kernel s)" and "unlinked L t" and "t \<noteq> r"
    and "names_ok (nodes (kernel s)) (rs @ ws)" and "c_string name" and "find_spec (nodes (kernel s)) name (rs @ ws) = NULL"
    and "null_name (kernel s) = Some b" and "strcmp_chars name b \<noteq> 0"
    and "stack mod 4 = 0" and "word_of_int stacksize mod 4 = (0 :: 32 word)" and "64 \<le> (word_of_int stacksize :: 32 word)"
    and "unat stack + unat (word_of_int stacksize :: 32 word) < 2 ^ 32"
  shows "runs_to (sys_thread_new lw im (Some name) thread arg stacksize prio) s (\<lambda>v u. v = Obj t \<and> mem u = a'
     \<and> created_post (kernel s) L r rs ws t name (mk_prio prio) thread (kernel u))"
  using task_created [OF assms(4-16), of im "mk_prio prio" thread arg] assms(1-3)
  by (auto simp: sys_thread_new_def run_simps elim!: runs_to_weaken)

lemma sys_thread_new_no_memory:
  assumes "fst (malloc_stack lw stacksize (mem s)) = 0"
  shows "sys_thread_new lw im name thread arg stacksize prio s = Inl Hang"
  using assms by (cases "malloc_stack lw stacksize (mem s)") (simp add: sys_thread_new_def run_apply in_mem_def)

end
