(* ===== verification/LwipConf.thy ===== *)
theory LwipConf
  imports SysArchProps
begin

unbundle bit_operations_syntax

text \<open>
  How lwIP is configured for the kernel: the macros of \<open>lwip_martos/include/arch/cc.h\<close> and the thread options of
  \<open>lwip_martos/include/lwipopts.h\<close>.
\<close>

section \<open>Critical sections of lwIP\<close>

definition SYS_ARCH_PROTECT :: "unit K" where "SYS_ARCH_PROTECT = disable"

definition SYS_ARCH_UNPROTECT :: "unit K" where "SYS_ARCH_UNPROTECT = enable"

definition LWIP_PLATFORM_ASSERT :: "unit K" where "LWIP_PLATFORM_ASSERT = sys_arch_abort"

text \<open>lwIP may nest them, among themselves and with those of the kernel.\<close>

interpretation prot: critical_section SYS_ARCH_PROTECT SYS_ARCH_UNPROTECT irq_ok nest_room id_nestcnt primask
  unfolding SYS_ARCH_PROTECT_def SYS_ARCH_UNPROTECT_def by (rule cs.critical_section_axioms)

lemma platform_assert_stops: "\<not> runs_to LWIP_PLATFORM_ASSERT s P"
  by (simp add: LWIP_PLATFORM_ASSERT_def sys_arch_abort_def user_halt_def run_simps)

section \<open>Threads of lwIP\<close>

definition TCPIP_THREAD_STACKSIZE :: int where "TCPIP_THREAD_STACKSIZE = 4096"

definition TCPIP_THREAD_PRIO :: int where "TCPIP_THREAD_PRIO = 32"

definition DEFAULT_THREAD_STACKSIZE :: int where "DEFAULT_THREAD_STACKSIZE = 4096"

definition DEFAULT_THREAD_PRIO :: int where "DEFAULT_THREAD_PRIO = 8"

definition MEM_SIZE :: int where "MEM_SIZE = 1600 + (TCPIP_THREAD_STACKSIZE + DEFAULT_THREAD_STACKSIZE)"

text \<open>Both configured stack sizes are accepted by \<open>task_init\<close>, and the heap has room for both stacks.\<close>

lemma thread_stack_sizes:
  "word_of_int TCPIP_THREAD_STACKSIZE mod 4 = (0 :: 32 word)" "64 \<le> (word_of_int TCPIP_THREAD_STACKSIZE :: 32 word)"
  "unat (word_of_int TCPIP_THREAD_STACKSIZE :: 32 word) = 4096" "TCPIP_THREAD_STACKSIZE + DEFAULT_THREAD_STACKSIZE < MEM_SIZE"
  by (simp_all add: TCPIP_THREAD_STACKSIZE_def DEFAULT_THREAD_STACKSIZE_def MEM_SIZE_def)

text \<open>
  C32: The thread of lwIP runs at once.  When a task creates it with the configured stack and priority, and no ready task is as urgent, the call returns the
  new task, and the context switch it requests enters the thread's function.
\<close>

theorem tcpip_thread_runs:
  assumes "malloc_stack lw TCPIP_THREAD_STACKSIZE (mem s) = (stack, a)" and "stack \<noteq> 0" and "malloc_task lw a = (Obj t, a')"
    and "kern (kernel s) L r rs ws" and "nest_room 1 (kernel s)" and "unlinked L t" and "t \<noteq> r"
    and "names_ok (nodes (kernel s)) (rs @ ws)" and "c_string name" and "find_spec (nodes (kernel s)) name (rs @ ws) = NULL"
    and "null_name (kernel s) = Some b" and "strcmp_chars name b \<noteq> 0" and "stack mod 4 = 0" and "unat stack + 4096 < 2 ^ 32"
    and "\<not> primask (kernel s)" and "\<forall>x \<in> insert r (set rs). prio_of (nodes (kernel s)) x < mk_prio TCPIP_THREAD_PRIO"
    and "frame_fits (psp - 32) (tk_context (tasks (kernel s) (Obj r)))"
  shows "runs_to (bindM (sys_thread_new lw im (Some name) thread arg TCPIP_THREAD_STACKSIZE TCPIP_THREAD_PRIO) (\<lambda>p.
       bindM (kcall (PendSV_Handler psp)) (\<lambda>fr. ret (p, fr)))) s
     (\<lambda>v u. fst v = Obj t \<and> running (kernel u) = Obj t \<and> ram (kernel u) (snd v + OFF_pc) = thread \<and> mem u = a'
        \<and> (\<exists>L' rs'. kern (kernel u) L' t rs' ws \<and> set rs' \<subseteq> insert r (set rs)))" (is "runs_to _ _ ?Q")
  unfolding runs_to_bindM
proof (rule runs_to_weaken [OF sys_thread_new_ok [OF assms(1-13) thread_stack_sizes(1,2)]], goal_cases)
  case 1
  then show ?case using assms(14) thread_stack_sizes(3) by simp
next
  case (2 p u)
  let ?k = "kernel u" and ?pr = "(prio_of (nodes (kernel s)))(t := mk_prio TCPIP_THREAD_PRIO)"
  let ?rs = "enqueue_spec ?pr t rs"
  have c: "p = Obj t" "mem u = a'" "kern ?k (L(ready \<mapsto> ?rs)) r ?rs ws" "prio_of (nodes ?k) = ?pr" "id_nestcnt ?k = id_nestcnt (kernel s)"
    "ram ?k (cx_frame (tk_context (tasks ?k (Obj t))) + OFF_pc) = thread" "tasks ?k (Obj r) = tasks (kernel s) (Obj r)"
    using 2 assms(7) by (auto simp: created_post_def)
  have np: "\<not> primask ?k" using kern_lists(5) [OF c(3)] kern_lists(5) [OF assms(4)] assms(15) c(5) by (simp add: irq_ok_def)
  have w: "t \<in> set ?rs" "t \<noteq> r" using assms(7) by simp_all
  have "\<forall>x \<in> insert r (set ?rs). x \<noteq> t \<longrightarrow> prio_of (nodes ?k) x < prio_of (nodes ?k) t" using assms(16) by (simp add: c(4))
  note sw = switch_to_urgent [OF c(3) w this]
  have sub: "set (tl (switch_queue ?k r ?rs ws)) \<subseteq> insert r (set rs)"
    using switch_queue_props(3,5) [OF c(3)] sw(2) switch_queue_props(1) [OF c(3)] by (cases "switch_queue ?k r ?rs ws") auto
  show ?case
    unfolding run_simps
  proof (rule runs_to_weaken [OF PendSV_kern [OF c(3) np]])
    show "frame_fits (psp - 32) (tk_context (tasks ?k (Obj r)))" using assms(17) c(7) by simp
    fix fr v assume v: "switch_post ?k (L(ready \<mapsto> ?rs)) r ?rs ws (psp - 32) fr v"
    then show "?Q (p, fr) (u\<lparr>kernel := v\<rparr>)"
      using c(1,2,6) sw(2) w(2) sub kern_lists(4) [of v _ t] by (auto simp: switch_post_def Let_def same_defs switch_tasks_def)
  qed
qed

theorem tcpip_thread_runs_witness:
  "runs_to (bindM (sys_thread_new demo_lwip im0 (Some ''tcpip_thread'') 0x8000301 0 TCPIP_THREAD_STACKSIZE TCPIP_THREAD_PRIO) (\<lambda>p.
       bindM (kcall (PendSV_Handler 0x20000300)) (\<lambda>fr. ret (p, fr)))) (demo_net demo_state)
     (\<lambda>v u. fst v = Obj 100 \<and> running (kernel u) = Obj 100 \<and> ram (kernel u) (snd v + OFF_pc) = 0x8000301 \<and> mem u = 101
        \<and> (\<exists>L' rs'. kern (kernel u) L' 100 rs' [7] \<and> set rs' \<subseteq> insert 5 (set [6, 0])))"
  by (rule tcpip_thread_runs [where L = demo_lists and stack = "0x20002000" and a = 100 and b = "''''"])
    (use demo_names in \<open>simp_all add: demo_net_def demo_lwip_def demo_kern demo_room demo_unlinked c_string_def find_spec_NULL demo_prio_of
      demo_prio_def TCPIP_THREAD_PRIO_def less_Node_Prio_def less_eq_Node_Prio_def prio_val_mk_prio demo_tasks_def demo_task_def frame_fits_def
      blank_task_def frame_offsets\<close>, simp_all add: demo_nodes_def link_in_def blank_heap_def demo_name_def)

end
