(* ===== verification/InitC.thy ===== *)
theory InitC
  imports TimerProps
begin

unbundle bit_operations_syntax

text \<open>
  Start-up: \<open>src/init.c\<close> and the rest of \<open>platform.c\<close>.  Set-up of peripherals (exception
  priorities, the system tick, LEDs) writes registers that are not part of the state.
\<close>

section \<open>The code\<close>

text \<open>The return address of a task's entry function.\<close>

definition dead_end :: "unit K" where
  "dead_end = ret ()"

text \<open>Where a failed assertion ends: the arguments only help a debugger.\<close>

definition assert_func :: "unit K" where
  "assert_func = seqM disable_irq (seqM abort (throw Hang))"

definition Default_Handler :: "unit K" where
  "Default_Handler = throw Hang"

text \<open>\<open>martos_pre\<close> returns the context of the init task; the pointer here is to the task it is a field of.\<close>

definition martos_pre :: "image \<Rightarrow> ptr K" where
  "martos_pre im =
     seqM (in_nodes (list_init ready)) (
     seqM (in_nodes (list_init waiting)) (
     seqM (set_nestcnt (- 1)) (
     seqM (modify (\<lambda>s. s\<lparr>elapsed := QUANTUM\<rparr>)) (
     seqM (task_init im init_task (Some ''init'') TASK_PRIO_EXCLUSIVE (im_init_task_f im) 0
       (im_init_task_stack im) INIT_TASK_STACK_SIZE) (
     seqM (task_verify init_task) (
     seqM (upd_task init_task (\<lambda>t. t\<lparr>tk_state := TASK_RUNNING\<rparr>)) (
     seqM (modify (\<lambda>s. s\<lparr>running := init_task\<rparr>)) (
     ret init_task))))))))"

text \<open>
  The kernel's part of \<open>platform_pre\<close>, with the stack pointer that it installs and returns; its calls for the interrupt controller and the lights are
  \<open>platform_pre_nvic\<close> and \<open>platform_pre_board\<close> in the theories on the vectors and the board.
\<close>

definition platform_pre :: "image \<Rightarrow> 32 word K" where
  "platform_pre im =
     bindM (martos_pre im) (\<lambda>context.
     get_task context (\<lambda>t. cx_frame (tk_context t)))"

text \<open>
  The init task up to its idle loop, in which it stays for good; \<open>user_init\<close> is the application's.
\<close>

definition init_task_f :: "unit K \<Rightarrow> unit K" where
  "init_task_f user_init =
     seqM timer_init (
     seqM (task_set_prio init_task TASK_PRIO_MIN) (
     user_init))"

text \<open>Neither a failed assertion nor an unexpected exception returns to the code it interrupted.\<close>

lemma assert_func_stops: "\<not> runs_to assert_func s P" "\<not> runs_to Default_Handler s P" "\<not> runs_to abort s P"
  by (simp_all add: assert_func_def Default_Handler_def abort_def user_halt_def disable_irq_def run_simps)

section \<open>The first task\<close>

lemma init_task_not_NULL: "init_task \<noteq> NULL"
  by (simp add: init_task_def)

lemma task_find_empty:
  assumes l: "lists_ok (nodes s) L" "L ready = Some []" "L waiting = Some []" and i: "irq_ok s" "nest_room 1 s"
    and c: "c_string name"
  shows "task_find (Some name) s = (case null_name s of None \<Rightarrow> Inl NullDeref
     | Some b \<Rightarrow> Inr (if strcmp_chars name b = 0 then running s else NULL, s))"
proof -
  have "list_find m (Some name) (nodes s) = Inr (NULL, nodes s)" if "m = ready \<or> m = waiting" for m
  proof -
    have "dll (nodes s) m []" using that l by (auto intro: lists_ok_dll)
    then have "list_find m (Some name) (nodes s) = Inr (find_spec (nodes s) name [], nodes s)"
      by (rule list_find_dll [OF _ _ c]) (simp add: names_ok_def)
    then show ?thesis by (simp add: find_spec_def)
  qed
  then show ?thesis
    by (simp add: task_find_def run_apply disable_in_range [OF i] enable_after_disable [OF i]
        get_name_def strcmp_def split: option.split)
qed

text \<open>What the memory image and the hardware provide at reset.\<close>

definition reset_ok :: "image \<Rightarrow> kstate \<Rightarrow> bool" where
  "reset_ok im s = (\<not> primask s \<and> \<not> pendsv s \<and> im_init_task_stack im mod 4 = 0
     \<and> unat (im_init_task_stack im) + 2048 < 2 ^ 32)"

definition boot_lists :: lists where
  "boot_lists = [ready \<mapsto> [], waiting \<mapsto> []]"

text \<open>The state after the first four statements of \<open>martos_pre\<close>.\<close>

lemma boot_lists_init:
  "runs_to (seqM (list_init ready) (list_init waiting)) h (\<lambda>_ h'. lists_ok h' boot_lists \<and> same_data h h')"
proof -
  have "lists_ok h Map.empty" by (simp add: lists_ok_def)
  then show ?thesis
    unfolding runs_to_seqM boot_lists_def
    by (rule runs_to_weaken [OF lc.init_law, of h _ ready]) (auto intro!: runs_to_weaken [OF lc.init_law] intro: same_data_trans)
qed


lemma lists_ok_set_name_prio:
  assumes "lists_ok h L"
  shows "lists_ok (h(p := (h p)\<lparr>nd_name := nm, nd_prio := v\<rparr>)) L"
proof -
  have "dll (h(p := (h p)\<lparr>nd_name := nm, nd_prio := v\<rparr>)) l xs = dll h l xs" for l xs
    unfolding dll_def by (subst linked_cong [of _ _ h]) auto
  then show ?thesis using assms by (simp add: lists_ok_def)
qed

text \<open>The init task as \<open>task_init\<close> leaves it, with its state set to running.\<close>

definition init_fields :: "image \<Rightarrow> Task_State \<Rightarrow> Task" where
  "init_fields im st = (let stack = im_init_task_stack im in
     \<lparr>tk_context = \<lparr>cx_frame = stack + 2048 - 64, cx_bos = stack, cx_tos = stack + 2048\<rparr>, tk_sig_alloc = SIGF_SINGLE,
      tk_sig_wait = 0, tk_sig_recvd = 0, tk_id_nestcnt = - 1, tk_state = st\<rparr>)"

definition boot_post :: "image \<Rightarrow> kstate \<Rightarrow> kstate \<Rightarrow> bool" where
  "boot_post im s u = (kern u boot_lists init_addr [] [] \<and> \<not> pendsv u \<and> \<not> primask u \<and> id_nestcnt u = - 1
     \<and> elapsed u = QUANTUM \<and> prio_of (nodes u) init_addr = TASK_PRIO_EXCLUSIVE
     \<and> nd_name (nodes u init_task) = Some ''init'' \<and> tasks u init_task = init_fields im TASK_RUNNING \<and> null_name u = null_name s
     \<and> ram u = frame_image im (im_init_task_stack im + 2048 - 64) (im_init_task_f im) 0 (ram s))"

lemma init_task_ok:
  assumes "reset_ok im s"
  shows "task_ok (init_fields im st)"
proof -
  have "unat (im_init_task_stack im) + unat (2048 :: 32 word) < 2 ^ 32" using assms by (simp add: reset_ok_def)
  from frame_in_stack(1) [OF this, of 0] show ?thesis
    by (simp add: task_ok_def ctx_ok_def init_fields_def Let_def frame_offsets SIGF_SINGLE_def) (simp add: add.commute)
qed

lemma boot_kern:
  assumes "lists_ok (nodes u) boot_lists" "running u = init_task" "irq_ok u" "\<not> pendsv u"
    "tasks u init_task = init_fields im TASK_RUNNING" "reset_ok im s"
  shows "kern u boot_lists init_addr [] []"
  using assms init_task_ok [OF assms(6), of TASK_RUNNING]
  by (auto simp: kern_def boot_lists_def init_task_def init_fields_def Let_def sorted_prio_def split: if_splits)

lemma martos_pre_ok:
  assumes r: "reset_ok im s" and z: "null_name s = Some b" "strcmp_chars ''init'' b \<noteq> 0"
  shows "runs_to (martos_pre im) s (\<lambda>v u. v = init_task \<and> boot_post im s u)"
proof -
  let ?s = "\<lambda>h. s\<lparr>nodes := h, id_nestcnt := - 1, elapsed := QUANTUM\<rparr>"
  let ?h = "\<lambda>h. h(init_task := (h init_task)\<lparr>nd_name := Some ''init'', nd_prio := TASK_PRIO_EXCLUSIVE\<rparr>)"
  define m where "m = frame_image im (im_init_task_stack im + 2048 - 64) (im_init_task_f im) 0 (ram s)"
  let ?u = "\<lambda>h st. s\<lparr>id_nestcnt := - 1, elapsed := QUANTUM, nodes := ?h h, ram := m,
      tasks := (tasks s)(init_task := init_fields im st)\<rparr>"
  have cs: "c_string ''init''" by (simp add: c_string_def)
  have init: "task_init im init_task (Some ''init'') TASK_PRIO_EXCLUSIVE (im_init_task_f im) 0 (im_init_task_stack im)
      INIT_TASK_STACK_SIZE (?s h) = Inr ((), ?u h TASK_INITIALIZED)" if h: "lists_ok h boot_lists" for h
    unfolding init_task_def
    by (subst task_init_apply, subst task_find_empty [OF _ _ _ _ _ cs, of _ boot_lists])
      (use h r z in \<open>auto simp: boot_lists_def reset_ok_def irq_ok_def nest_room_def INT32_MAX_def INIT_TASK_STACK_SIZE_def
        init_fields_def Let_def m_def\<close>)
  then have init_run: "runs_to (task_init im init_task (Some ''init'') TASK_PRIO_EXCLUSIVE (im_init_task_f im) 0
      (im_init_task_stack im) INIT_TASK_STACK_SIZE) (?s h) P = P () (?u h TASK_INITIALIZED)" if "lists_ok h boot_lists" for h P
    using that by (simp add: runs_to_def)
  have ver: "runs_to (task_verify init_task) (?u h TASK_INITIALIZED) P = P () (?u h TASK_INITIALIZED)" for h P
    by (rule task_verify_ok) (use init_task_ok [OF r, of TASK_INITIALIZED] r in
        \<open>simp_all add: init_task_def init_fields_def Let_def irq_ok_def nest_room_def INT32_MAX_def reset_ok_def\<close>)
  have post: "boot_post im s ((?u h TASK_RUNNING)\<lparr>running := init_task\<rparr>)" if h: "lists_ok h boot_lists" for h
    unfolding boot_post_def
    by (intro conjI boot_kern [OF _ _ _ _ _ r])
      (use lists_ok_set_name_prio [OF h] r in \<open>auto simp: irq_ok_def reset_ok_def prio_of_def init_task_def m_def\<close>)
  have run: "(init_fields im TASK_INITIALIZED)\<lparr>tk_state := TASK_RUNNING\<rparr> = init_fields im TASK_RUNNING"
    by (simp add: init_fields_def Let_def)
  have "runs_to (seqM (set_nestcnt (- 1)) (
     seqM (modify (\<lambda>s. s\<lparr>elapsed := QUANTUM\<rparr>)) (
     seqM (task_init im init_task (Some ''init'') TASK_PRIO_EXCLUSIVE (im_init_task_f im) 0
       (im_init_task_stack im) INIT_TASK_STACK_SIZE) (
     seqM (task_verify init_task) (
     seqM (upd_task init_task (\<lambda>t. t\<lparr>tk_state := TASK_RUNNING\<rparr>)) (
     seqM (modify (\<lambda>s. s\<lparr>running := init_task\<rparr>)) (
     ret init_task)))))) ) (s\<lparr>nodes := h\<rparr>) (\<lambda>v u. v = init_task \<and> boot_post im s u)" if h: "lists_ok h boot_lists" for h
    using post [OF h]
    by (simp add: run_simps set_nestcnt_def init_run [OF h] ver run init_task_not_NULL)
  then show ?thesis
    using boot_lists_init [of "nodes s"] unfolding martos_pre_def runs_to_seqM runs_to_in_nodes
    by (auto elim!: runs_to_weaken)
qed

section \<open>From reset to the application\<close>

text \<open>The state in which \<open>user_init\<close> is called: one task, of the lowest priority, and no timer.\<close>

definition booted :: "kstate \<Rightarrow> bool" where
  "booted t = (kern t (boot_lists(timers \<mapsto> [])) init_addr [] [] \<and> timers_ok t (boot_lists(timers \<mapsto> [])) init_addr {init_addr} []
     \<and> prio_of (nodes t) init_addr = TASK_PRIO_MIN \<and> nd_name (nodes t init_task) = Some ''init'' \<and> timer_now t = 0
     \<and> id_nestcnt t = - 1)"

lemma timer_init_ok:
  assumes "kern s L r rs ws"
  shows "runs_to timer_init s (\<lambda>_ u. kern u (L(timers \<mapsto> [])) r rs ws \<and> timer_now u = 0 \<and> same_data (nodes s) (nodes u)
     \<and> id_nestcnt u = id_nestcnt s \<and> pendsv u = pendsv s \<and> tasks u = tasks s \<and> null_name u = null_name s)"
proof -
  have "kern (s\<lparr>nodes := h, timer_now := 0\<rparr>) (L(timers \<mapsto> [])) r rs ws"
    if "lists_ok h (L(timers \<mapsto> []))" "same_data (nodes s) h" for h
    by (rule kern_other_list [OF assms]) (use that kern_lists(5) [OF assms] in \<open>simp_all add: irq_ok_def\<close>)
  then show ?thesis
    using lc.init_law [OF kern_lists(1) [OF assms], of timers]
    by (auto simp: timer_init_def timer_init_platform_def run_simps elim!: runs_to_weaken)
qed

lemma init_task_f_boots:
  assumes b: "boot_post im s u"
    and c: "\<And>t. booted t \<Longrightarrow> tasks t init_task = init_fields im TASK_RUNNING \<Longrightarrow> null_name t = null_name s \<Longrightarrow> runs_to c t Q"
  shows "runs_to (init_task_f c) u Q"
proof -
  have k: "kern u boot_lists init_addr [] []" and n: "id_nestcnt u = - 1" using b by (simp_all add: boot_post_def)
  show ?thesis
    unfolding init_task_f_def runs_to_seqM
  proof (rule runs_to_weaken [OF timer_init_ok [OF k]], elim conjE)
    fix x t assume t: "kern t (boot_lists(timers \<mapsto> [])) init_addr [] []" "timer_now t = 0" "id_nestcnt t = id_nestcnt u"
      "same_data (nodes u) (nodes t)" "tasks t = tasks u" "null_name t = null_name u"
    have nm: "nd_name (nodes t init_task) = Some ''init''" using b t(4) by (simp add: boot_post_def same_data_def)
    have room: "nest_room 1 t" using n t(3) by (simp add: nest_room_def INT32_MAX_def)
    have "booted v \<and> tasks v init_task = init_fields im TASK_RUNNING \<and> null_name v = null_name s" if "set_prio_post t (boot_lists(timers \<mapsto> [])) init_addr [] [] init_addr TASK_PRIO_MIN v" for v
    proof -
      have v: "kern v (boot_lists(timers \<mapsto> [])) init_addr [] []"
        "v = t\<lparr>nodes := with_prio (nodes t) init_addr TASK_PRIO_MIN, pendsv := True\<rparr>"
        using that by (auto simp: set_prio_post_def)
      then show ?thesis
        using b t n nm aliveI [OF v(1)] by (simp add: booted_def boot_post_def timers_ok_def sorted_prio_def with_prio_def prio_of_def init_task_def)
    qed
    then show "runs_to (task_set_prio init_task TASK_PRIO_MIN) t (\<lambda>_ t. runs_to c t Q)"
      unfolding init_task_def
      by (intro runs_to_weaken [OF task_set_prio_kern [OF t(1) _ room]] c) (auto simp: sorted_prio_def init_task_def)
  qed
qed

section \<open>Properties\<close>

text \<open>
  Start-up establishes the invariant.  From any memory contents after reset, with an
  aligned stack for the init task and an address zero that is readable and does not hold its name,
  \<open>platform_pre\<close> returns the stack pointer of a frame that enters \<open>init_task_f\<close>; the init task is
  running with the exclusive priority, both scheduler lists are empty, no switch is pending and
  interrupts are unmasked with a full time slice.
\<close>

theorem boot_establishes_invariant:
  assumes "reset_ok im s" and "null_name s = Some b" and "strcmp_chars ''init'' b \<noteq> 0"
  shows "runs_to (platform_pre im) s (\<lambda>fr u. kern u [ready \<mapsto> [], waiting \<mapsto> []] init_addr [] []
     \<and> \<not> pendsv u \<and> \<not> primask u \<and> elapsed u = QUANTUM \<and> prio_of (nodes u) init_addr = TASK_PRIO_EXCLUSIVE
     \<and> fr = im_init_task_stack im + INIT_TASK_STACK_SIZE - SIZEOF_StackFrame
     \<and> ram u (fr + OFF_pc) = im_init_task_f im \<and> ram u (fr + OFF_lr) = im_dead_end im)"
proof -
  have "boot_post im s u \<Longrightarrow> kern u [ready \<mapsto> [], waiting \<mapsto> []] init_addr [] []
     \<and> \<not> pendsv u \<and> \<not> primask u \<and> elapsed u = QUANTUM \<and> prio_of (nodes u) init_addr = TASK_PRIO_EXCLUSIVE
     \<and> cx_frame (tk_context (tasks u init_task)) = im_init_task_stack im + INIT_TASK_STACK_SIZE - SIZEOF_StackFrame
     \<and> ram u (im_init_task_stack im + INIT_TASK_STACK_SIZE - SIZEOF_StackFrame + OFF_pc) = im_init_task_f im
     \<and> ram u (im_init_task_stack im + INIT_TASK_STACK_SIZE - SIZEOF_StackFrame + OFF_lr) = im_dead_end im" for u
    using frame_image_fields(2,3) [of im "im_init_task_stack im + 2048 - 64" "im_init_task_f im" 0 "ram s"]
    by (simp add: boot_post_def boot_lists_def init_fields_def Let_def INIT_TASK_STACK_SIZE_def SIZEOF_StackFrame_def)
  then show ?thesis
    unfolding platform_pre_def run_simps
    by (intro runs_to_weaken [OF martos_pre_ok [OF assms]]) (auto simp: init_task_not_NULL)
qed

definition reset_state :: kstate where
  "reset_state = blank_state\<lparr>nodes := (\<lambda>_. \<lparr>nd_next = NULL, nd_prev = NULL, nd_name = None, nd_prio = mk_prio 0\<rparr>),
     null_name := Some []\<rparr>"

lemma reset_state_ok: "reset_ok im0 reset_state" "null_name reset_state = Some []" "strcmp_chars ''init'' [] \<noteq> 0"
  by (simp_all add: reset_ok_def reset_state_def blank_state_def im0_def)

theorem boot_establishes_invariant_witness:
  "runs_to (platform_pre im0) reset_state (\<lambda>fr u. kern u [ready \<mapsto> [], waiting \<mapsto> []] init_addr [] []
     \<and> \<not> pendsv u \<and> \<not> primask u \<and> elapsed u = QUANTUM \<and> prio_of (nodes u) init_addr = TASK_PRIO_EXCLUSIVE
     \<and> fr = im_init_task_stack im0 + INIT_TASK_STACK_SIZE - SIZEOF_StackFrame
     \<and> ram u (fr + OFF_pc) = im_init_task_f im0 \<and> ram u (fr + OFF_lr) = im_dead_end im0)"
  by (rule boot_establishes_invariant [OF reset_state_ok])

text \<open>
  The application starts in a good state.  Whatever \<open>user_init\<close> achieves when it is called with
  the invariant holding, the init task alone on the lowest priority, an empty timer queue and
  the clock at zero, start-up followed by the init task achieves.
\<close>

theorem boot_reaches_user_init:
  assumes "reset_ok im s" and "null_name s = Some b" and "strcmp_chars ''init'' b \<noteq> 0"
    and "\<And>t. kern t [ready \<mapsto> [], waiting \<mapsto> [], timers \<mapsto> []] init_addr [] [] \<Longrightarrow>
      timers_ok t [ready \<mapsto> [], waiting \<mapsto> [], timers \<mapsto> []] init_addr {init_addr} [] \<Longrightarrow>
      prio_of (nodes t) init_addr = TASK_PRIO_MIN \<Longrightarrow> timer_now t = 0 \<Longrightarrow> id_nestcnt t = - 1 \<Longrightarrow>
      runs_to user_init t Q"
  shows "runs_to (bindM (platform_pre im) (\<lambda>_. init_task_f user_init)) s Q"
  unfolding platform_pre_def run_simps
  by (intro runs_to_weaken [OF martos_pre_ok [OF assms(1-3)]])
    (use assms(4) in \<open>auto simp: init_task_not_NULL booted_def boot_lists_def intro!: init_task_f_boots\<close>)

theorem boot_reaches_user_init_witness:
  "runs_to (bindM (platform_pre im0) (\<lambda>_. init_task_f (seqM disable enable))) reset_state (\<lambda>_ t.
     kern t [ready \<mapsto> [], waiting \<mapsto> [], timers \<mapsto> []] init_addr [] [] \<and> timer_now t = 0)"
proof (rule boot_reaches_user_init [OF reset_state_ok])
  fix t assume t: "kern t [ready \<mapsto> [], waiting \<mapsto> [], timers \<mapsto> []] init_addr [] []" "timer_now t = 0" "id_nestcnt t = - 1"
  have "nest_room 1 t" using t(3) by (simp add: nest_room_def INT32_MAX_def)
  from crit [OF kern_lists(5) [OF t(1)] this] show "runs_to (seqM disable enable) t (\<lambda>_ t.
     kern t [ready \<mapsto> [], waiting \<mapsto> [], timers \<mapsto> []] init_addr [] [] \<and> timer_now t = 0)"
    using t by (simp add: run_simps, intro kern_cong [OF t(1)]) (simp_all add: irq_ok_def)
qed

text \<open>
  Start-up depends on reading through a null pointer.  Creating the init task looks its name up,
  finds no task of that name and reads the name of the null pointer: where that access traps the
  system never starts.
\<close>

theorem boot_reads_null:
  assumes "reset_ok im s" and "null_name s = None"
  shows "platform_pre im s = Inl NullDeref"
proof -
  obtain h where h: "seqM (list_init ready) (list_init waiting) (nodes s) = Inr ((), h)" "lists_ok h boot_lists"
    using boot_lists_init [of "nodes s"] by (auto elim!: runs_toE)
  have cs: "c_string ''init''" by (simp add: c_string_def)
  have "task_find (Some ''init'') (s\<lparr>nodes := h, id_nestcnt := - 1, elapsed := QUANTUM, tasks := tk\<rparr>) = Inl NullDeref" for tk
    by (subst task_find_empty [OF _ _ _ _ _ cs, of _ boot_lists])
      (use h assms in \<open>auto simp: boot_lists_def reset_ok_def irq_ok_def nest_room_def INT32_MAX_def\<close>)
  then show ?thesis
    using h(1) by (auto simp: platform_pre_def martos_pre_def task_init_def run_apply set_nestcnt_def init_task_not_NULL
        split: sum.splits prod.splits)
qed

theorem boot_reads_null_witness:
  "platform_pre im0 (reset_state\<lparr>null_name := None\<rparr>) = Inl NullDeref"
  by (rule boot_reads_null) (simp_all add: reset_ok_def reset_state_def blank_state_def im0_def)

end
