(* ===== verification/Machine.thy ===== *)
theory Machine
  imports InitC MsgC
begin

unbundle bit_operations_syntax

text \<open>
  The kernel as a machine: after start-up the running task makes kernel calls, interrupts arrive
  between them, and the context switch moves the processor from task to task, in any order.
  A kernel call is one step; \<open>sem_wait\<close>, \<open>timer_delay\<close> and \<open>msgport_wait\<close> are the sequences of the
  steps below that their bodies are (the request and then \<open>Wait\<close>, and so on), so that other
  tasks may run in between.  This theory has the machine and its invariant.
\<close>

section \<open>Configurations and events\<close>

text \<open>
  Beside the kernel state: for a task inside \<open>signal_wait\<close>, its argument and its local
  \<open>nestcnt\<close>; the tasks created so far; the timers allocated and not freed, and those of them that
  were aborted while queued; the semaphores and message ports, and what is on their queues.
\<close>

record conf =
  cf_state :: kstate
  cf_wait :: "addr \<rightharpoonup> Signals \<times> int"
  cf_tasks :: "addr set"
  cf_timers :: "addr set"
  cf_aborted :: "addr set"
  cf_sems :: "addr set"
  cf_ports :: "addr set"
  cf_queues :: "addr \<Rightarrow> addr list"

datatype event =
    Send addr Signals
  | Wait Signals
  | Resume
  | Allocate SignalNumber
  | Free Signals
  | SetPrio addr Node_Prio
  | Create addr string Node_Prio "32 word" "32 word" "32 word" "32 word"
  | Disable
  | Enable
  | AllocTimer addr
  | StartTimer addr Ticks
  | StartAlarm addr Ticks
  | AbortTimer addr
  | FreeTimer addr
  | InitSem addr SemaphoreCount
  | Request addr addr Signals
  | Release addr
  | InitPort addr
  | Post addr addr
  | Get addr
  | Reply addr
  | PendSV "32 word"
  | SysTick
  | TIM2

definition current :: "conf \<Rightarrow> addr" where
  "current cf = obj_of (running (cf_state cf))"

definition clients :: "conf \<Rightarrow> addr set" where
  "clients cf = cf_sems cf \<union> cf_ports cf"

definition queued :: "conf \<Rightarrow> addr set" where
  "queued cf = (\<Union>l \<in> clients cf. set (cf_queues cf l))"

text \<open>An object, and a list object, that the kernel does not hold.\<close>

definition fresh :: "addr \<Rightarrow> conf \<Rightarrow> bool" where
  "fresh x cf = (x \<notin> cf_tasks cf \<and> x \<notin> cf_timers cf \<and> x \<notin> queued cf)"

definition fresh_list :: "addr \<Rightarrow> conf \<Rightarrow> bool" where
  "fresh_list l cf = (l \<notin> {ready, waiting, timers} \<and> l \<notin> clients cf)"

text \<open>
  The running task executes code of its own: it is not inside \<open>signal_wait\<close>, and a pending switch
  is held back only by its own critical section.
\<close>

definition in_user :: "conf \<Rightarrow> bool" where
  "in_user cf = (cf_wait cf (current cf) = None \<and> (pendsv (cf_state cf) \<longrightarrow> primask (cf_state cf))
     \<and> tk_state (tasks (cf_state cf) (running (cf_state cf))) = TASK_RUNNING)"

text \<open>The deepest nesting of critical sections of a task; the saved count fits in \<open>int16_t\<close>.\<close>

definition MAX_NEST :: int where "MAX_NEST = 1000"

text \<open>
  What a caller has to respect, and when an interrupt can be taken.  Objects that are created are not in use, a task gets a name that no
  other task has, and a stack that is aligned and large enough; a timer is started by its owner
  and freed by a task that has its signal allocated, an aborted timer is not started again, and no timer is aborted twice; a task frees only signals it has allocated and allocates a timer or
  a port only while it has a free signal; a task does not release a semaphore that it is queued at, a semaphore's count stays in
  \<open>int32_t\<close>, and critical sections are nested at most \<open>MAX_NEST\<close> deep and left as often as they are entered; the init task does not
  wait; only the priority of the running task or of a waiting one is changed.  The condition on \<open>PendSV\<close> is
  that the task has not overrun its stack.
\<close>

fun enabled :: "event \<Rightarrow> conf \<Rightarrow> bool" where
  "enabled (Send a sg) cf = (in_user cf \<and> a \<in> cf_tasks cf)"
| "enabled (Wait sg) cf = (in_user cf \<and> current cf \<noteq> init_addr)"
| "enabled Resume cf = (cf_wait cf (current cf) \<noteq> None \<and> \<not> pendsv (cf_state cf))"
| "enabled (Allocate n) cf = (in_user cf \<and> - 1 \<le> n \<and> n < SIGNALS_WIDTH)"
| "enabled (Free m) cf = (in_user cf \<and> m AND SIGF_SINGLE = 0
     \<and> m AND tk_sig_alloc (tasks (cf_state cf) (running (cf_state cf))) = m)"
| "enabled (SetPrio a v) cf = (in_user cf \<and> a \<in> cf_tasks cf
     \<and> (a = current cf \<or> tk_state (tasks (cf_state cf) (Obj a)) = TASK_WAITING))"
| "enabled (Create a nm v pc ud stk sz) cf = (in_user cf \<and> fresh a cf \<and> c_string nm
     \<and> (\<forall>t \<in> cf_tasks cf. nd_name (nodes (cf_state cf) (Obj t)) \<noteq> Some nm)
     \<and> (case null_name (cf_state cf) of None \<Rightarrow> False | Some b \<Rightarrow> strcmp_chars nm b \<noteq> 0)
     \<and> stk mod 4 = 0 \<and> sz mod 4 = 0 \<and> 64 \<le> sz \<and> unat stk + unat sz < 2 ^ 32)"
| "enabled Disable cf = (in_user cf \<and> id_nestcnt (cf_state cf) < MAX_NEST)"
| "enabled Enable cf = (in_user cf \<and> 0 \<le> id_nestcnt (cf_state cf))"
| "enabled (AllocTimer x) cf = (in_user cf \<and> fresh x cf
     \<and> tk_sig_alloc (tasks (cf_state cf) (running (cf_state cf))) \<noteq> - 1)"
| "enabled (StartTimer x d) cf = (in_user cf \<and> x \<in> cf_timers cf
     \<and> tm_task (tmrs (cf_state cf) (Obj x)) = running (cf_state cf) \<and> tm_status (tmrs (cf_state cf) (Obj x)) \<noteq> TIMER_ADDED)"
| "enabled (StartAlarm x t) cf = (in_user cf \<and> x \<in> cf_timers cf
     \<and> tm_task (tmrs (cf_state cf) (Obj x)) = running (cf_state cf) \<and> tm_status (tmrs (cf_state cf) (Obj x)) \<noteq> TIMER_ADDED)"
| "enabled (AbortTimer x) cf = (in_user cf \<and> x \<in> cf_timers cf \<and> x \<notin> cf_aborted cf)"
| "enabled (FreeTimer x) cf = (in_user cf \<and> x \<in> cf_timers cf
     \<and> (tm_status (tmrs (cf_state cf) (Obj x)) \<noteq> TIMER_ADDED \<or> x \<in> cf_aborted cf)
     \<and> tm_signal (tmrs (cf_state cf) (Obj x)) AND SIGF_SINGLE = 0
     \<and> tm_signal (tmrs (cf_state cf) (Obj x)) AND tk_sig_alloc (tasks (cf_state cf) (running (cf_state cf)))
         = tm_signal (tmrs (cf_state cf) (Obj x)))"
| "enabled (InitSem l c) cf = (in_user cf \<and> fresh_list l cf \<and> 0 \<le> c \<and> c \<le> INT32_MAX)"
| "enabled (Request l x g) cf = (in_user cf \<and> l \<in> cf_sems cf \<and> fresh x cf \<and> g \<noteq> 0
     \<and> INT32_MIN < sm_count (sems (cf_state cf) l))"
| "enabled (Release l) cf = (in_user cf \<and> l \<in> cf_sems cf \<and> sm_count (sems (cf_state cf) l) < INT32_MAX
     \<and> (\<forall>x \<in> set (cf_queues cf l). rq_waiter (reqs (cf_state cf) (Obj x)) \<noteq> running (cf_state cf)))"
| "enabled (InitPort l) cf = (in_user cf \<and> fresh_list l cf
     \<and> tk_sig_alloc (tasks (cf_state cf) (running (cf_state cf))) \<noteq> - 1)"
| "enabled (Post l m) cf = (in_user cf \<and> l \<in> cf_ports cf \<and> fresh m cf)"
| "enabled (Get l) cf = (in_user cf \<and> l \<in> cf_ports cf)"
| "enabled (Reply m) cf = (in_user cf \<and> fresh m cf
     \<and> (case ms_reply_port (msgs (cf_state cf) (Obj m)) of None \<Rightarrow> False | Some l \<Rightarrow> l \<in> cf_ports cf))"
| "enabled (PendSV psp) cf = (pendsv (cf_state cf) \<and> \<not> primask (cf_state cf)
     \<and> frame_fits (psp - 32) (tk_context (tasks (cf_state cf) (running (cf_state cf)))))"
| "enabled SysTick cf = (\<not> primask (cf_state cf))"
| "enabled TIM2 cf = (\<not> primask (cf_state cf))"

section \<open>Steps\<close>

definition on_state :: "unit K \<Rightarrow> (conf, unit) M" where
  "on_state m = on_field cf_state (\<lambda>s cf. cf\<lparr>cf_state := s\<rparr>) m"

text \<open>A call of \<open>signal_wait\<close> that blocks leaves its locals on the task's stack.\<close>

definition waiting_call :: "Signals \<Rightarrow> wait_result K \<Rightarrow> (conf, unit) M" where
  "waiting_call sg m =
     bindM (gets current) (\<lambda>r.
     bindM (on_field cf_state (\<lambda>s cf. cf\<lparr>cf_state := s\<rparr>) m) (\<lambda>w.
     modify (\<lambda>cf. cf\<lparr>cf_wait := (cf_wait cf)(r := (case w of Returned _ \<Rightarrow> None | Blocked n \<Rightarrow> Some (sg, n)))\<rparr>)))"

text \<open>A change of a queue.\<close>

definition on_queue :: "addr \<Rightarrow> (addr list \<Rightarrow> addr list) \<Rightarrow> (conf, unit) M" where
  "on_queue l f = modify (\<lambda>cf. cf\<lparr>cf_queues := (cf_queues cf)(l := f (cf_queues cf l))\<rparr>)"

fun exec :: "image \<Rightarrow> event \<Rightarrow> (conf, unit) M" where
  "exec im (Send a sg) = on_state (signal_send (Obj a) sg)"
| "exec im (Wait sg) = waiting_call sg (signal_wait sg)"
| "exec im Resume = bindM (gets (\<lambda>cf. cf_wait cf (current cf))) (\<lambda>w. case w of
       None \<Rightarrow> ret () | Some (sg, n) \<Rightarrow> waiting_call sg (signal_wait_resume sg n))"
| "exec im (Allocate n) = on_state (bindM (signal_allocate n) (\<lambda>_. ret ()))"
| "exec im (Free m) = on_state (signal_free m)"
| "exec im (SetPrio a v) = on_state (task_set_prio (Obj a) v)"
| "exec im (Create a nm v pc ud stk sz) =
     seqM (on_state (seqM (task_init im (Obj a) (Some nm) v pc ud stk sz) (task_schedule (Obj a))))
       (modify (\<lambda>cf. cf\<lparr>cf_tasks := insert a (cf_tasks cf)\<rparr>))"
| "exec im Disable = on_state disable"
| "exec im Enable = on_state enable"
| "exec im (AllocTimer x) = seqM (on_state (timer_allocate (Obj x)))
     (modify (\<lambda>cf. cf\<lparr>cf_timers := insert x (cf_timers cf)\<rparr>))"
| "exec im (StartTimer x d) = on_state (
     seqM (set_timer (Obj x) (\<lambda>t. t\<lparr>tm_op := TIMER_DELAY\<rparr>)) (
     seqM (set_timer (Obj x) (\<lambda>t. t\<lparr>tm_delay := d\<rparr>)) (
     timer_add (Obj x))))"
| "exec im (StartAlarm x t) = on_state (
     seqM (set_timer (Obj x) (\<lambda>tm. tm\<lparr>tm_op := TIMER_ALARM\<rparr>)) (
     seqM (set_timer (Obj x) (\<lambda>tm. tm\<lparr>tm_tick := t\<rparr>)) (
     timer_add (Obj x))))"
| "exec im (AbortTimer x) = bindM (gets (\<lambda>cf. tm_status (tmrs (cf_state cf) (Obj x)) = TIMER_ADDED)) (\<lambda>b.
     seqM (on_state (timer_abort (Obj x)))
       (modify (\<lambda>cf. cf\<lparr>cf_aborted := (if b then insert x (cf_aborted cf) else cf_aborted cf)\<rparr>)))"
| "exec im (FreeTimer x) = seqM (on_state (timer_free (Obj x)))
     (modify (\<lambda>cf. cf\<lparr>cf_timers := cf_timers cf - {x}, cf_aborted := cf_aborted cf - {x}\<rparr>))"
| "exec im (InitSem l c) = seqM (on_state (sem_init l c))
     (seqM (modify (\<lambda>cf. cf\<lparr>cf_sems := insert l (cf_sems cf)\<rparr>)) (on_queue l (\<lambda>_. [])))"
| "exec im (Request l x g) = bindM (gets (\<lambda>cf. sm_count (sems (cf_state cf) l))) (\<lambda>c.
     seqM (on_state (
       seqM (set_req (Obj x) (\<lambda>q. q\<lparr>rq_signal := g\<rparr>)) (
       bindM (gets running) (\<lambda>r.
       seqM (set_req (Obj x) (\<lambda>q. q\<lparr>rq_waiter := r\<rparr>)) (
       bindM (sem_add_request l (Obj x)) (\<lambda>_. ret ()))))))
     (on_queue l (\<lambda>q. snd (sem_add x (c, q)))))"
| "exec im (Release l) = bindM (gets (\<lambda>cf. sm_count (sems (cf_state cf) l))) (\<lambda>c.
     seqM (on_state (sem_signal l)) (on_queue l (\<lambda>q. snd (sem_sig (c, q)))))"
| "exec im (InitPort l) = seqM (on_state (msgport_init l))
     (seqM (modify (\<lambda>cf. cf\<lparr>cf_ports := insert l (cf_ports cf)\<rparr>)) (on_queue l (\<lambda>_. [])))"
| "exec im (Post l m) = seqM (on_state (msgport_send l (Obj m))) (on_queue l (\<lambda>q. q @ [m]))"
| "exec im (Get l) = seqM (on_state (bindM (msgport_get l) (\<lambda>_. ret ()))) (on_queue l tl)"
| "exec im (Reply m) = bindM (gets (\<lambda>cf. ms_reply_port (msgs (cf_state cf) (Obj m)))) (\<lambda>l.
     seqM (on_state (msgport_reply (Obj m))) (on_queue (the l) (\<lambda>q. q @ [m])))"
| "exec im (PendSV psp) = on_state (bindM (PendSV_Handler psp) (\<lambda>_. ret ()))"
| "exec im SysTick = on_state SysTick_Handler"
| "exec im TIM2 = on_state (TIM2_IRQHandler True)"

text \<open>The configuration in which start-up ends, and those reachable from there.\<close>

definition boot_conf :: "kstate \<Rightarrow> conf" where
  "boot_conf s = \<lparr>cf_state = s, cf_wait = Map.empty, cf_tasks = {init_addr}, cf_timers = {}, cf_aborted = {},
     cf_sems = {}, cf_ports = {}, cf_queues = (\<lambda>_. [])\<rparr>"

inductive reach :: "image \<Rightarrow> kstate \<Rightarrow> conf \<Rightarrow> bool" for im s where
  reach_boot: "bindM (platform_pre im) (\<lambda>_. init_task_f (ret ())) s = Inr ((), u) \<Longrightarrow> reach im s (boot_conf u)"
| reach_step: "reach im s cf \<Longrightarrow> enabled e cf \<Longrightarrow> exec im e cf = Inr ((), cf') \<Longrightarrow> reach im s cf'"

inductive_cases reach_cases: "reach im s cf"

section \<open>The invariant\<close>

text \<open>
  \<open>core\<close>: the kernel's invariant for the tasks of \<open>cf\<close>, with the scheduler's lists, the timer
  queue and the clients' queues as the only lists.  \<open>timing\<close>: a timer is queued exactly if its status says so,
  unless it was aborted.  \<open>queues_ok\<close>: the queues of semaphores and ports.  \<open>waits_ok\<close>: a task inside \<open>signal_wait\<close>
  waits for what it was called with.
\<close>

definition core :: "conf \<Rightarrow> kstate \<Rightarrow> lists \<Rightarrow> addr \<Rightarrow> addr list \<Rightarrow> addr list \<Rightarrow> addr list \<Rightarrow> bool" where
  "core cf s L r rs ws xs = (kern s L r rs ws \<and> cf_tasks cf = insert r (set rs \<union> set ws)
     \<and> dom L = {ready, waiting, timers} \<union> clients cf \<and> timers_ok s L r (cf_tasks cf) xs \<and> id_nestcnt s \<le> MAX_NEST
     \<and> (\<forall>t \<in> cf_tasks cf. \<exists>nm. nd_name (nodes s (Obj t)) = Some nm \<and> c_string nm))"

definition timing :: "conf \<Rightarrow> kstate \<Rightarrow> addr list \<Rightarrow> bool" where
  "timing cf s xs = (cf_tasks cf \<inter> cf_timers cf = {} \<and> set xs \<subseteq> cf_timers cf \<and> cf_aborted cf \<subseteq> cf_timers cf - set xs
     \<and> (\<forall>x \<in> cf_timers cf. tm_status (tmrs s (Obj x)) \<noteq> TIMER_INVALID
          \<and> (tm_status (tmrs s (Obj x)) = TIMER_ADDED \<longleftrightarrow> x \<in> set xs \<or> x \<in> cf_aborted cf)))"

definition sem_inv :: "kstate \<Rightarrow> addr set \<Rightarrow> addr \<Rightarrow> addr list \<Rightarrow> bool" where
  "sem_inv s ts l q = (INT32_MIN \<le> sm_count (sems s l) \<and> sm_count (sems s l) \<le> INT32_MAX \<and> sem_covered (sm_count (sems s l), q)
     \<and> (\<forall>x \<in> set q. \<exists>w \<in> ts. rq_waiter (reqs s (Obj x)) = Obj w \<and> rq_signal (reqs s (Obj x)) \<noteq> 0))"

definition port_inv :: "kstate \<Rightarrow> addr set \<Rightarrow> addr \<Rightarrow> bool" where
  "port_inv s ts l = (mp_action (ports s l) \<in> {MSGPORT_SIGNAL, MSGPORT_IGNORE}
     \<and> (mp_task (ports s l) = NULL \<or> (\<exists>t \<in> ts. mp_task (ports s l) = Obj t)))"

definition queues_ok :: "conf \<Rightarrow> kstate \<Rightarrow> lists \<Rightarrow> bool" where
  "queues_ok cf s L = (cf_sems cf \<inter> cf_ports cf = {} \<and> clients cf \<inter> {ready, waiting, timers} = {}
     \<and> queued cf \<inter> cf_timers cf = {} \<and> (\<forall>l \<in> clients cf. L l = Some (cf_queues cf l))
     \<and> (\<forall>l \<in> cf_sems cf. sem_inv s (cf_tasks cf) l (cf_queues cf l)) \<and> (\<forall>l \<in> cf_ports cf. port_inv s (cf_tasks cf) l))"

definition waits_ok :: "conf \<Rightarrow> kstate \<Rightarrow> addr \<Rightarrow> bool" where
  "waits_ok cf s r = (\<forall>t sg n. cf_wait cf t = Some (sg, n) \<longrightarrow> t \<in> cf_tasks cf \<and> t \<noteq> init_addr \<and> 0 \<le> n \<and> n \<le> MAX_NEST + 1
     \<and> tk_sig_wait (tasks s (Obj t)) = sg \<and> (t = r \<longrightarrow> id_nestcnt s = - 1))"

definition ginv :: "conf \<Rightarrow> kstate \<Rightarrow> lists \<Rightarrow> addr \<Rightarrow> addr list \<Rightarrow> addr list \<Rightarrow> addr list \<Rightarrow> bool" where
  "ginv cf s L r rs ws xs = (core cf s L r rs ws xs \<and> timing cf s xs \<and> queues_ok cf s L \<and> waits_ok cf s r)"

definition minv :: "conf \<Rightarrow> bool" where
  "minv cf = (\<exists>L r rs ws xs. ginv cf (cf_state cf) L r rs ws xs)"

text \<open>What the parts of the invariant do not depend on.\<close>

lemma clients_simps [simp]:
  "clients (cf_state_update f cf) = clients cf" "clients (cf_wait_update g cf) = clients cf"
  "clients (cf_tasks_update h cf) = clients cf" "clients (cf_timers_update h cf) = clients cf"
  "clients (cf_aborted_update h cf) = clients cf" "clients (cf_queues_update k cf) = clients cf"
  "queued (cf_state_update f cf) = queued cf" "queued (cf_wait_update g cf) = queued cf"
  "queued (cf_tasks_update h cf) = queued cf" "queued (cf_timers_update h cf) = queued cf"
  "queued (cf_aborted_update h cf) = queued cf"
  by (simp_all add: clients_def queued_def)

lemma conf_swap:
  "cf_wait_update g (cf_state_update f cf) = cf_state_update f (cf_wait_update g cf)"
  "cf_tasks_update h (cf_state_update f cf) = cf_state_update f (cf_tasks_update h cf)"
  "cf_timers_update h (cf_state_update f cf) = cf_state_update f (cf_timers_update h cf)"
  "cf_aborted_update h (cf_state_update f cf) = cf_state_update f (cf_aborted_update h cf)"
  "cf_sems_update h (cf_state_update f cf) = cf_state_update f (cf_sems_update h cf)"
  "cf_ports_update h (cf_state_update f cf) = cf_state_update f (cf_ports_update h cf)"
  "cf_queues_update k (cf_state_update f cf) = cf_state_update f (cf_queues_update k cf)"
  by (cases cf, simp)+

lemma ginv_simps [simp]:
  "ginv (cf_state_update f cf) s L r rs ws xs = ginv cf s L r rs ws xs"
  "core (cf_state_update f cf) s L r rs ws xs = core cf s L r rs ws xs" "timing (cf_state_update f cf) s xs = timing cf s xs"
  "queues_ok (cf_state_update f cf) s L = queues_ok cf s L" "waits_ok (cf_state_update f cf) s r = waits_ok cf s r"
  "core (cf_wait_update g cf) s L r rs ws xs = core cf s L r rs ws xs"
  "core (cf_timers_update h cf) s L r rs ws xs = core cf s L r rs ws xs"
  "core (cf_aborted_update h cf) s L r rs ws xs = core cf s L r rs ws xs"
  "core (cf_queues_update k cf) s L r rs ws xs = core cf s L r rs ws xs"
  "timing (cf_wait_update g cf) s xs = timing cf s xs" "timing (cf_queues_update k cf) s xs = timing cf s xs"
  "timing (cf_sems_update h cf) s xs = timing cf s xs" "timing (cf_ports_update h cf) s xs = timing cf s xs"
  "queues_ok (cf_wait_update g cf) s L = queues_ok cf s L" "queues_ok (cf_aborted_update h cf) s L = queues_ok cf s L"
  "waits_ok (cf_timers_update h cf) s r = waits_ok cf s r" "waits_ok (cf_aborted_update h cf) s r = waits_ok cf s r"
  "waits_ok (cf_queues_update k cf) s r = waits_ok cf s r" "waits_ok (cf_sems_update h cf) s r = waits_ok cf s r"
  "waits_ok (cf_ports_update h cf) s r = waits_ok cf s r"
  by (simp_all add: ginv_def core_def timing_def queues_ok_def waits_ok_def)

lemma minvI: "ginv cf (cf_state cf) L r rs ws xs \<Longrightarrow> minv cf"
  unfolding minv_def by blast

lemma ginvD:
  assumes "ginv cf s L r rs ws xs"
  shows "core cf s L r rs ws xs" "timing cf s xs" "queues_ok cf s L" "waits_ok cf s r"
  using assms by (simp_all add: ginv_def)

lemma ginv_facts:
  assumes "ginv cf s L r rs ws xs"
  shows "kern s L r rs ws" "cf_tasks cf = insert r (set rs \<union> set ws)" "dom L = {ready, waiting, timers} \<union> clients cf"
    "timers_ok s L r (cf_tasks cf) xs" "cf_tasks cf \<inter> cf_timers cf = {}" "set xs \<subseteq> cf_timers cf" "id_nestcnt s \<le> MAX_NEST"
    "nest_room 3 s" "nest_room 2 s" "nest_room 1 s" "running s = Obj r" "irq_ok s" "L timers = Some xs"
    "clients cf \<inter> {ready, waiting, timers} = {}" "l \<in> clients cf \<Longrightarrow> L l = Some (cf_queues cf l)"
proof -
  show k: "kern s L r rs ws" and "cf_tasks cf = insert r (set rs \<union> set ws)" and "dom L = {ready, waiting, timers} \<union> clients cf"
    and t: "timers_ok s L r (cf_tasks cf) xs" and n: "id_nestcnt s \<le> MAX_NEST"
    using ginvD(1) [OF assms] unfolding core_def by blast+
  show "cf_tasks cf \<inter> cf_timers cf = {}" "set xs \<subseteq> cf_timers cf" using ginvD(2) [OF assms] unfolding timing_def by blast+
  show "nest_room 3 s" "nest_room 2 s" "nest_room 1 s"
    using n by (simp_all add: nest_room_def MAX_NEST_def INT32_MAX_def)
  show "running s = Obj r" "irq_ok s" "L timers = Some xs"
    using kern_lists(4,5) [OF k] timers_ok_facts(2) [OF t] by simp_all
  show "clients cf \<inter> {ready, waiting, timers} = {}" "l \<in> clients cf \<Longrightarrow> L l = Some (cf_queues cf l)"
    using ginvD(3) [OF assms] unfolding queues_ok_def by blast+
qed

lemma core_names: "ginv cf s L r rs ws xs \<Longrightarrow> t \<in> cf_tasks cf \<Longrightarrow> \<exists>nm. nd_name (nodes s (Obj t)) = Some nm \<and> c_string nm"
  unfolding ginv_def core_def by blast

lemma timer_status:
  assumes "ginv cf s L r rs ws xs" "x \<in> cf_timers cf"
  shows "tm_status (tmrs s (Obj x)) \<noteq> TIMER_INVALID"
    "tm_status (tmrs s (Obj x)) = TIMER_ADDED \<longleftrightarrow> x \<in> set xs \<or> x \<in> cf_aborted cf" "x \<in> cf_aborted cf \<Longrightarrow> x \<notin> set xs"
  using assms unfolding ginv_def timing_def by blast+

lemma queues_keep:
  assumes "queues_ok cf s L" "sems u = sems s" "reqs u = reqs s" "ports u = ports s" "\<And>l. l \<in> clients cf \<Longrightarrow> L' l = L l"
  shows "queues_ok cf u L'"
  using assms by (simp add: queues_ok_def sem_inv_def port_inv_def)

lemma queues_tasks:
  assumes "queues_ok cf s L"
  shows "queues_ok (cf\<lparr>cf_tasks := insert a (cf_tasks cf)\<rparr>) s L"
  using assms by (fastforce simp: queues_ok_def sem_inv_def port_inv_def)

lemma fresh_unlinked:
  assumes g: "ginv cf s L r rs ws xs" and x: "x \<notin> cf_tasks cf" "x \<notin> set xs" "x \<notin> queued cf"
  shows "unlinked L x"
  unfolding unlinked_def
proof (intro allI impI)
  fix l zs assume l: "L l = Some zs"
  note f = ginv_facts [OF g]
  have "l \<in> {ready, waiting, timers} \<union> clients cf" using f(3) l by auto
  then show "x \<notin> set zs"
    using l x f(2,13) f(15) [of l] kern_lists(2,3) [OF f(1)] by (auto simp: queued_def)
qed

lemma queued_apart: "ginv cf s L r rs ws xs \<Longrightarrow> x \<in> cf_timers cf \<Longrightarrow> x \<notin> queued cf"
  unfolding ginv_def queues_ok_def by blast

lemma client_apart:
  assumes "ginv cf s L r rs ws xs" "l \<in> clients cf"
  shows "l \<noteq> ready" "l \<noteq> waiting" "l \<noteq> timers"
  using ginv_facts(14) [OF assms(1)] assms(2) by auto

text \<open>The parts of the invariant after a step.\<close>

lemma core_keep:
  assumes g: "ginv cf s L r rs ws xs" and t: "timers_ok u L' r (cf_tasks cf) ys" and d: "dom L' = dom L"
    and u: "\<And>p. nd_name (nodes u p) = nd_name (nodes s p)" "id_nestcnt u = id_nestcnt s"
  shows "\<exists>rs' ws'. core cf u L' r rs' ws' ys"
proof -
  obtain rs' ws' where k: "kern u L' r rs' ws'" "cf_tasks cf = insert r (set rs' \<union> set ws')"
    using timers_ok_facts(1) [OF t] by (auto simp: alive_def)
  show ?thesis
    by (rule exI [of _ rs'], rule exI [of _ ws'], unfold core_def)
      (use k t d u ginv_facts(3,7) [OF g] core_names [OF g] in simp)
qed

lemma timers_ok_keep:
  assumes "timers_ok s L r ts xs" "alive u L' r ts" "L' timers = L timers" "tmrs u = tmrs s"
  shows "timers_ok u L' r ts xs"
  using assms by (auto simp: timers_ok_def timer_ok_def)

lemma waits_keep:
  assumes "waits_ok cf s r" "\<And>t. cf_wait cf t \<noteq> None \<Longrightarrow> tk_sig_wait (tasks u (Obj t)) = tk_sig_wait (tasks s (Obj t))"
    "id_nestcnt u = id_nestcnt s"
  shows "waits_ok cf u r"
  using assms by (fastforce simp: waits_ok_def)

lemma alive_lists: "alive s L r ts \<Longrightarrow> L ready \<noteq> None" "alive s L r ts \<Longrightarrow> L waiting \<noteq> None"
  unfolding alive_def by (auto dest: kern_lists(2,3))

lemma dom_keep:
  assumes "alive s L r ts" "alive u L' r' ts'" "L' m \<noteq> None" "\<And>l. l \<noteq> ready \<Longrightarrow> l \<noteq> waiting \<Longrightarrow> l \<noteq> m \<Longrightarrow> L' l = L l"
  shows "dom L' = insert m (dom L)"
proof -
  have "l \<in> dom L' \<longleftrightarrow> l \<in> insert m (dom L)" for l
  proof (cases "l \<in> {ready, waiting, m}")
    case True
    then show ?thesis using alive_lists [OF assms(1)] alive_lists [OF assms(2)] assms(3) by (auto simp: domIff)
  next
    case False
    then show ?thesis using assms(4) [of l] by (simp add: domIff)
  qed
  then show ?thesis by blast
qed

text \<open>A step that leaves the timers, the clients and the names alone.\<close>

lemma minv_keep:
  assumes g: "ginv cf s L r rs ws xs" and k: "kern u L' r' rs' ws'" "insert r' (set rs' \<union> set ws') = cf_tasks cf"
    and l: "\<And>l. l \<noteq> ready \<Longrightarrow> l \<noteq> waiting \<Longrightarrow> L' l = L l"
    and u: "tmrs u = tmrs s" "sems u = sems s" "reqs u = reqs s" "ports u = ports s"
      "\<And>p. nd_name (nodes u p) = nd_name (nodes s p)" "id_nestcnt u \<le> MAX_NEST"
    and t: "\<And>t. cf_wait cf t \<noteq> None \<Longrightarrow> tk_sig_wait (tasks u (Obj t)) = tk_sig_wait (tasks s (Obj t))"
      "cf_wait cf r' \<noteq> None \<Longrightarrow> id_nestcnt u = - 1"
  shows "minv (cf\<lparr>cf_state := u\<rparr>)"
proof (rule minvI [of _ L' r' rs' ws' xs])
  note f = ginv_facts [OF g]
  have lt: "L' timers = L timers" by (rule l) (simp_all add: static_lists_distinct)
  have al: "alive u L' r' (cf_tasks cf)" using aliveI [OF k(1)] k(2) by simp
  have "timers_ok u L' r' (cf_tasks cf) xs" using f(4) al lt u(1) by (auto simp: timers_ok_def timer_ok_def)
  moreover have "dom L' = dom L"
  proof -
    have "l \<in> dom L' \<longleftrightarrow> l \<in> dom L" for l
      using l [of l] kern_lists(2,3) [OF k(1)] kern_lists(2,3) [OF f(1)] by (cases "l = ready \<or> l = waiting") (auto simp: domIff)
    then show ?thesis by blast
  qed
  ultimately have "core cf u L' r' rs' ws' xs" using core_names [OF g] f(3) k u(5,6) by (simp add: core_def)
  moreover have "timing cf u xs" using ginvD(2) [OF g] u(1) by (simp add: timing_def)
  moreover have "queues_ok cf u L'" by (rule queues_keep [OF ginvD(3) [OF g] u(2-4)], rule l) (use client_apart [OF g] in simp_all)
  moreover have "waits_ok cf u r'" using ginvD(4) [OF g] t by (fastforce simp: waits_ok_def)
  ultimately have "ginv cf u L' r' rs' ws' xs" by (simp add: ginv_def)
  then show "ginv (cf\<lparr>cf_state := u\<rparr>) (cf_state (cf\<lparr>cf_state := u\<rparr>)) L' r' rs' ws' xs" by simp
qed

lemma runs_to_on_state [run_simps]:
  "runs_to (on_state m) cf P = runs_to m (cf_state cf) (\<lambda>_ u. P () (cf\<lparr>cf_state := u\<rparr>))"
  by (simp add: on_state_def run_simps)

lemma runs_to_on_queue [run_simps]:
  "runs_to (on_queue l f) cf P = P () (cf\<lparr>cf_queues := (cf_queues cf)(l := f (cf_queues cf l))\<rparr>)"
  by (simp add: on_queue_def run_simps)

lemma runs_to_waiting_call [run_simps]:
  "runs_to (waiting_call sg m) cf P = runs_to m (cf_state cf) (\<lambda>v u. P () (cf\<lparr>cf_state := u, cf_wait :=
     (cf_wait cf)(current cf := (case v of Returned _ \<Rightarrow> None | Blocked n \<Rightarrow> Some (sg, n)))\<rparr>))"
  by (simp add: waiting_call_def run_simps)

lemma current_eq: "running (cf_state cf) = Obj r \<Longrightarrow> current cf = r"
  by (simp add: current_def obj_of_def)

lemma in_user_facts:
  assumes g: "ginv cf (cf_state cf) L r rs ws xs" and i: "in_user cf"
  shows "r \<notin> set rs" "r \<notin> set ws" "cf_wait cf r = None" "current cf = r"
proof -
  note k = ginv_facts(1,11) [OF g]
  show "current cf = r" by (rule current_eq [OF k(2)])
  then show "cf_wait cf r = None" using i by (simp add: in_user_def)
  show "r \<notin> set rs" "r \<notin> set ws" using i kern_state_valid(2) [OF k(1)] k(2) by (simp_all add: in_user_def)
qed

end
