(* ===== verification/StepsTask.thy ===== *)
theory StepsTask
  imports Machine
begin

unbundle bit_operations_syntax

text \<open>
  The steps of tasks, signals, critical sections and the scheduler keep the machine's invariant.
\<close>

section \<open>Every step keeps the invariant\<close>

lemma step_Send:
  assumes g: "ginv cf (cf_state cf) L r rs ws xs" and e: "enabled (Send a sg) cf"
  shows "runs_to (exec im (Send a sg)) cf (\<lambda>_ cf'. minv cf')"
proof -
  note f = ginv_facts [OF g]
  have i: "in_user cf" and a: "a \<in> insert r (set rs \<union> set ws)" using e f(2) by auto
  have "minv (cf\<lparr>cf_state := u\<rparr>)" if u: "send_post (cf_state cf) L r rs ws a sg u" for u
    by (rule minv_keep [OF g, of u "L(waiting \<mapsto> send_waiting (cf_state cf) ws a sg, ready \<mapsto> send_ready (cf_state cf) rs ws a sg)"
          r "send_ready (cf_state cf) rs ws a sg" "send_waiting (cf_state cf) ws a sg"])
      (use u send_sets [OF f(1), of a sg] f(2,3,7) in_user_facts(3) [OF g i] in
        \<open>auto simp: send_post_def same_defs same_data_def send_task_def\<close>)
  then show ?thesis
    by (simp add: run_simps) (rule runs_to_weaken [OF signal_send_kern [OF f(1) a f(10)]])
qed

lemma step_SysTick:
  assumes g: "ginv cf (cf_state cf) L r rs ws xs" and e: "enabled SysTick cf"
  shows "runs_to (exec im SysTick) cf (\<lambda>_ cf'. minv cf')"
proof -
  note f = ginv_facts [OF g]
  have "minv (cf\<lparr>cf_state := u\<rparr>)"
    if u: "kern u L r rs ws" "u = (cf_state cf)\<lparr>elapsed := el, pendsv := p\<rparr>" for u el p
    by (rule minv_keep [OF g u(1)]) (use u f(2,7) ginvD(4) [OF g] in \<open>auto simp: waits_ok_def\<close>)
  then show ?thesis
    by (simp add: run_simps) (rule runs_to_weaken [OF SysTick_kern [OF f(1)]], blast)
qed


text \<open>The end of a \<open>signal_wait\<close>, of the first part or of a later one.\<close>

lemma wait_done:
  assumes g: "ginv cf (cf_state cf) L r rs ws xs" and r: "r \<noteq> init_addr"
    and p: "wait_post (cf_state cf) L r rs ws sg n v u" and n: "0 \<le> n" "n \<le> MAX_NEST + 1"
  shows "minv (cf\<lparr>cf_state := u, cf_wait := (cf_wait cf)(r := (case v of Returned _ \<Rightarrow> None | Blocked m \<Rightarrow> Some (sg, m)))\<rparr>)"
proof -
  note f = ginv_facts [OF g]
  let ?cf = "cf\<lparr>cf_wait := (cf_wait cf)(r := None)\<rparr>"
  have g': "ginv ?cf (cf_state cf) L r rs ws xs" using g by (auto simp: ginv_def waits_ok_def)
  have m: "to_int16 n = n" using n by (intro to_int16_id) (simp_all add: MAX_NEST_def)
  have same: "nd_name (nodes u q) = nd_name (nodes (cf_state cf) q)" "tmrs u = tmrs (cf_state cf)" "sems u = sems (cf_state cf)"
    "reqs u = reqs (cf_state cf)" "ports u = ports (cf_state cf)" for q
    using p by (simp_all add: wait_post_def same_store_def same_data_def)
  show ?thesis
  proof (cases "sg AND tk_sig_recvd (tasks (cf_state cf) (Obj r)) = 0")
    case True
    then have v: "v = Blocked n" and k: "kern u (L(waiting \<mapsto> ws @ [r])) r rs (ws @ [r])" and i: "id_nestcnt u = - 1"
      and t: "tasks u = (tasks (cf_state cf))(Obj r := (tasks (cf_state cf) (Obj r))\<lparr>tk_sig_wait := sg, tk_state := TASK_WAITING\<rparr>)"
      using p m by (simp_all add: wait_post_def Let_def)
    have "minv (?cf\<lparr>cf_state := u\<rparr>)"
      by (rule minv_keep [OF g' k _ _ same(2-5)]) (use f(2) i in \<open>simp_all add: MAX_NEST_def t same(1) split: if_splits\<close>)
    then obtain L' y rs' ws' xs' where G: "ginv ?cf u L' y rs' ws' xs'" unfolding minv_def by auto
    have y: "y = r" using ginv_facts(11) [OF G] kern_lists(4) [OF k] by simp
    have "waits_ok (cf\<lparr>cf_wait := (cf_wait cf)(r \<mapsto> (sg, n))\<rparr>) u r"
      unfolding waits_ok_def
    proof (intro allI impI)
      fix b sg' n' assume b: "cf_wait (cf\<lparr>cf_wait := (cf_wait cf)(r \<mapsto> (sg, n))\<rparr>) b = Some (sg', n')"
      show "b \<in> cf_tasks (cf\<lparr>cf_wait := (cf_wait cf)(r \<mapsto> (sg, n))\<rparr>) \<and> b \<noteq> init_addr \<and> 0 \<le> n' \<and> n' \<le> MAX_NEST + 1
          \<and> tk_sig_wait (tasks u (Obj b)) = sg' \<and> (b = r \<longrightarrow> id_nestcnt u = - 1)"
      proof (cases "b = r")
        case True
        then show ?thesis using b r n i f(2) by (simp add: t)
      next
        case False
        then show ?thesis using b ginvD(4) [OF G, unfolded waits_ok_def, rule_format, of b sg' n'] by simp
      qed
    qed
    then have "ginv (cf\<lparr>cf_wait := (cf_wait cf)(r \<mapsto> (sg, n))\<rparr>) u L' r rs' ws' xs'"
      using G y by (simp add: ginv_def)
    then show ?thesis by (intro minvI [of _ L' r rs' ws' xs']) (simp add: v conf_swap)
  next
    case False
    then have v: "\<exists>y. v = Returned y" and k: "kern u L r rs ws" and i: "id_nestcnt u = n - 1"
      and t: "tasks u = (tasks (cf_state cf))(Obj r := consume sg (tasks (cf_state cf) (Obj r)))"
      using p by (simp_all add: wait_post_def Let_def)
    have "minv (?cf\<lparr>cf_state := u\<rparr>)"
      by (rule minv_keep [OF g' k]) (use f(2) i n same in \<open>auto simp: t\<close>)
    then show ?thesis using v by (elim exE) (simp add: conf_swap)
  qed
qed

lemma step_Wait:
  assumes g: "ginv cf (cf_state cf) L r rs ws xs" and e: "enabled (Wait sg) cf"
  shows "runs_to (exec im (Wait sg)) cf (\<lambda>_ cf'. minv cf')"
proof -
  note f = ginv_facts [OF g]
  have i: "in_user cf" using e by simp
  note u = in_user_facts [OF g i]
  have r: "r \<noteq> init_addr" using e u(4) by simp
  have n: "0 \<le> id_nestcnt (cf_state cf) + 1" "id_nestcnt (cf_state cf) + 1 \<le> MAX_NEST + 1"
    using irq_ok_range [OF f(12)] f(7) by simp_all
  show ?thesis
    by (simp add: run_simps u(4), rule runs_to_weaken [OF signal_wait_kern [OF f(1) u(1,2) r f(10)]])
      (rule wait_done [OF g r _ n])
qed

lemma step_Resume:
  assumes g: "ginv cf (cf_state cf) L r rs ws xs" and e: "enabled Resume cf"
  shows "runs_to (exec im Resume) cf (\<lambda>_ cf'. minv cf')"
proof -
  note f = ginv_facts [OF g]
  have cur: "current cf = r" by (rule current_eq [OF f(11)])
  have np: "\<not> pendsv (cf_state cf)" using e by simp
  obtain sg n where sn: "cf_wait cf r = Some (sg, n)" using e cur by auto
  then have r: "r \<noteq> init_addr" and n: "0 \<le> n" "n \<le> MAX_NEST + 1" and sg: "tk_sig_wait (tasks (cf_state cf) (Obj r)) = sg"
    and i: "id_nestcnt (cf_state cf) = - 1"
    using ginvD(4) [OF g] by (auto simp: waits_ok_def)
  have n': "n \<le> INT32_MAX" using n(2) by (simp add: MAX_NEST_def INT32_MAX_def)
  show ?thesis
    by (simp add: run_simps cur sn, rule runs_to_weaken [OF signal_wait_resume_kern [OF f(1) kern_sched(1,2) [OF f(1) np] r sg i n(1) n']])
      (rule wait_done [OF g r _ n])
qed

lemma step_Allocate:
  assumes g: "ginv cf (cf_state cf) L r rs ws xs" and e: "enabled (Allocate n) cf"
  shows "runs_to (exec im (Allocate n)) cf (\<lambda>_ cf'. minv cf')"
proof -
  note f = ginv_facts [OF g]
  have i: "in_user cf" and n: "- 1 \<le> n" "n < SIGNALS_WIDTH" using e by auto
  note u = in_user_facts [OF g i]
  have "minv (cf\<lparr>cf_state := v\<rparr>)" if v: "kern v L r rs ws" "v = (cf_state cf)\<lparr>tasks := (tasks (cf_state cf))(Obj r := T)\<rparr>" for v T
    by (rule minv_keep [OF g v(1)]) (use v(2) f(2,7) u(3) in auto)
  then show ?thesis
    by (simp add: run_simps, intro runs_to_weaken [OF signal_allocate_kern [OF f(1) u(1,2) f(10) n]]) blast
qed

lemma step_Free:
  assumes g: "ginv cf (cf_state cf) L r rs ws xs" and e: "enabled (Free m) cf"
  shows "runs_to (exec im (Free m)) cf (\<lambda>_ cf'. minv cf')"
proof -
  note f = ginv_facts [OF g]
  have i: "in_user cf" and m: "m AND SIGF_SINGLE = 0" "m AND tk_sig_alloc (tasks (cf_state cf) (Obj r)) = m"
    using e f(11) by auto
  note u = in_user_facts [OF g i]
  have "minv (cf\<lparr>cf_state := v\<rparr>)" if v: "kern v L r rs ws" "v = (cf_state cf)\<lparr>tasks := (tasks (cf_state cf))(Obj r := T)\<rparr>" for v T
    by (rule minv_keep [OF g v(1)]) (use v(2) f(2,7) u(3) in auto)
  then show ?thesis
    by (simp add: run_simps, intro runs_to_weaken [OF signal_free_kern [OF f(1) u(1,2) m]]) blast
qed


lemma step_SetPrio:
  assumes g: "ginv cf (cf_state cf) L r rs ws xs" and e: "enabled (SetPrio a v) cf"
  shows "runs_to (exec im (SetPrio a v)) cf (\<lambda>_ cf'. minv cf')"
proof -
  note f = ginv_facts [OF g]
  have i: "in_user cf" and a: "a \<in> insert r (set rs \<union> set ws)" and w: "a = current cf \<or> tk_state (tasks (cf_state cf) (Obj a)) = TASK_WAITING"
    using e f(2) by auto
  note u = in_user_facts [OF g i]
  have ar: "a \<notin> set rs" using w u(1,4) kern_tasks(1) [OF f(1)] by fastforce
  have "sorted_prio ((prio_of (nodes (cf_state cf)))(a := v)) rs = sorted_prio (prio_of (nodes (cf_state cf))) rs"
    using ar by (intro sorted_prio_cong) auto
  then have so: "sorted_prio ((prio_of (nodes (cf_state cf)))(a := v)) rs" using kern_lists(6) [OF f(1)] by simp
  have "minv (cf\<lparr>cf_state := t\<rparr>)" if t: "set_prio_post (cf_state cf) L r rs ws a v t" for t
    by (rule minv_keep [OF g, of t L r rs ws]) (use t f(2,7) u(3) in \<open>auto simp: set_prio_post_def with_prio_def\<close>)
  then show ?thesis
    by (simp add: run_simps) (rule runs_to_weaken [OF task_set_prio_kern [OF f(1) a f(10) so]], auto)
qed

lemma step_Disable:
  assumes g: "ginv cf (cf_state cf) L r rs ws xs" and e: "enabled Disable cf"
  shows "runs_to (exec im Disable) cf (\<lambda>_ cf'. minv cf')"
proof -
  note f = ginv_facts [OF g]
  have i: "in_user cf" and n: "id_nestcnt (cf_state cf) < MAX_NEST" using e by auto
  have "minv (cf\<lparr>cf_state := masked (cf_state cf)\<rparr>)"
    by (rule minv_keep [OF g kern_masked [OF f(1)]])
      (use f(2) n in_user_facts(3) [OF g i] in \<open>auto simp: masked_def\<close>)
  then show ?thesis by (simp add: runs_to_on_state enter_critical [OF f(12,10)])
qed

lemma step_Enable:
  assumes g: "ginv cf (cf_state cf) L r rs ws xs" and e: "enabled Enable cf"
  shows "runs_to (exec im Enable) cf (\<lambda>_ cf'. minv cf')"
proof -
  note f = ginv_facts [OF g]
  let ?s = "cf_state cf"
  let ?u = "?s\<lparr>id_nestcnt := id_nestcnt ?s - 1, primask := primask ?s \<and> 1 \<le> id_nestcnt ?s\<rparr>"
  have i: "in_user cf" and n: "0 \<le> id_nestcnt ?s" using e by auto
  have "kern ?u L r rs ws" by (rule kern_cong [OF f(1)]) (use n f(12) in \<open>auto simp: irq_ok_def\<close>)
  then have "minv (cf\<lparr>cf_state := ?u\<rparr>)"
    by (rule minv_keep [OF g]) (use f(2,7) in_user_facts(3) [OF g i] in auto)
  then show ?thesis using n f(7) by (simp add: run_simps MAX_NEST_def INT32_MAX_def)
qed

lemma switch_sets:
  assumes k: "kern s L r rs ws" and q: "switch_queue s r rs ws = y # ys"
  shows "insert y (set ys \<union> set ws) = insert r (set rs \<union> set ws)"
proof -
  have "set (y # ys) = (if r \<notin> set rs \<union> set ws then insert r (set rs) else set rs)"
    using q by (metis switch_queue_def set_enqueue_spec)
  then show ?thesis by (auto split: if_splits)
qed

lemma step_PendSV:
  assumes g: "ginv cf (cf_state cf) L r rs ws xs" and e: "enabled (PendSV psp) cf"
  shows "runs_to (exec im (PendSV psp)) cf (\<lambda>_ cf'. minv cf')"
proof -
  note f = ginv_facts [OF g]
  let ?s = "cf_state cf"
  have p: "\<not> primask ?s" and fr: "frame_fits (psp - 32) (tk_context (tasks ?s (Obj r)))" using e f(11) by auto
  have i: "id_nestcnt ?s = - 1" using p f(12) by (simp add: irq_ok_def)
  obtain y ys where q: "switch_queue ?s r rs ws = y # ys"
    using switch_queue_props(1) [OF f(1)] by (cases "switch_queue ?s r rs ws") auto
  have "minv (cf\<lparr>cf_state := u\<rparr>)" if u: "switch_post ?s L r rs ws (psp - 32) v u" for v u
    by (rule minv_keep [OF g, of u "L(ready \<mapsto> ys)" y ys ws])
      (use u q f(2,3,7) i switch_sets [OF f(1) q] in
        \<open>auto simp: switch_post_def Let_def same_defs same_data_def switch_tasks_def switched_out_def\<close>)
  then show ?thesis
    by (simp add: run_simps) (rule runs_to_weaken [OF PendSV_kern [OF f(1) p fr]])
qed



end
