(* ===== verification/StepsTimer.thy ===== *)
theory StepsTimer
  imports StepsTask
begin

unbundle bit_operations_syntax

text \<open>
  The steps that create a task and those of timers, with the timer interrupt, keep the machine's invariant.
\<close>

lemma step_AllocTimer:
  assumes g: "ginv cf (cf_state cf) L r rs ws xs" and e: "enabled (AllocTimer x) cf"
  shows "runs_to (exec im (AllocTimer x)) cf (\<lambda>_ cf'. minv cf')"
proof -
  note f = ginv_facts [OF g]
  let ?s = "cf_state cf" and ?ts = "cf_tasks cf" and ?al = "cf_timers cf"
  have i: "in_user cf" and x: "x \<notin> ?ts" "x \<notin> ?al" "x \<notin> queued cf" and "tk_sig_alloc (tasks ?s (Obj r)) \<noteq> - 1"
    using e f(11) by (auto simp: fresh_def)
  then have fr: "\<exists>k < 16. \<not> bit (tk_sig_alloc (tasks ?s (Obj r))) k"
    by (auto simp: bit_eq_iff [where 'a = "16 word"])
  note u = in_user_facts [OF g i]
  have nx: "x \<notin> set xs" "x \<notin> cf_aborted cf" using x(2) ginvD(2) [OF g] by (auto simp: timing_def)
  have "minv (cf\<lparr>cf_state := v, cf_timers := insert x ?al\<rparr>)" if v: "kern v L r rs ws" "v = allocated_timer ?s r k x" for k v
  proof -
    have "timers_ok v L r ?ts xs"
      by (rule timers_ok_other [OF f(4)]) (use nx aliveI [OF v(1)] f(2) in \<open>auto simp: v(2) allocated_timer_def\<close>)
    then obtain rs' ws' where "core cf v L r rs' ws' xs"
      using core_keep [OF g, of v L xs] by (auto simp: v(2) allocated_timer_def)
    moreover have "timing (cf\<lparr>cf_timers := insert x ?al\<rparr>) v xs"
      using ginvD(2) [OF g] x nx by (auto simp: timing_def v(2) allocated_timer_def)
    moreover have "queues_ok (cf\<lparr>cf_timers := insert x ?al\<rparr>) v L"
      using ginvD(3) [OF g] x(3) by (simp add: queues_ok_def sem_inv_def port_inv_def v(2) allocated_timer_def)
    moreover have "waits_ok cf v r"
      by (rule waits_keep [OF ginvD(4) [OF g]]) (use u(3) in \<open>auto simp: v(2) allocated_timer_def\<close>)
    ultimately show ?thesis by (intro minvI [of _ L r rs' ws' xs]) (simp add: ginv_def conf_swap)
  qed
  then show ?thesis
    by (simp add: run_simps, intro runs_to_weaken [OF timer_allocate_ok [OF f(1) u(1,2) f(10) fr]]) auto
qed

lemma step_FreeTimer:
  assumes g: "ginv cf (cf_state cf) L r rs ws xs" and e: "enabled (FreeTimer x) cf"
  shows "runs_to (exec im (FreeTimer x)) cf (\<lambda>_ cf'. minv cf')"
proof -
  note f = ginv_facts [OF g]
  let ?s = "cf_state cf" and ?ts = "cf_tasks cf" and ?al = "cf_timers cf"
  have i: "in_user cf" and x: "x \<in> ?al" "tm_status (tmrs ?s (Obj x)) \<noteq> TIMER_ADDED \<or> x \<in> cf_aborted cf"
    and m: "tm_signal (tmrs ?s (Obj x)) AND SIGF_SINGLE = 0"
      "tm_signal (tmrs ?s (Obj x)) AND tk_sig_alloc (tasks ?s (Obj r)) = tm_signal (tmrs ?s (Obj x))"
    using e f(11) by auto
  note u = in_user_facts [OF g i]
  have nx: "x \<notin> set xs" using x timer_status(2,3) [OF g x(1)] by auto
  have "minv (cf\<lparr>cf_state := v, cf_timers := ?al - {x}, cf_aborted := cf_aborted cf - {x}\<rparr>)"
    if v: "kern v L r rs ws" "v = ?s\<lparr>tmrs := (tmrs ?s)(Obj x := T), tasks := (tasks ?s)(Obj r := T')\<rparr>" for v T T'
  proof -
    have "timers_ok v L r ?ts xs"
      by (rule timers_ok_other [OF f(4)]) (use nx aliveI [OF v(1)] f(2) in \<open>auto simp: v(2)\<close>)
    then obtain rs' ws' where "core cf v L r rs' ws' xs" using core_keep [OF g, of v L xs] by (auto simp: v(2))
    moreover have "timing (cf\<lparr>cf_timers := ?al - {x}, cf_aborted := cf_aborted cf - {x}\<rparr>) v xs"
      using ginvD(2) [OF g] nx by (auto simp: timing_def v(2))
    moreover have "queues_ok (cf\<lparr>cf_timers := ?al - {x}, cf_aborted := cf_aborted cf - {x}\<rparr>) v L"
      using ginvD(3) [OF g] by (auto simp: queues_ok_def sem_inv_def port_inv_def v(2))
    moreover have "waits_ok cf v r" by (rule waits_keep [OF ginvD(4) [OF g]]) (use u(3) in \<open>auto simp: v(2)\<close>)
    ultimately show ?thesis
      by (intro minvI [of _ L r rs' ws' xs]) (simp add: ginv_def conf_swap)
  qed
  then show ?thesis
    by (simp add: run_simps, intro runs_to_weaken [OF timer_free_ok [OF f(1) u(1,2) m refl]]) blast
qed

text \<open>\<open>timer_add\<close> after the operation and the time of a timer have been set, to the value \<open>T\<close>.\<close>

lemma timer_add_minv:
  assumes g: "ginv cf (cf_state cf) L r rs ws xs" and e: "enabled (StartTimer x d) cf"
    and T: "tm_op T \<in> {TIMER_DELAY, TIMER_ALARM}" "tm_status T = tm_status (tmrs (cf_state cf) (Obj x))" "tm_task T = tm_task (tmrs (cf_state cf) (Obj x))"
  shows "runs_to (timer_add (Obj x)) ((cf_state cf)\<lparr>tmrs := (tmrs (cf_state cf))(Obj x := T)\<rparr>) (\<lambda>_ v. minv (cf\<lparr>cf_state := v\<rparr>))"
proof -
  note f = ginv_facts [OF g]
  let ?s = "cf_state cf" and ?ts = "cf_tasks cf" and ?al = "cf_timers cf"
  have i: "in_user cf" and x: "x \<in> ?al" "tm_status (tmrs ?s (Obj x)) \<noteq> TIMER_ADDED" "tm_task (tmrs ?s (Obj x)) = Obj r"
    using e f(11) by auto
  have xt: "x \<notin> ?ts" and nx: "x \<notin> set xs" "x \<notin> cf_aborted cf" using x timer_status(2) [OF g x(1)] f(5) by auto
  let ?s1 = "?s\<lparr>tmrs := (tmrs ?s)(Obj x := T)\<rparr>"
  have k1: "kern ?s1 L r rs ws" using f(1) by simp
  have t1: "timers_ok ?s1 L r ?ts xs"
    by (rule timers_ok_other [OF f(4)]) (use nx aliveI [OF k1] f(2) in auto)
  have n1: "nest_room 1 ?s1" using f(10) by (simp add: nest_room_def)
  have ad: "timer_addable ?s1 ?ts x"
    using x T timer_status(1) [OF g x(1)] f(2) by (cases "tm_status (tmrs ?s (Obj x))") (auto simp: timer_addable_def)
  have ul: "unlinked L x" by (rule fresh_unlinked [OF g xt nx(1) queued_apart [OF g x(1)]])
  have keep: "minv (cf\<lparr>cf_state := v\<rparr>)"
    if v: "timers_ok v L' r ?ts q" "dom L' = dom L" "\<forall>l. l \<noteq> timers \<longrightarrow> L' l = L l" "set q = set xs \<or> set q = insert x (set xs)"
      "v = (with_timer ?s1 x st)\<lparr>nodes := h\<rparr>" "st \<in> {TIMER_ADDED, TIMER_ABORTED}" "st = TIMER_ADDED \<longleftrightarrow> x \<in> set q"
      "same_data (nodes ?s) h" for v L' q st h
  proof -
    obtain rs' ws' where "core cf v L' r rs' ws' q"
      using core_keep [OF g v(1,2)] v(5,8) by (auto simp: with_timer_def same_data_def)
    moreover have "timing cf v q"
      using v(4-7) x(1) nx ginvD(2) [OF g] by (auto simp: timing_def with_timer_def)
    moreover have "queues_ok cf v L'"
      by (rule queues_keep [OF ginvD(3) [OF g]]) (use v(3) client_apart [OF g] in \<open>simp_all add: v(5) with_timer_def\<close>)
    moreover have "waits_ok cf v r" by (rule waits_keep [OF ginvD(4) [OF g]]) (simp_all add: v(5) with_timer_def)
    ultimately show ?thesis by (intro minvI [of _ L' r rs' ws' q]) (simp add: ginv_def)
  qed
  show "runs_to (timer_add (Obj x)) ?s1 (\<lambda>_ v. minv (cf\<lparr>cf_state := v\<rparr>))"
  proof (cases "added_tick ?s1 x \<le> timer_now ?s1")
    case True
    have "timers_ok (with_timer ?s1 x TIMER_ABORTED) L r ?ts xs"
      using timers_ok_with_timer [OF t1 nx(1)] f(13) by (simp add: timers_ok_def)
    then have "minv (cf\<lparr>cf_state := with_timer ?s1 x TIMER_ABORTED\<rparr>)"
      by (rule keep [where L' = L and q = xs and st = TIMER_ABORTED and h = "nodes ?s"]) (use nx in \<open>simp_all add: with_timer_def same_data_def\<close>)
    then show ?thesis by (intro runs_to_weaken [OF timer_add_elapsed [OF ad True]]) simp
  next
    case False
    then have lt: "timer_now ?s1 < added_tick ?s1 x" by simp
    show ?thesis
      by (rule runs_to_weaken [OF timer_add_queues [OF t1 ul xt n1 ad lt]], elim exE conjE, rule keep, assumption) (use f(3,13) in auto)
  qed
qed

lemma step_StartTimer:
  assumes g: "ginv cf (cf_state cf) L r rs ws xs" and e: "enabled (StartTimer x d) cf"
  shows "runs_to (exec im (StartTimer x d)) cf (\<lambda>_ cf'. minv cf')"
  using timer_add_minv [OF g e, of "(tmrs (cf_state cf) (Obj x))\<lparr>tm_op := TIMER_DELAY, tm_delay := d\<rparr>"] by (simp add: run_simps)

lemma step_StartAlarm:
  assumes g: "ginv cf (cf_state cf) L r rs ws xs" and e: "enabled (StartAlarm x t) cf"
  shows "runs_to (exec im (StartAlarm x t)) cf (\<lambda>_ cf'. minv cf')"
proof -
  have "enabled (StartTimer x t) cf" using e by simp
  from timer_add_minv [OF g this, of "(tmrs (cf_state cf) (Obj x))\<lparr>tm_op := TIMER_ALARM, tm_tick := t\<rparr>"]
  show ?thesis by (simp add: run_simps)
qed

lemma step_AbortTimer:
  assumes g: "ginv cf (cf_state cf) L r rs ws xs" and e: "enabled (AbortTimer x) cf"
  shows "runs_to (exec im (AbortTimer x)) cf (\<lambda>_ cf'. minv cf')"
proof -
  note f = ginv_facts [OF g]
  let ?s = "cf_state cf"
  have x: "x \<in> cf_timers cf" "x \<notin> cf_aborted cf" using e by auto
  show ?thesis
  proof (cases "x \<in> set xs")
    case False
    then have st: "tm_status (tmrs ?s (Obj x)) \<noteq> TIMER_ADDED" using timer_status(2) [OF g x(1)] x(2) by simp
    have "minv (cf\<lparr>cf_state := ?s, cf_aborted := cf_aborted cf\<rparr>)"
      using g by (intro minvI [of _ L r rs ws xs]) (simp add: conf_swap)
    then show ?thesis using st
      by (simp add: run_simps) (intro runs_to_weaken [OF timer_abort_idle [OF f(12,10) st]], simp)
  next
    case True
    let ?xs = "remove1 x xs" and ?ab = "insert x (cf_aborted cf)"
    have st: "tm_status (tmrs ?s (Obj x)) = TIMER_ADDED" using timer_status(2) [OF g x(1)] True by simp
    have d: "distinct xs" using lists_ok_distinct [OF kern_lists(1) [OF f(1)] f(13)] .
    have "minv (cf\<lparr>cf_state := v, cf_aborted := ?ab\<rparr>)"
      if v: "timers_ok v (L(timers \<mapsto> ?xs)) r (cf_tasks cf) ?xs" "v = ?s\<lparr>nodes := nodes v\<rparr>" "same_data (nodes ?s) (nodes v)" for v
    proof -
      have o: "tmrs v = tmrs ?s" "tasks v = tasks ?s" "sems v = sems ?s" "reqs v = reqs ?s" "ports v = ports ?s" "id_nestcnt v = id_nestcnt ?s"
        by (subst v(2), simp)+
      have "nd_name (nodes v p) = nd_name (nodes ?s p)" for p using v(3) by (simp add: same_data_def)
      then obtain rs' ws' where "core cf v (L(timers \<mapsto> ?xs)) r rs' ws' ?xs"
        using core_keep [OF g v(1) _ _ o(6)] f(13) by auto
      moreover have "timing (cf\<lparr>cf_aborted := ?ab\<rparr>) v ?xs"
        using ginvD(2) [OF g] x(1) d True by (auto simp: timing_def o(1))
      moreover have "queues_ok cf v (L(timers \<mapsto> ?xs))"
        by (rule queues_keep [OF ginvD(3) [OF g] o(3-5)]) (use client_apart [OF g] in simp)
      moreover have "waits_ok cf v r" by (rule waits_keep [OF ginvD(4) [OF g]]) (simp_all add: o)
      ultimately show ?thesis by (intro minvI [of _ "L(timers \<mapsto> ?xs)" r rs' ws' ?xs]) (simp add: ginv_def conf_swap)
    qed
    then show ?thesis
      by (simp add: run_simps st) (intro runs_to_weaken [OF timer_abort_queued [OF f(4) True f(10)]], blast)
  qed
qed

lemma step_TIM2:
  assumes g: "ginv cf (cf_state cf) L r rs ws xs" and e: "enabled TIM2 cf"
  shows "runs_to (exec im TIM2) cf (\<lambda>_ cf'. minv cf')"
proof -
  note f = ginv_facts [OF g]
  let ?s = "cf_state cf" and ?ts = "cf_tasks cf"
  let ?s1 = "?s\<lparr>timer_now := timer_now ?s + 1\<rparr>"
  let ?D = "filter (\<lambda>x. tm_tick (tmrs ?s1 (Obj x)) \<le> timer_now ?s1) xs" and ?R = "filter (\<lambda>x. timer_now ?s1 < tm_tick (tmrs ?s1 (Obj x))) xs"
  have t1: "timers_ok ?s1 L r ?ts xs" by (rule timers_ok_cong [OF f(4)]) (use f(12) in \<open>simp_all add: irq_ok_def\<close>)
  have n1: "nest_room 2 ?s1" using f(9) by (simp add: nest_room_def)
  have "minv (cf\<lparr>cf_state := u\<rparr>)" if u: "fire_post ?s1 L r ?ts ?D ?R u" for u
  proof -
    obtain L' where L': "timers_ok u L' r ?ts ?R" "timer_frame ?s1 L u L'" "tmrs u = fired ?s1 ?D"
      "recorded ?s1 u (sent_to (timer_mail ?s1 ?D))" using u by (auto simp: fire_post_def)
    have fr: "\<And>l. l \<noteq> ready \<Longrightarrow> l \<noteq> waiting \<Longrightarrow> l \<noteq> timers \<Longrightarrow> L' l = L l" "sems u = sems ?s" "reqs u = reqs ?s" "ports u = ports ?s"
      "\<And>p. nd_name (nodes u p) = nd_name (nodes ?s p)" "id_nestcnt u = id_nestcnt ?s"
      using L'(2) by (simp_all add: timer_frame_def same_data_def)
    note al = timers_ok_facts(1) [OF L'(1)] timers_ok_facts(1) [OF t1]
    have "dom L' = dom L"
      using dom_keep [of ?s1 L r ?ts u L' r ?ts timers] al fr(1) timers_ok_facts(2) [OF L'(1)] f(13) by (auto simp: domIff)
    then obtain rs' ws' where "core cf u L' r rs' ws' ?R" using core_keep [OF g L'(1) _ fr(5,6)] by blast
    moreover have "timing cf u ?R"
      using ginvD(2) [OF g] by (auto simp: timing_def L'(3) fired_def not_le)
    moreover have "queues_ok cf u L'" by (rule queues_keep [OF ginvD(3) [OF g] fr(2-4)]) (use client_apart [OF g] in \<open>simp add: fr(1)\<close>)
    moreover have "waits_ok cf u r" by (rule waits_keep [OF ginvD(4) [OF g] _ fr(6)]) (use L'(4) in \<open>simp add: recorded_def\<close>)
    ultimately show ?thesis by (intro minvI [of _ L' r rs' ws' ?R]) (simp add: ginv_def)
  qed
  then show ?thesis
    using runs_to_weaken [OF timer_poll_ok [OF t1 n1]] by (simp add: run_simps TIM2_IRQHandler_def)
qed

end
