(* ===== verification/StepsIpc.thy ===== *)
theory StepsIpc
  imports StepsTask
begin

unbundle bit_operations_syntax

text \<open>
  The steps that create a task, and those of semaphores and message ports, keep the machine's invariant.
\<close>

section \<open>A new task\<close>

lemma waits_tasks: "waits_ok cf s r \<Longrightarrow> waits_ok (cf\<lparr>cf_tasks := insert a (cf_tasks cf)\<rparr>) s r"
  unfolding waits_ok_def by simp

lemma waiter_task: "waits_ok cf s r \<Longrightarrow> cf_wait cf t \<noteq> None \<Longrightarrow> t \<in> cf_tasks cf"
  unfolding waits_ok_def by auto

lemma step_Create:
  assumes g: "ginv cf (cf_state cf) L r rs ws xs" and e: "enabled (Create a nm v pc ud stk sz) cf"
  shows "runs_to (exec im (Create a nm v pc ud stk sz)) cf (\<lambda>_ cf'. minv cf')"
proof -
  note f = ginv_facts [OF g]
  let ?s = "cf_state cf" and ?ts = "cf_tasks cf" and ?al = "cf_timers cf" and ?cf = "cf\<lparr>cf_tasks := insert a (cf_tasks cf)\<rparr>"
  obtain b where b: "null_name ?s = Some b" "strcmp_chars nm b \<noteq> 0" using e by (auto split: option.splits)
  have i: "in_user cf" and a: "a \<notin> ?ts" "a \<notin> ?al" "a \<notin> queued cf" and nm: "c_string nm" "\<forall>t \<in> ?ts. nd_name (nodes ?s (Obj t)) \<noteq> Some nm"
    and st: "stk mod 4 = 0" "sz mod 4 = 0" "64 \<le> sz" "unat stk + unat sz < 2 ^ 32"
    using e by (auto simp: fresh_def)
  have ul: "unlinked L a" by (rule fresh_unlinked [OF g a(1) _ a(3)]) (use a(2) f(6) in auto)
  have ar: "a \<noteq> r" using a(1) f(2) by auto
  have names: "names_ok (nodes ?s) (rs @ ws)" "find_spec (nodes ?s) nm (rs @ ws) = NULL"
    using core_names [OF g] f(2) nm(2) by (auto simp: names_ok_def find_spec_NULL)
  have "runs_to (seqM (task_init im (Obj a) (Some nm) v pc ud stk sz) (task_schedule (Obj a))) ?s
      (\<lambda>_ t. minv (?cf\<lparr>cf_state := t\<rparr>))"
    unfolding runs_to_seqM
  proof (rule runs_to_weaken [OF task_init_kern [OF f(1,10) ul ar names(1) nm(1) names(2) b st]], elim conjE)
    fix y t
    assume t: "kern t L r rs ws" "id_nestcnt t = id_nestcnt ?s" "nodes t = (nodes ?s)(Obj a := (nodes ?s (Obj a))\<lparr>nd_name := Some nm, nd_prio := v\<rparr>)"
      "tasks t = (tasks ?s)(Obj a := tasks t (Obj a))" "task_ok (tasks t (Obj a))" "tk_state (tasks t (Obj a)) = TASK_INITIALIZED"
      "tmrs t = tmrs ?s" "sems t = sems ?s" "reqs t = reqs ?s" "ports t = ports ?s"
    have other: "tasks t (Obj z) = tasks ?s (Obj z)" if "z \<noteq> a" for z
      using arg_cong [OF t(4), of "\<lambda>g. g (Obj z)"] that by simp
    have room: "nest_room 1 t" using f(10) t(2) by (simp add: nest_room_def)
    have "minv (?cf\<lparr>cf_state := u\<rparr>)" if u: "schedule_post t L r rs ws a u" for u
    proof -
      let ?rs = "enqueue_spec (prio_of (nodes t)) a rs"
      have k: "kern u (L(ready \<mapsto> ?rs)) r ?rs ws" and o: "same_objs t u" "tmrs u = tmrs ?s" "sems u = sems ?s" "reqs u = reqs ?s" "ports u = ports ?s"
        and tk: "tasks u = (tasks t)(Obj a := (tasks t (Obj a))\<lparr>tk_state := TASK_READY\<rparr>)"
        using u t(7-10) by (simp_all add: schedule_post_def same_defs)
      have ts: "insert a ?ts = insert r (set ?rs \<union> set ws)" using f(2) by auto
      have al: "alive u (L(ready \<mapsto> ?rs)) r (insert a ?ts)" unfolding ts by (rule aliveI [OF k])
      have tm: "timers_ok u (L(ready \<mapsto> ?rs)) r (insert a ?ts) xs"
        using al f(4) unfolding timers_ok_def by (auto simp: timer_ok_def o(2))
      have nn: "nd_name (nodes u p) = nd_name (nodes t p)" "id_nestcnt u = id_nestcnt ?s" for p
        using o(1) t(2) by (simp_all add: same_defs same_data_def)
      have "\<forall>y \<in> insert a ?ts. \<exists>nm. nd_name (nodes u (Obj y)) = Some nm \<and> c_string nm"
        using core_names [OF g] nm(1) by (simp add: nn(1) t(3))
      then have "core ?cf u (L(ready \<mapsto> ?rs)) r ?rs ws xs"
        unfolding core_def using k ts tm f(3,7) nn(2) by auto
      moreover have "timing ?cf u xs" using ginvD(2) [OF g] a(2) by (simp add: timing_def o(2))
      moreover have "queues_ok ?cf u (L(ready \<mapsto> ?rs))"
        by (rule queues_keep [OF queues_tasks [OF ginvD(3) [OF g]] o(3-5)]) (use client_apart [OF g] in simp)
      moreover have "waits_ok ?cf u r"
        by (rule waits_tasks [OF waits_keep [OF ginvD(4) [OF g] _ nn(2)]])
          (use a(1) waiter_task [OF ginvD(4) [OF g]] in \<open>auto simp: tk other\<close>)
      ultimately show ?thesis by (intro minvI [of _ "L(ready \<mapsto> ?rs)" r ?rs ws xs]) (simp add: ginv_def)
    qed
    then show "runs_to (task_schedule (Obj a)) t (\<lambda>_ t. minv (?cf\<lparr>cf_state := t\<rparr>))"
      by (intro runs_to_weaken [OF task_schedule_kern [OF t(1) ul ar t(5,6) room]])
  qed
  then show ?thesis by (simp add: runs_to_on_state runs_to_modify runs_to_seqM conf_swap)
qed

section \<open>A step on the queue of one client\<close>

lemma client_step:
  fixes S P q
  defines "cf' \<equiv> \<lambda>cf l. cf\<lparr>cf_sems := S, cf_ports := P, cf_queues := (cf_queues cf)(l := q)\<rparr>"
  assumes g: "ginv cf s L r rs ws xs" and al: "alive u L' r (cf_tasks cf)"
    and S: "S \<union> P = insert l (clients cf)" "S \<inter> P = {}" "l \<noteq> ready" "l \<noteq> waiting" "l \<noteq> timers"
    and L: "L' l = Some q" "\<And>m. m \<noteq> ready \<Longrightarrow> m \<noteq> waiting \<Longrightarrow> m \<noteq> l \<Longrightarrow> L' m = L m"
    and u: "tmrs u = tmrs s" "\<And>p. nd_name (nodes u p) = nd_name (nodes s p)" "id_nestcnt u = id_nestcnt s"
      "\<And>t. cf_wait cf t \<noteq> None \<Longrightarrow> tk_sig_wait (tasks u (Obj t)) = tk_sig_wait (tasks s (Obj t))"
    and q: "set q \<inter> cf_timers cf = {}" and sm: "\<And>m. m \<in> S \<Longrightarrow> sem_inv u (cf_tasks cf) m (if m = l then q else cf_queues cf m)"
    and pt: "\<And>m. m \<in> P \<Longrightarrow> port_inv u (cf_tasks cf) m"
  shows "minv ((cf' cf l)\<lparr>cf_state := u\<rparr>)"
proof -
  note f = ginv_facts [OF g]
  have c: "clients (cf' cf l) = insert l (clients cf)" using S(1) by (simp add: clients_def cf'_def)
  have tm: "timers_ok u L' r (cf_tasks cf) xs" by (rule timers_ok_keep [OF f(4) al L(2) u(1)]) (use S(5) static_lists_distinct in auto)
  obtain rs' ws' where k: "kern u L' r rs' ws'" "cf_tasks cf = insert r (set rs' \<union> set ws')" using al by (auto simp: alive_def)
  have "dom L' = insert l (dom L)" by (rule dom_keep [OF timers_ok_facts(1) [OF f(4)] al _ L(2)]) (simp add: L(1))
  then have "dom L' = {ready, waiting, timers} \<union> clients (cf' cf l)" using f(3) c by simp
  then have "core (cf' cf l) u L' r rs' ws' xs"
    unfolding core_def using k tm u(2,3) f(7) core_names [OF g] by (simp add: cf'_def)
  moreover have "timing (cf' cf l) u xs" using ginvD(2) [OF g] u(1) by (simp add: timing_def cf'_def)
  moreover have "queues_ok (cf' cf l) u L'"
    unfolding queues_ok_def
  proof (intro conjI ballI)
    have "queued (cf' cf l) \<subseteq> set q \<union> queued cf" using c by (auto simp: queued_def cf'_def split: if_splits)
    then show "queued (cf' cf l) \<inter> cf_timers (cf' cf l) = {}" using q queued_apart [OF g] by (auto simp: cf'_def)
    show "L' m = Some (cf_queues (cf' cf l) m)" if "m \<in> clients (cf' cf l)" for m
      using that c L f(15) [of m] client_apart [OF g, of m] by (auto simp: cf'_def)
  qed (use S f(14) c sm pt in \<open>auto simp: cf'_def\<close>)
  moreover have "waits_ok (cf' cf l) u r" using waits_keep [OF ginvD(4) [OF g] u(4,3)] by (simp add: waits_ok_def cf'_def)
  ultimately show ?thesis by (intro minvI [of _ L' r rs' ws' xs]) (simp add: ginv_def)
qed

lemma sem_inv_cong:
  assumes "sem_inv s ts m q" "sems u m = sems s m" "\<And>y. y \<in> set q \<Longrightarrow> reqs u (Obj y) = reqs s (Obj y)"
  shows "sem_inv u ts m q"
  using assms by (simp add: sem_inv_def)

lemma port_inv_cong: "port_inv s ts m \<Longrightarrow> ports u = ports s \<Longrightarrow> port_inv u ts m"
  by (simp add: port_inv_def)

lemma client_invs:
  assumes "ginv cf s L r rs ws xs"
  shows "m \<in> cf_sems cf \<Longrightarrow> sem_inv s (cf_tasks cf) m (cf_queues cf m)" "m \<in> cf_ports cf \<Longrightarrow> port_inv s (cf_tasks cf) m"
    "cf_sems cf \<inter> cf_ports cf = {}"
  using ginvD(3) [OF assms] by (auto simp: queues_ok_def)

lemma client_keep:
  assumes g: "ginv cf s L r rs ws xs" and al: "alive u L' r (cf_tasks cf)" and l: "l \<in> clients cf"
    and L: "L' l = Some q" "\<And>m. m \<noteq> ready \<Longrightarrow> m \<noteq> waiting \<Longrightarrow> m \<noteq> l \<Longrightarrow> L' m = L m"
    and u: "tmrs u = tmrs s" "\<And>p. nd_name (nodes u p) = nd_name (nodes s p)" "id_nestcnt u = id_nestcnt s"
      "\<And>t. cf_wait cf t \<noteq> None \<Longrightarrow> tk_sig_wait (tasks u (Obj t)) = tk_sig_wait (tasks s (Obj t))"
    and q: "set q \<inter> cf_timers cf = {}"
    and sm: "\<And>m. m \<in> cf_sems cf \<Longrightarrow> sem_inv u (cf_tasks cf) m (if m = l then q else cf_queues cf m)"
    and pt: "ports u = ports s"
  shows "minv (cf\<lparr>cf_state := u, cf_queues := (cf_queues cf)(l := q)\<rparr>)"
proof -
  have e: "cf\<lparr>cf_sems := cf_sems cf, cf_ports := cf_ports cf\<rparr> = cf" by simp
  have c: "cf_sems cf \<union> cf_ports cf = insert l (clients cf)" using l by (auto simp: clients_def)
  show ?thesis
    using client_step [OF g al c client_invs(3) [OF g] client_apart [OF g l] L u q sm port_inv_cong [OF client_invs(2) [OF g] pt]]
    by (simp add: e conf_swap)
qed

lemma queue_no_timers: "ginv cf s L r rs ws xs \<Longrightarrow> l \<in> clients cf \<Longrightarrow> set (cf_queues cf l) \<inter> cf_timers cf = {}"
  unfolding ginv_def queues_ok_def queued_def by blast

section \<open>Semaphores\<close>

lemma step_InitSem:
  assumes g: "ginv cf (cf_state cf) L r rs ws xs" and e: "enabled (InitSem l c) cf"
  shows "runs_to (exec im (InitSem l c)) cf (\<lambda>_ cf'. minv cf')"
proof -
  note f = ginv_facts [OF g]
  let ?s = "cf_state cf"
  have c: "0 \<le> c" "c \<le> INT32_MAX" and l: "l \<noteq> ready" "l \<noteq> waiting" "l \<noteq> timers" "l \<notin> clients cf" using e by (auto simp: fresh_list_def)
  have S: "insert l (cf_sems cf) \<union> cf_ports cf = insert l (clients cf)" "insert l (cf_sems cf) \<inter> cf_ports cf = {}"
    using client_invs(3) [OF g] l(4) by (auto simp: clients_def)
  have "minv (cf\<lparr>cf_sems := insert l (cf_sems cf), cf_ports := cf_ports cf, cf_queues := (cf_queues cf)(l := [])\<rparr>\<lparr>cf_state := u\<rparr>)"
    if u: "sem_ok u (L(l \<mapsto> [])) r (cf_tasks cf) l (c, [])" "sem_frame ?s L l u (L(l \<mapsto> []))" "tasks u = tasks ?s" for u
  proof (rule client_step [where L' = "L(l \<mapsto> [])", OF g _ S l(1-3)])
    show "alive u (L(l \<mapsto> [])) r (cf_tasks cf)" using u(1) by (simp add: sem_ok_def)
    have fr: "reqs u = reqs ?s" "ports u = ports ?s" "\<And>m. m \<noteq> l \<Longrightarrow> sems u m = sems ?s m" using u(2) by (simp_all add: sem_frame_def)
    show "sem_inv u (cf_tasks cf) m (if m = l then [] else cf_queues cf m)" if m: "m \<in> insert l (cf_sems cf)" for m
    proof (cases "m = l")
      case True
      then show ?thesis using u(1) c by (simp add: sem_inv_def sem_ok_def int32_bounds)
    next
      case False
      then show ?thesis using m sem_inv_cong [OF client_invs(1) [OF g, of m] fr(3)] fr(1) by simp
    qed
    show "port_inv u (cf_tasks cf) m" if "m \<in> cf_ports cf" for m by (rule port_inv_cong [OF client_invs(2) [OF g that] fr(2)])
  qed (use u(2,3) in \<open>simp_all add: sem_frame_def same_data_def\<close>)
  then show ?thesis
    by (simp add: run_simps conf_swap)
      (rule runs_to_weaken [OF sem_init_ok [OF timers_ok_facts(1) [OF f(4)] l(1,2) c(1)]], simp)
qed

lemma step_Request:
  assumes g: "ginv cf (cf_state cf) L r rs ws xs" and e: "enabled (Request l x sg) cf"
  shows "runs_to (exec im (Request l x sg)) cf (\<lambda>_ cf'. minv cf')"
proof -
  note f = ginv_facts [OF g]
  let ?s = "cf_state cf" and ?a = "(sm_count (sems (cf_state cf) l), cf_queues cf l)"
  let ?s1 = "?s\<lparr>reqs := (reqs ?s)(Obj x := (reqs ?s (Obj x))\<lparr>rq_signal := sg, rq_waiter := Obj r\<rparr>)\<rparr>"
  have l: "l \<in> cf_sems cf" "l \<in> clients cf" and x: "x \<notin> cf_tasks cf" "x \<notin> cf_timers cf" "x \<notin> queued cf" and sg: "sg \<noteq> 0"
    and c1: "INT32_MIN \<le> fst ?a - 1" using e by (auto simp: fresh_def clients_def)
  then have c: "INT32_MIN \<le> fst ?a - 1" "fst ?a - 1 \<le> INT32_MAX" using client_invs(1) [OF g l(1)] by (simp_all add: sem_inv_def)
  have xr: "x \<noteq> r" and xl: "unlinked L x" using x f(2,6) by (auto intro!: fresh_unlinked [OF g])
  have k1: "kern ?s1 L r rs ws" by (rule kern_cong [OF f(1)]) (use f(12) in \<open>simp_all add: irq_ok_def\<close>)
  have n1: "nest_room 1 ?s1" using f(10) by (simp add: nest_room_def)
  have q1: "L l = Some (snd ?a)" using f(15) [OF l(2)] by simp
  let ?q = "snd (sem_add x ?a)"
  have "minv (cf\<lparr>cf_state := u, cf_queues := (cf_queues cf)(l := ?q)\<rparr>)"
    if u: "kern u (L(l \<mapsto> ?q)) r rs ws" "sm_count (sems u l) = fst (sem_add x ?a)" "sem_frame ?s1 L l u (L(l \<mapsto> ?q))" "tasks u = tasks ?s1" for u
  proof (rule client_keep [where L' = "L(l \<mapsto> ?q)", OF g _ l(2)])
    show "alive u (L(l \<mapsto> ?q)) r (cf_tasks cf)" using aliveI [OF u(1)] f(2) by simp
    show "set ?q \<inter> cf_timers cf = {}" using queue_no_timers [OF g l(2)] x(2) by (auto simp: sem_add_def)
    have fr: "reqs u = reqs ?s1" "\<And>m. m \<noteq> l \<Longrightarrow> sems u m = sems ?s m" using u(3) by (simp_all add: sem_frame_def)
    have old: "reqs u (Obj y) = reqs ?s (Obj y)" if "m \<in> clients cf" "y \<in> set (cf_queues cf m)" for m y
      using that x(3) fr(1) by (auto simp: queued_def)
    show "sem_inv u (cf_tasks cf) m (if m = l then ?q else cf_queues cf m)" if m: "m \<in> cf_sems cf" for m
    proof (cases "m = l")
      case True
      note i = client_invs(1) [OF g l(1)]
      have "\<exists>w \<in> cf_tasks cf. rq_waiter (reqs u (Obj y)) = Obj w \<and> rq_signal (reqs u (Obj y)) \<noteq> 0" if "y \<in> set ?q" for y
        using that i old [OF l(2), of y] f(2) sg fr(1) by (cases "y = x") (auto simp: sem_inv_def sem_add_def split: if_splits)
      moreover have "sem_covered (sem_add x ?a)" using i by (intro sem_add_covered) (simp add: sem_inv_def)
      ultimately show ?thesis using True u(2) c by (simp add: sem_inv_def) (simp add: sem_add_def)
    next
      case False
      then show ?thesis using m sem_inv_cong [OF client_invs(1) [OF g m] fr(2)] old [of m] by (auto simp: clients_def)
    qed
  qed (use u(3,4) in \<open>simp_all add: sem_frame_def same_data_def\<close>)
  then show ?thesis
    by (simp add: run_simps f(11))
      (rule runs_to_weaken [OF sem_add_request_raw [OF k1 client_apart(1,2) [OF g l(2)] q1 _ n1 xl xr c]], simp_all)
qed

lemma step_Release:
  assumes g: "ginv cf (cf_state cf) L r rs ws xs" and e: "enabled (Release l) cf"
  shows "runs_to (exec im (Release l)) cf (\<lambda>_ cf'. minv cf')"
proof -
  note f = ginv_facts [OF g]
  let ?s = "cf_state cf" and ?a = "(sm_count (sems (cf_state cf) l), cf_queues cf l)"
  have l: "l \<in> cf_sems cf" "l \<in> clients cf" and c: "fst ?a + 1 \<le> INT32_MAX"
    and nr: "\<forall>x \<in> set (cf_queues cf l). rq_waiter (reqs ?s (Obj x)) \<noteq> Obj r"
    using e f(11) by (auto simp: clients_def)
  note i = client_invs(1) [OF g l(1)]
  have mn: "INT32_MIN \<le> fst ?a" using i by (simp add: sem_inv_def)
  have ok: "sem_ok ?s L r (cf_tasks cf) l ?a"
    using i nr f(15) [OF l(2)] client_apart [OF g l(2)] timers_ok_facts(1) [OF f(4)] by (fastforce simp: sem_ok_def sem_inv_def req_ok_def)
  let ?q = "snd (sem_sig ?a)"
  have "minv (cf\<lparr>cf_state := u, cf_queues := (cf_queues cf)(l := ?q)\<rparr>)"
    if u: "sem_ok u L' r (cf_tasks cf) l (sem_sig ?a)" "sem_frame ?s L l u L'" "recorded ?s u mail" for u L' mail
  proof (rule client_keep [where L' = L', OF g _ l(2)])
    have sub: "set ?q \<subseteq> set (cf_queues cf l)" by (cases "cf_queues cf l") (auto simp: sem_sig_def)
    show "alive u L' r (cf_tasks cf)" "L' l = Some ?q" using u(1) by (simp_all add: sem_ok_def)
    show "set ?q \<inter> cf_timers cf = {}" using queue_no_timers [OF g l(2)] sub by blast
    have fr: "reqs u = reqs ?s" "\<And>m. m \<noteq> l \<Longrightarrow> sems u m = sems ?s m" using u(2) by (simp_all add: sem_frame_def)
    show "sem_inv u (cf_tasks cf) m (if m = l then ?q else cf_queues cf m)" if m: "m \<in> cf_sems cf" for m
    proof (cases "m = l")
      case True
      have "sem_covered (sem_sig ?a)" "sm_count (sems u l) = fst ?a + 1" using u(1) by (simp_all add: sem_ok_def sem_sig_def)
      then show ?thesis using True i sub fr(1) mn c by (auto simp: sem_inv_def sem_sig_def)
    next
      case False
      then show ?thesis using sem_inv_cong [OF client_invs(1) [OF g m] fr(2)] fr(1) by simp
    qed
  qed (use u(2,3) in \<open>simp_all add: sem_frame_def same_data_def recorded_def\<close>)
  then show ?thesis
    by (simp add: run_simps) (rule runs_to_weaken [OF sem_signal_ok [OF ok f(9) mn c]], auto)
qed

section \<open>Message ports\<close>

lemma step_InitPort:
  assumes g: "ginv cf (cf_state cf) L r rs ws xs" and e: "enabled (InitPort l) cf"
  shows "runs_to (exec im (InitPort l)) cf (\<lambda>_ cf'. minv cf')"
proof -
  note f = ginv_facts [OF g]
  let ?s = "cf_state cf"
  have i: "in_user cf" and l: "l \<noteq> ready" "l \<noteq> waiting" "l \<noteq> timers" "l \<notin> clients cf"
    and "tk_sig_alloc (tasks ?s (Obj r)) \<noteq> - 1" using e f(11) by (auto simp: fresh_list_def)
  then have fr: "\<exists>k < 16. \<not> bit (tk_sig_alloc (tasks ?s (Obj r))) k"
    by (auto simp: bit_eq_iff [where 'a = "16 word"])
  note v = in_user_facts [OF g i]
  have S: "cf_sems cf \<union> insert l (cf_ports cf) = insert l (clients cf)" "cf_sems cf \<inter> insert l (cf_ports cf) = {}"
    using client_invs(3) [OF g] l(4) by (auto simp: clients_def)
  have "minv (cf\<lparr>cf_sems := cf_sems cf, cf_ports := insert l (cf_ports cf), cf_queues := (cf_queues cf)(l := [])\<rparr>\<lparr>cf_state := u\<rparr>)"
    if u: "kern u (L(l \<mapsto> [])) r rs ws" "ports u l = \<lparr>mp_task = Obj r, mp_signal = b, mp_action = MSGPORT_SIGNAL\<rparr>"
      "u = ?s\<lparr>tasks := (tasks ?s)(Obj r := T), ports := (ports ?s)(l := ports u l), nodes := nodes u\<rparr>" "same_data (nodes ?s) (nodes u)" for u T b
  proof (rule client_step [where L' = "L(l \<mapsto> [])", OF g _ S l(1-3)])
    show "alive u (L(l \<mapsto> [])) r (cf_tasks cf)" using aliveI [OF u(1)] f(2) by simp
    show "tmrs u = tmrs ?s" "id_nestcnt u = id_nestcnt ?s" by (subst u(3), simp)+
    have o: "sems u = sems ?s" "reqs u = reqs ?s" "tasks u = (tasks ?s)(Obj r := T)" by (subst u(3), simp)+
    have p: "ports u m = ports ?s m" if "m \<noteq> l" for m using that by (subst u(3)) simp
    show "tk_sig_wait (tasks u (Obj t)) = tk_sig_wait (tasks ?s (Obj t))" if "cf_wait cf t \<noteq> None" for t
      using that v(3) by (auto simp: o(3))
    show "sem_inv u (cf_tasks cf) m (if m = l then [] else cf_queues cf m)" if m: "m \<in> cf_sems cf" for m
      using client_invs(1) [OF g m] m S(2) by (auto simp: sem_inv_def o)
    show "port_inv u (cf_tasks cf) m" if m: "m \<in> insert l (cf_ports cf)" for m
    proof (cases "m = l")
      case True
      then show ?thesis using f(2) by (simp add: port_inv_def u(2))
    next
      case False
      then show ?thesis using m client_invs(2) [OF g, of m] p by (simp add: port_inv_def)
    qed
  qed (use u(4) in \<open>simp_all add: same_data_def\<close>)
  then show ?thesis
    by (simp add: run_simps conf_swap)
      (rule runs_to_weaken [OF msgport_init_ok [OF f(1) v(1,2) f(10) l(1,2) fr]], auto)
qed

lemma port_queue_step:
  assumes g: "ginv cf (cf_state cf) L r rs ws xs" and l: "l \<in> cf_ports cf" and u: "port_ok u L' r (cf_tasks cf) l q" "port_frame (cf_state cf) L l u L'"
    "\<And>t. tk_sig_wait (tasks u (Obj t)) = tk_sig_wait (tasks (cf_state cf) (Obj t))" and q: "set q \<inter> cf_timers cf = {}"
  shows "minv (cf\<lparr>cf_state := u, cf_queues := (cf_queues cf)(l := q)\<rparr>)"
proof (rule client_keep [where L' = L', OF g])
  show "l \<in> clients cf" using l by (simp add: clients_def)
  show "alive u L' r (cf_tasks cf)" "L' l = Some q" using u(1) by (simp_all add: port_ok_def)
  show "sem_inv u (cf_tasks cf) m (if m = l then q else cf_queues cf m)" if m: "m \<in> cf_sems cf" for m
    using client_invs(1) [OF g m] client_invs(3) [OF g] m l u(2) by (auto simp: sem_inv_def port_frame_def same_defs)
qed (use u(2,3) q in \<open>simp_all add: port_frame_def same_defs same_data_def\<close>)

lemma port_ok_of:
  assumes g: "ginv cf s L r rs ws xs" and l: "l \<in> cf_ports cf"
  shows "port_ok s L r (cf_tasks cf) l (cf_queues cf l)"
proof -
  have c: "l \<in> clients cf" using l by (simp add: clients_def)
  show ?thesis
    using client_invs(2) [OF g l] client_apart [OF g c] ginv_facts(15) [OF g c] timers_ok_facts(1) [OF ginv_facts(4) [OF g]]
    by (simp add: port_ok_def port_inv_def)
qed

lemma msgport_send_step:
  assumes g: "ginv cf (cf_state cf) L r rs ws xs" and l: "l \<in> cf_ports cf" and m: "fresh m cf"
  shows "runs_to (msgport_send l (Obj m)) (cf_state cf) (\<lambda>_ u. minv (cf\<lparr>cf_state := u, cf_queues := (cf_queues cf)(l := cf_queues cf l @ [m])\<rparr>))"
proof -
  have c: "l \<in> clients cf" using l by (simp add: clients_def)
  have x: "m \<notin> cf_tasks cf" "m \<notin> cf_timers cf" "unlinked L m"
    using m ginv_facts(6) [OF g] by (auto simp: fresh_def intro!: fresh_unlinked [OF g])
  have "set (cf_queues cf l @ [m]) \<inter> cf_timers cf = {}" using queue_no_timers [OF g c] x(2) by auto
  then show ?thesis
    by (intro runs_to_weaken [OF msgport_send_ok [OF port_ok_of [OF g l] x(3,1) ginv_facts(9) [OF g]]])
      (auto intro!: port_queue_step [OF g l] simp: recorded_def)
qed

lemma step_Post:
  assumes "ginv cf (cf_state cf) L r rs ws xs" and "enabled (Post l m) cf"
  shows "runs_to (exec im (Post l m)) cf (\<lambda>_ cf'. minv cf')"
  using msgport_send_step [OF assms(1), of l m] assms(2) by (simp add: run_simps)

lemma step_Reply:
  assumes "ginv cf (cf_state cf) L r rs ws xs" and "enabled (Reply m) cf"
  shows "runs_to (exec im (Reply m)) cf (\<lambda>_ cf'. minv cf')"
  using msgport_send_step [OF assms(1)] assms(2) by (auto simp: run_simps msgport_reply_def split: option.splits)

lemma step_Get:
  assumes g: "ginv cf (cf_state cf) L r rs ws xs" and e: "enabled (Get l) cf"
  shows "runs_to (exec im (Get l)) cf (\<lambda>_ cf'. minv cf')"
proof -
  have l: "l \<in> cf_ports cf" "l \<in> clients cf" using e by (simp_all add: clients_def)
  have "set (tl (cf_queues cf l)) \<inter> cf_timers cf = {}"
    using queue_no_timers [OF g l(2)] by (cases "cf_queues cf l") auto
  then have "runs_to (msgport_get l) (cf_state cf) (\<lambda>_ u. minv (cf\<lparr>cf_state := u, cf_queues := (cf_queues cf)(l := tl (cf_queues cf l))\<rparr>))"
    by (intro runs_to_weaken [OF msgport_get_ok [OF port_ok_of [OF g l(1)] ginv_facts(10) [OF g]]]) (auto intro!: port_queue_step [OF g l(1)])
  then show ?thesis by (simp add: run_simps)
qed

end
