(* ===== verification/Reach.thy ===== *)
theory Reach
  imports StepsTimer StepsIpc
begin

unbundle bit_operations_syntax

text \<open>
  Every step keeps the machine's invariant, so it holds in every configuration that start-up
  leads to; what that says of the scheduler, of faults and of the queues.
\<close>

section \<open>Every reachable configuration\<close>

lemmas step_all = step_Send step_Wait step_Resume step_Allocate step_Free step_SetPrio step_Create step_Disable step_Enable
  step_AllocTimer step_StartTimer step_StartAlarm step_AbortTimer step_FreeTimer step_InitSem step_Request step_Release
  step_InitPort step_Post step_Get step_Reply step_PendSV step_SysTick step_TIM2

lemma step_minv:
  assumes "minv cf" "enabled e cf"
  shows "runs_to (exec im e) cf (\<lambda>_ cf'. minv cf')"
proof -
  obtain L r rs ws xs where "ginv cf (cf_state cf) L r rs ws xs" using assms(1) by (auto simp: minv_def)
  with assms(2) show ?thesis by (cases e) (blast intro: step_all)+
qed

lemma booted_minv:
  assumes "booted u"
  shows "minv (boot_conf u)"
proof (rule minvI [of _ "boot_lists(timers \<mapsto> [])" init_addr "[]" "[]" "[]"])
  have "core (boot_conf u) u (boot_lists(timers \<mapsto> [])) init_addr [] [] []"
    using assms by (auto simp: core_def booted_def boot_conf_def boot_lists_def init_task_def MAX_NEST_def c_string_def clients_def)
  then show "ginv (boot_conf u) (cf_state (boot_conf u)) (boot_lists(timers \<mapsto> [])) init_addr [] [] []"
    by (simp add: ginv_def boot_conf_def timing_def queues_ok_def waits_ok_def clients_def queued_def)
qed

text \<open>The conditions on the memory at reset under which the machine starts.\<close>

definition bootable :: "image \<Rightarrow> kstate \<Rightarrow> bool" where
  "bootable im s = (reset_ok im s \<and> (case null_name s of None \<Rightarrow> False | Some b \<Rightarrow> strcmp_chars ''init'' b \<noteq> 0))"

lemma boots:
  assumes "bootable im s"
  shows "runs_to (bindM (platform_pre im) (\<lambda>_. init_task_f (ret ()))) s (\<lambda>_ u. booted u)"
proof -
  obtain b where b: "reset_ok im s" "null_name s = Some b" "strcmp_chars ''init'' b \<noteq> 0"
    using assms by (auto simp: bootable_def split: option.splits)
  show ?thesis
    unfolding platform_pre_def run_simps
    by (intro runs_to_weaken [OF martos_pre_ok [OF b]])
      (auto simp: init_task_not_NULL run_simps intro!: init_task_f_boots)
qed

lemma reach_minv:
  assumes "reach im s cf" "bootable im s"
  shows "minv cf"
  using assms
proof (induction rule: reach.induct)
  case (reach_boot u)
  then show ?case using boots [OF reach_boot(2)] by (auto simp: runs_to_def intro: booted_minv)
next
  case (reach_step cf e cf')
  then show ?case using step_minv [of cf e im] by (auto simp: runs_to_def)
qed

lemma bootable_reset: "bootable im0 reset_state"
  using reset_state_ok by (simp add: bootable_def)

lemma reach_reset: "\<exists>u. reach im0 reset_state (boot_conf u) \<and> booted u"
proof -
  obtain u where "bindM (platform_pre im0) (\<lambda>_. init_task_f (ret ())) reset_state = Inr ((), u)" "booted u"
    using boots [OF bootable_reset] by (auto elim!: runs_toE)
  then show ?thesis by (blast intro: reach_boot)
qed

text \<open>After the first switch the init task runs on, and can set up a semaphore.\<close>

lemma reach_idle: "\<exists>v. reach im0 reset_state (boot_conf v) \<and> in_user (boot_conf v)"
proof -
  obtain u where u: "reach im0 reset_state (boot_conf u)" "booted u" using reach_reset by blast
  then have k: "kern u (boot_lists(timers \<mapsto> [])) init_addr [] []" and p: "\<not> primask u" by (simp_all add: booted_def kern_def irq_ok_def)
  note r = kern_lists(4) [OF k]
  show ?thesis
  proof (cases "pendsv u")
    case False
    then have "in_user (boot_conf u)" using kern_tasks(4) [OF k] r by (simp add: in_user_def boot_conf_def)
    then show ?thesis using u(1) by blast
  next
    case True
    let ?c = "tk_context (tasks u (Obj init_addr))"
    have fit: "frame_fits (cx_frame ?c + 32 - 32) ?c" using kern_tasks(5) [OF k, of init_addr] by (simp add: task_ok_def frame_fits_def ctx_ok_def)
    obtain x v where v: "PendSV_Handler (cx_frame ?c + 32) u = Inr (x, v)" "switch_post u (boot_lists(timers \<mapsto> [])) init_addr [] [] (cx_frame ?c + 32 - 32) x v"
      using PendSV_kern [OF k p fit] by (auto elim!: runs_toE)
    then have q: "kern v (boot_lists(timers \<mapsto> [], ready \<mapsto> [])) init_addr [] []" "\<not> pendsv v"
      by (simp_all add: switch_post_def switch_queue_def Let_def enqueue_spec_def)
    have "exec im0 (PendSV (cx_frame ?c + 32)) (boot_conf u) = Inr ((), boot_conf v)"
      using v(1) by (simp add: on_state_def on_field_def bindM_def ret_def boot_conf_def)
    then have "reach im0 reset_state (boot_conf v)"
      by (rule reach_step [OF u(1), rotated]) (use True p fit r in \<open>simp add: boot_conf_def\<close>)
    moreover have "in_user (boot_conf v)" using q kern_tasks(4) [OF q(1)] kern_lists(4) [OF q(1)] by (simp add: in_user_def boot_conf_def)
    ultimately show ?thesis by blast
  qed
qed

lemma reach_semaphore: "\<exists>cf. reach im0 reset_state cf \<and> 100 \<in> cf_sems cf"
proof -
  obtain v where v: "reach im0 reset_state (boot_conf v)" "in_user (boot_conf v)" using reach_idle by blast
  obtain L r rs ws xs where g: "ginv (boot_conf v) v L r rs ws xs"
    using reach_minv [OF v(1) bootable_reset] by (auto simp: minv_def boot_conf_def)
  have e: "enabled (InitSem 100 1) (boot_conf v)" using v(2) by (simp add: INT32_MAX_def fresh_list_def clients_def boot_conf_def ready_def waiting_def timers_def)
  have "runs_to (sem_init 100 1) v (\<lambda>_ _. True)"
    by (rule runs_to_weaken [OF sem_init_ok [OF timers_ok_facts(1) [OF ginv_facts(4) [OF g]]]]) (simp_all add: ready_def waiting_def)
  then have "runs_to (exec im0 (InitSem 100 1)) (boot_conf v) (\<lambda>_ cf. 100 \<in> cf_sems cf)"
    by (simp add: run_simps boot_conf_def)
  then show ?thesis using reach_step [OF v(1) e] by (auto elim!: runs_toE)
qed

section \<open>Properties\<close>

text \<open>
  C10: In every configuration the kernel reaches from start-up, under any sequence of calls, interrupts
  and context switches: no task that is waiting has one of its awaited signals pending; the init task
  never waits; and unless a context switch is pending, the running task is in the running state and
  at least as urgent as every ready task.
\<close>

theorem reachable_schedule:
  assumes "bootable im s" and "reach im s cf"
  shows "(\<forall>t \<in> cf_tasks cf. tk_state (tasks (cf_state cf) (Obj t)) = TASK_WAITING \<longrightarrow>
       tk_sig_wait (tasks (cf_state cf) (Obj t)) AND tk_sig_recvd (tasks (cf_state cf) (Obj t)) = 0)
     \<and> current cf \<in> cf_tasks cf \<and> tk_state (tasks (cf_state cf) init_task) \<noteq> TASK_WAITING
     \<and> (\<not> pendsv (cf_state cf) \<longrightarrow> tk_state (tasks (cf_state cf) (running (cf_state cf))) = TASK_RUNNING
       \<and> (\<forall>t \<in> cf_tasks cf. tk_state (tasks (cf_state cf) (Obj t)) = TASK_READY \<longrightarrow>
            prio_of (nodes (cf_state cf)) t \<le> prio_of (nodes (cf_state cf)) (current cf)))"
proof -
  obtain L r rs ws xs where "ginv cf (cf_state cf) L r rs ws xs"
    using reach_minv [OF assms(2,1)] by (auto simp: minv_def)
  note f = ginv_facts [OF this]
  have "current cf = r" by (rule current_eq [OF f(11)])
  then show ?thesis using f(1,2,11) unfolding kern_def init_task_def by auto
qed

theorem reachable_schedule_witness:
  "\<exists>u. reach im0 reset_state (boot_conf u) \<and> current (boot_conf u) \<in> cf_tasks (boot_conf u)
     \<and> tk_state (tasks (cf_state (boot_conf u)) init_task) \<noteq> TASK_WAITING"
proof -
  obtain u where u: "reach im0 reset_state (boot_conf u)" using reach_reset by blast
  from reachable_schedule [OF bootable_reset u] show ?thesis using u by blast
qed

text \<open>
  C9: No sequence of calls, interrupts and context switches that respects the callers' conditions
  makes the kernel fail: in every reachable configuration every enabled event runs to its end, with no
  failed assertion, no access through a null pointer, no endless loop and no overflow.
\<close>

theorem reachable_no_fault:
  assumes "bootable im s" and "reach im s cf" and "enabled e cf"
  shows "\<exists>cf'. exec im e cf = Inr ((), cf') \<and> reach im s cf'"
  using step_minv [OF reach_minv [OF assms(2,1)] assms(3), of im] reach_step [OF assms(2,3)]
  by (auto elim!: runs_toE)

theorem reachable_no_fault_witness:
  "\<exists>u cf'. reach im0 reset_state (boot_conf u) \<and> enabled TIM2 (boot_conf u)
     \<and> exec im0 TIM2 (boot_conf u) = Inr ((), cf') \<and> reach im0 reset_state cf'"
proof -
  obtain u where u: "reach im0 reset_state (boot_conf u)" "booted u" using reach_reset by blast
  then have e: "enabled TIM2 (boot_conf u)" by (simp add: boot_conf_def booted_def kern_def irq_ok_def)
  show ?thesis using reachable_no_fault [OF bootable_reset u(1) e] u(1) e by blast
qed

text \<open>
  C11: In every reachable configuration the memory holds the abstract queues: the list of every
  semaphore and of every message port is, node by node, the sequence that the abstract operations (a
  request appended, a release that takes the head, a message appended, the head taken) give; these
  queues share no object with each other, with the tasks or with the timers; a semaphore's count never owes
  more releases than it has queued requests; and the timer queue holds exactly the timers that were added and
  not aborted, ordered by expiry.
\<close>

theorem reachable_queues:
  assumes "bootable im s" and "reach im s cf"
  shows "(\<forall>l \<in> cf_sems cf \<union> cf_ports cf. dll (nodes (cf_state cf)) l (cf_queues cf l)
       \<and> (\<forall>m \<in> cf_sems cf \<union> cf_ports cf. l \<noteq> m \<longrightarrow> set (cf_queues cf l) \<inter> set (cf_queues cf m) = {})
       \<and> set (cf_queues cf l) \<inter> (cf_tasks cf \<union> cf_timers cf) = {})
     \<and> (\<forall>l \<in> cf_sems cf. - sm_count (sems (cf_state cf) l) \<le> int (length (cf_queues cf l)))
     \<and> (\<exists>xs. dll (nodes (cf_state cf)) timers xs
         \<and> sorted_wrt (\<lambda>x y. tm_tick (tmrs (cf_state cf) (Obj x)) \<le> tm_tick (tmrs (cf_state cf) (Obj y))) xs
         \<and> set xs = {x \<in> cf_timers cf. tm_status (tmrs (cf_state cf) (Obj x)) = TIMER_ADDED \<and> x \<notin> cf_aborted cf})"
proof -
  obtain L r rs ws xs where g: "ginv cf (cf_state cf) L r rs ws xs"
    using reach_minv [OF assms(2,1)] by (auto simp: minv_def)
  note f = ginv_facts [OF g]
  have al: "alive (cf_state cf) L r (cf_tasks cf)" and so: "sorted_prio (tick_key (tmrs (cf_state cf))) xs"
    using f(4) by (simp_all add: timers_ok_def)
  have dl: "dll (nodes (cf_state cf)) l q" if "L l = Some q" for l q
    using kern_lists(1) [OF f(1)] that by (simp add: lists_ok_def)
  have q: "dll (nodes (cf_state cf)) l (cf_queues cf l)"
      "m \<in> clients cf \<Longrightarrow> l \<noteq> m \<Longrightarrow> set (cf_queues cf l) \<inter> set (cf_queues cf m) = {}"
      "set (cf_queues cf l) \<inter> (cf_tasks cf \<union> cf_timers cf) = {}" if l: "l \<in> clients cf" for l m
  proof -
    show "dll (nodes (cf_state cf)) l (cf_queues cf l)" by (rule dl [OF f(15) [OF l]])
    show "m \<in> clients cf \<Longrightarrow> l \<noteq> m \<Longrightarrow> set (cf_queues cf l) \<inter> set (cf_queues cf m) = {}"
      by (rule lists_ok_disjoint [OF kern_lists(1) [OF f(1)] f(15) [OF l] f(15)])
    show "set (cf_queues cf l) \<inter> (cf_tasks cf \<union> cf_timers cf) = {}"
      using alive_facts(5) [OF al f(15) [OF l] client_apart(1,2) [OF g l]] queue_no_timers [OF g l] by blast
  qed
  have "- sm_count (sems (cf_state cf) l) \<le> int (length (cf_queues cf l))" if "l \<in> cf_sems cf" for l
    using client_invs(1) [OF g that] by (simp add: sem_inv_def sem_covered_def)
  moreover have "sorted_wrt (\<lambda>x y. tm_tick (tmrs (cf_state cf) (Obj x)) \<le> tm_tick (tmrs (cf_state cf) (Obj y))) xs"
    using so by (simp add: sorted_prio_def tick_key_le)
  moreover have "set xs = {x \<in> cf_timers cf. tm_status (tmrs (cf_state cf) (Obj x)) = TIMER_ADDED \<and> x \<notin> cf_aborted cf}"
    using f(6) timer_status(2,3) [OF g] by blast
  ultimately show ?thesis unfolding clients_def [symmetric] using q dl [OF f(13)] by (intro conjI ballI impI exI [of _ xs]) blast+
qed

theorem reachable_queues_witness:
  "\<exists>cf. reach im0 reset_state cf \<and> 100 \<in> cf_sems cf \<and> dll (nodes (cf_state cf)) 100 (cf_queues cf 100)"
proof -
  obtain cf where cf: "reach im0 reset_state cf" "100 \<in> cf_sems cf" using reach_semaphore by blast
  from reachable_queues [OF bootable_reset cf(1)] cf show ?thesis by blast
qed

text \<open>
  C12: The state of a task and the list it is on agree, in every reachable configuration.  The ready list in memory is, node by node, a list of exactly the tasks
  that are ready, ordered by priority, and the waiting list one of exactly the tasks that wait; every task is running, ready or waiting, and only the
  current one is running.  Interrupts are masked exactly while the nesting count says that a critical section is entered; a task inside \<open>signal_wait\<close> has in its
  wait mask the argument of that call; and every queued semaphore request and every message port names a task that exists (a port possibly none).
\<close>

theorem reachable_lists:
  assumes "bootable im s" and "reach im s cf"
  shows "(\<exists>rs ws. dll (nodes (cf_state cf)) ready rs \<and> set rs = {t \<in> cf_tasks cf. tk_state (tasks (cf_state cf) (Obj t)) = TASK_READY}
       \<and> sorted_wrt (\<lambda>x y. prio_of (nodes (cf_state cf)) y \<le> prio_of (nodes (cf_state cf)) x) rs
       \<and> dll (nodes (cf_state cf)) waiting ws \<and> set ws = {t \<in> cf_tasks cf. tk_state (tasks (cf_state cf) (Obj t)) = TASK_WAITING})
     \<and> (\<forall>t \<in> cf_tasks cf. tk_state (tasks (cf_state cf) (Obj t)) \<in> {TASK_RUNNING, TASK_READY, TASK_WAITING}
          \<and> (tk_state (tasks (cf_state cf) (Obj t)) = TASK_RUNNING \<longrightarrow> t = current cf))
     \<and> (primask (cf_state cf) \<longleftrightarrow> 0 \<le> id_nestcnt (cf_state cf))
     \<and> (\<forall>t sg n. cf_wait cf t = Some (sg, n) \<longrightarrow> t \<in> cf_tasks cf \<and> tk_sig_wait (tasks (cf_state cf) (Obj t)) = sg)
     \<and> (\<forall>l \<in> cf_sems cf. \<forall>x \<in> set (cf_queues cf l). \<exists>w \<in> cf_tasks cf. rq_waiter (reqs (cf_state cf) (Obj x)) = Obj w)
     \<and> (\<forall>l \<in> cf_ports cf. mp_task (ports (cf_state cf) l) = NULL \<or> (\<exists>t \<in> cf_tasks cf. mp_task (ports (cf_state cf) l) = Obj t))"
proof -
  obtain L r rs ws xs where g: "ginv cf (cf_state cf) L r rs ws xs"
    using reach_minv [OF assms(2,1)] by (auto simp: minv_def)
  note f = ginv_facts [OF g]
  note st = kern_tasks(1,2) [OF f(1)] kern_state_valid [OF f(1)]
  have dl: "dll (nodes (cf_state cf)) l q" if "L l = Some q" for l q
    using kern_lists(1) [OF f(1)] that by (simp add: lists_ok_def)
  have "set rs = {t \<in> cf_tasks cf. tk_state (tasks (cf_state cf) (Obj t)) = TASK_READY}"
    "set ws = {t \<in> cf_tasks cf. tk_state (tasks (cf_state cf) (Obj t)) = TASK_WAITING}" using st f(2) by fastforce+
  moreover have "tk_state (tasks (cf_state cf) (Obj t)) \<in> {TASK_RUNNING, TASK_READY, TASK_WAITING}
      \<and> (tk_state (tasks (cf_state cf) (Obj t)) = TASK_RUNNING \<longrightarrow> t = current cf)" if "t \<in> cf_tasks cf" for t
    using that st f(2) current_eq [OF f(11)] by auto
  moreover have "primask (cf_state cf) \<longleftrightarrow> 0 \<le> id_nestcnt (cf_state cf)" by (rule irq_ok_primask [OF f(12), symmetric])
  moreover have "sorted_wrt (\<lambda>x y. prio_of (nodes (cf_state cf)) y \<le> prio_of (nodes (cf_state cf)) x) rs"
    using kern_lists(6) [OF f(1)] by (simp add: sorted_prio_def)
  moreover have "\<forall>t sg n. cf_wait cf t = Some (sg, n) \<longrightarrow> t \<in> cf_tasks cf \<and> tk_sig_wait (tasks (cf_state cf) (Obj t)) = sg"
    using ginvD(4) [OF g] by (simp add: waits_ok_def)
  moreover have "\<forall>l \<in> cf_sems cf. \<forall>x \<in> set (cf_queues cf l). \<exists>w \<in> cf_tasks cf. rq_waiter (reqs (cf_state cf) (Obj x)) = Obj w"
    "\<forall>l \<in> cf_ports cf. mp_task (ports (cf_state cf) l) = NULL \<or> (\<exists>t \<in> cf_tasks cf. mp_task (ports (cf_state cf) l) = Obj t)"
    using client_invs [OF g] unfolding sem_inv_def port_inv_def by blast+
  ultimately show ?thesis using dl [OF kern_lists(2) [OF f(1)]] dl [OF kern_lists(3) [OF f(1)]] by blast
qed

theorem reachable_lists_witness:
  "\<exists>cf rs. reach im0 reset_state cf \<and> 100 \<in> cf_sems cf \<and> dll (nodes (cf_state cf)) ready rs
     \<and> set rs = {t \<in> cf_tasks cf. tk_state (tasks (cf_state cf) (Obj t)) = TASK_READY}"
proof -
  obtain cf where cf: "reach im0 reset_state cf" "100 \<in> cf_sems cf" using reach_semaphore by blast
  from reachable_lists [OF bootable_reset cf(1)] cf show ?thesis by blast
qed

end
