(* ===== verification/Context.thy ===== *)
theory Context
  imports TaskProps
begin

unbundle bit_operations_syntax

text \<open>
  The context switch with the registers it saves, \<open>pendsv_handler.s\<close>.  On exception entry the
  processor has pushed \<open>r0\<close>-\<open>r3\<close>, \<open>r12\<close>, \<open>lr\<close>, \<open>pc\<close> and \<open>xpsr\<close> on the process stack; the handler
  pushes \<open>r4\<close>-\<open>r11\<close> below them, calls \<open>PendSV_Handler_user\<close>, and pops them from the stack it
  returns.
\<close>

section \<open>The handler\<close>

text \<open>Register \<open>i\<close> is \<open>r(4 + i)\<close>, for \<open>i < 8\<close>.\<close>

record cpu =
  ker :: kstate
  regs :: "nat \<Rightarrow> 32 word"
  psp :: "32 word"

definition stm :: "32 word \<Rightarrow> (nat \<Rightarrow> 32 word) \<Rightarrow> (32 word \<Rightarrow> 32 word) \<Rightarrow> 32 word \<Rightarrow> 32 word" where
  "stm p g m = fold (\<lambda>i m. m(p + 4 * of_nat i := g i)) [0..<8] m"

definition ldm :: "32 word \<Rightarrow> (32 word \<Rightarrow> 32 word) \<Rightarrow> (nat \<Rightarrow> 32 word) \<Rightarrow> nat \<Rightarrow> 32 word" where
  "ldm p m g = (\<lambda>i. if i < 8 then m (p + 4 * of_nat i) else g i)"

definition context_switch :: "(cpu, unit) M" where
  "context_switch =
     bindM (gets psp) (\<lambda>p.
     seqM (modify (\<lambda>c. c\<lparr>ker := (ker c)\<lparr>ram := stm (p - 32) (regs c) (ram (ker c))\<rparr>\<rparr>)) (
     bindM (on_field ker (\<lambda>s c. c\<lparr>ker := s\<rparr>) (PendSV_Handler p)) (\<lambda>r0.
     seqM (modify (\<lambda>c. c\<lparr>regs := ldm r0 (ram (ker c)) (regs c)\<rparr>)) (
     modify (\<lambda>c. c\<lparr>psp := r0 + 32\<rparr>)))))"

lemma stm_words:
  "i < 8 \<Longrightarrow> stm p g m (p + 4 * of_nat i) = g i"
  "(\<And>i. i < 8 \<Longrightarrow> a \<noteq> p + 4 * of_nat i) \<Longrightarrow> stm p g m a = m a"
proof -
  have stm: "stm p g m = m(p := g 0, p + 4 := g 1, p + 8 := g 2, p + 12 := g 3, p + 16 := g 4, p + 20 := g 5, p + 24 := g 6, p + 28 := g 7)"
    by (simp add: stm_def upt_conv_Cons) (simp add: eval_nat_numeral)
  show "stm p g m (p + 4 * of_nat i) = g i" if i: "i < 8"
  proof -
    consider "i = 0" | "i = 1" | "i = 2" | "i = 3" | "i = 4" | "i = 5" | "i = 6" | "i = 7" using i by linarith
    then show ?thesis by cases (simp_all add: stm)
  qed
  show "stm p g m a = m a" if a: "\<And>i. i < 8 \<Longrightarrow> a \<noteq> p + 4 * of_nat i"
    using a [of 0] a [of 1] a [of 2] a [of 3] a [of 4] a [of 5] a [of 6] a [of 7] by (simp add: stm)
qed

section \<open>A task that is switched out\<close>

definition stack_of :: "TaskContext \<Rightarrow> 32 word set" where
  "stack_of c = {a. cx_bos c \<le> a \<and> a < cx_tos c}"

text \<open>A frame of sixteen words inside a stack, without wrap-around.\<close>

definition frame_inside :: "32 word \<Rightarrow> TaskContext \<Rightarrow> bool" where
  "frame_inside fr c = (cx_bos c \<le> fr \<and> unat fr + 64 \<le> unat (cx_tos c))"

text \<open>
  What happens while task \<open>w\<close> does not run.  The task that runs, whichever it is, changes the
  registers and its stack pointer at will, and the state by its stores and kernel calls, but not
  the saved context of \<open>w\<close> nor \<open>w\<close>'s stack; and there are context switches, each with
  the frame of the task that is left inside the stack of that task, apart from \<open>w\<close>'s.
\<close>

inductive away :: "addr \<Rightarrow> cpu \<Rightarrow> cpu \<Rightarrow> bool" for w c where
  away_start: "away w c c"
| away_runs: "away w c d \<Longrightarrow> running (ker d) \<noteq> Obj w \<Longrightarrow> running s = running (ker d) \<Longrightarrow>
    tk_context (tasks s (Obj w)) = tk_context (tasks (ker d) (Obj w)) \<Longrightarrow>
    (\<And>a. a \<in> stack_of (tk_context (tasks (ker d) (Obj w))) \<Longrightarrow> ram s a = ram (ker d) a) \<Longrightarrow>
    away w c \<lparr>ker = s, regs = g, psp = p\<rparr>"
| away_switch: "away w c d \<Longrightarrow> r \<noteq> w \<Longrightarrow> kern (ker d) L r rs ws \<Longrightarrow> \<not> primask (ker d) \<Longrightarrow>
    frame_inside (psp d - 32) (tk_context (tasks (ker d) (Obj r))) \<Longrightarrow>
    stack_of (tk_context (tasks (ker d) (Obj r))) \<inter> stack_of (tk_context (tasks (ker d) (Obj w))) = {} \<Longrightarrow>
    context_switch d = Inr ((), e) \<Longrightarrow> away w c e"

lemma frame_words:
  assumes "frame_inside fr c"
  shows "i < 16 \<Longrightarrow> fr + 4 * of_nat i \<in> stack_of c" "frame_fits fr c"
proof -
  have le: "unat fr + 64 \<le> unat (cx_tos c)" "unat (cx_bos c) \<le> unat fr" using assms by (simp_all add: frame_inside_def word_le_nat_alt)
  moreover have "unat (cx_tos c) < 2 ^ 32" using unsigned_less [of "cx_tos c"] by simp
  ultimately have add: "unat (fr + x) = unat fr + unat x" if "unat x \<le> 64" for x :: "32 word"
    using that by (intro unat_add_lem [THEN iffD1]) simp
  show "frame_fits fr c"
    using le add [of 64] by (simp add: frame_fits_def SIZEOF_StackFrame_def word_le_nat_alt)
  show "fr + 4 * of_nat i \<in> stack_of c" if "i < 16"
  proof -
    have "unat (4 * of_nat i :: 32 word) = 4 * i" using that by (simp add: unat_word_ariths unat_of_nat)
    then show ?thesis using le that add [of "4 * of_nat i"] by (simp add: stack_of_def word_less_nat_alt word_le_nat_alt)
  qed
qed

lemma context_switch_ok:
  assumes k: "kern (ker c) L r rs ws" and p: "\<not> primask (ker c)" and f: "frame_fits (psp c - 32) (tk_context (tasks (ker c) (Obj r)))"
  shows "runs_to context_switch c (\<lambda>_ d. \<exists>y rs'. switch_queue (ker c) r rs ws = y # rs'
     \<and> running (ker d) = Obj y \<and> same_data (nodes (ker c)) (nodes (ker d)) \<and> \<not> primask (ker d) \<and> kern (ker d) (L(ready \<mapsto> rs')) y rs' ws
     \<and> ram (ker d) = stm (psp c - 32) (regs c) (ram (ker c))
     \<and> (\<forall>t. tk_context (tasks (ker d) (Obj t)) = (if t = r then (tk_context (tasks (ker c) (Obj t)))\<lparr>cx_frame := psp c - 32\<rparr>
          else tk_context (tasks (ker c) (Obj t))))
     \<and> psp d = cx_frame (tk_context (tasks (ker d) (Obj y))) + 32
     \<and> (\<forall>i < 8. regs d i = ram (ker d) (cx_frame (tk_context (tasks (ker d) (Obj y))) + 4 * of_nat i)))"
proof -
  let ?s = "(ker c)\<lparr>ram := stm (psp c - 32) (regs c) (ram (ker c))\<rparr>"
  have "kern ?s L r rs ws" using k by (simp add: kern_def irq_ok_def)
  moreover have "\<not> primask ?s" "frame_fits (psp c - 32) (tk_context (tasks ?s (Obj r)))" using p f by simp_all
  moreover have "switch_queue ?s r rs ws = switch_queue (ker c) r rs ws" by (simp add: switch_queue_def)
  moreover obtain y ys where "switch_queue (ker c) r rs ws = y # ys"
    using switch_queue_props(1) [OF k] by (cases "switch_queue (ker c) r rs ws") auto
  ultimately show ?thesis
    using p unfolding context_switch_def run_simps
    by (simp, intro runs_to_weaken [OF PendSV_kern [of ?s]])
      (auto simp: switch_post_def Let_def ldm_def same_defs switch_tasks_def switched_out_def dest: kern_lists(4))
qed

text \<open>
  \<open>saved w C m e\<close>: task \<open>w\<close> has the context \<open>C\<close> and its stack holds what \<open>m\<close> does; and when it
  runs its registers and stack pointer are those of its frame.
\<close>

definition saved :: "addr \<Rightarrow> TaskContext \<Rightarrow> (32 word \<Rightarrow> 32 word) \<Rightarrow> cpu \<Rightarrow> bool" where
  "saved w C m e = (tk_context (tasks (ker e) (Obj w)) = C \<and> (\<forall>a \<in> stack_of C. ram (ker e) a = m a)
     \<and> (running (ker e) = Obj w \<longrightarrow> psp e = cx_frame C + 32 \<and> (\<forall>i < 8. regs e i = m (cx_frame C + 4 * of_nat i))))"

lemma switch_saved:
  assumes s: "saved w C m c" and f: "frame_inside (cx_frame C) C" and r: "r \<noteq> w" and k: "kern (ker c) L r rs ws" "\<not> primask (ker c)"
    and i: "frame_inside (psp c - 32) (tk_context (tasks (ker c) (Obj r)))"
    and d: "stack_of (tk_context (tasks (ker c) (Obj r))) \<inter> stack_of (tk_context (tasks (ker c) (Obj w))) = {}"
    and e: "context_switch c = Inr ((), e)"
  shows "saved w C m e"
proof -
  have C: "tk_context (tasks (ker c) (Obj w)) = C" using s by (simp add: saved_def)
  have "a \<noteq> psp c - 32 + 4 * of_nat j" if "a \<in> stack_of C" "j < 8" for a j
    using frame_words(1) [OF i, of j] that d C by auto
  then have st: "stm (psp c - 32) (regs c) (ram (ker c)) a = ram (ker c) a" if "a \<in> stack_of C" for a
    using that by (intro stm_words(2)) auto
  have fw: "cx_frame C + 4 * of_nat j \<in> stack_of C" if "j < 8" for j using frame_words(1) [OF f, of j] that by simp
  show ?thesis
    using context_switch_ok [OF k frame_words(2) [OF i]] e s r st fw by (auto simp: runs_to_def saved_def)
qed

lemma away_saved:
  assumes "away w c e" "saved w C m c" "frame_inside (cx_frame C) C"
  shows "saved w C m e"
  using assms
proof (induction rule: away.induct)
  case (away_runs d s g p)
  then show ?case by (auto simp: saved_def)
next
  case (away_switch d r L rs ws e)
  then show ?case using switch_saved by blast
qed

lemma below_frame:
  assumes "frame_inside (p - 32) C" "p \<le> a" "i < 8"
  shows "a \<noteq> p - 32 + 4 * of_nat i"
proof -
  have "unat (p - 32) + 64 \<le> unat (cx_tos C)" using assms(1) by (simp add: frame_inside_def)
  moreover have "unat (cx_tos C) < 2 ^ 32" using unsigned_less [of "cx_tos C"] by simp
  ultimately have add: "unat (p - 32 + x) = unat (p - 32) + unat x" if "unat x \<le> 32" for x
    using that by (intro unat_add_lem [THEN iffD1]) simp
  have "unat (4 * of_nat i :: 32 word) = 4 * i" using assms(3) by (simp add: unat_word_ariths unat_of_nat)
  then have "p - 32 + 4 * of_nat i < p"
    using add [of "4 * of_nat i"] add [of 32] assms(3) by (simp add: word_less_nat_alt)
  then show ?thesis using assms(2) by auto
qed

text \<open>
  C4: A context switch is invisible to the task that is switched out.  Whatever runs in between, for
  however many context switches, when the task runs again it has the values of \<open>r4\<close> to \<open>r11\<close> and the
  stack pointer it had, and everything on its stack is as it was, with it the
  registers that the processor pushed on exception entry and pops on return.
\<close>

theorem context_preserved:
  assumes "kern (ker c) L w rs ws" and "\<not> primask (ker c)" and "frame_inside (psp c - 32) (tk_context (tasks (ker c) (Obj w)))"
    and "context_switch c = Inr ((), d)" and "away w d e" and "running (ker e) = Obj w"
  shows "(\<forall>i < 8. regs e i = regs c i) \<and> psp e = psp c
     \<and> (\<forall>a. psp c \<le> a \<longrightarrow> a < cx_tos (tk_context (tasks (ker c) (Obj w))) \<longrightarrow> ram (ker e) a = ram (ker c) a)"
proof -
  let ?C = "(tk_context (tasks (ker c) (Obj w)))\<lparr>cx_frame := psp c - 32\<rparr>" and ?m = "stm (psp c - 32) (regs c) (ram (ker c))"
  have stk: "stack_of ?C = stack_of (tk_context (tasks (ker c) (Obj w)))" by (simp add: stack_of_def)
  have f: "frame_inside (cx_frame ?C) ?C" using assms(3) by (simp add: frame_inside_def)
  have "saved w ?C ?m d"
    using context_switch_ok [OF assms(1,2) frame_words(2) [OF assms(3)]] assms(4) by (auto simp: runs_to_def saved_def)
  then have "saved w ?C ?m e" by (rule away_saved [OF assms(5) _ f])
  then have e: "psp e = psp c" "\<forall>i < 8. regs e i = ?m (psp c - 32 + 4 * of_nat i)" "\<forall>a \<in> stack_of ?C. ram (ker e) a = ?m a"
    using assms(6) by (simp_all add: saved_def)
  have "ram (ker e) a = ram (ker c) a" if a: "psp c \<le> a" "a < cx_tos (tk_context (tasks (ker c) (Obj w)))" for a
  proof -
    have "psp c \<in> stack_of ?C" using frame_words(1) [OF f, of 8] by simp
    then have "a \<in> stack_of ?C" using a by (auto simp: stack_of_def)
    moreover have "?m a = ram (ker c) a" using below_frame [OF assms(3) a(1)] by (intro stm_words(2)) auto
    ultimately show ?thesis using e(3) by simp
  qed
  then show ?thesis using e(1,2) stm_words(1) by auto
qed

text \<open>
  The demonstration system with a stack of its own for task 5: it is interrupted with \<open>r4\<close> to \<open>r11\<close>
  holding 1 to 8, task 6 of the same priority runs, changes all registers and is interrupted
  in turn.
\<close>

definition demo_cpu :: cpu where
  "demo_cpu = \<lparr>ker = demo_state\<lparr>tasks := demo_tasks(Obj 5 := (demo_task TASK_RUNNING 0)
       \<lparr>tk_context := \<lparr>cx_frame = 0x20001000, cx_bos = 0x20001000, cx_tos = 0x20001400\<rparr>\<rparr>)\<rparr>,
     regs = (\<lambda>i. of_nat i + 1), psp = 0x200013E0\<rparr>"

lemma demo_cpu_kern: "kern (ker demo_cpu) demo_lists 5 [6, 0] [7]"
  by (rule kern_update_running [OF demo_kern])
    (auto simp: demo_cpu_def demo_task_def blank_task_def task_ok_def ctx_ok_def SIZEOF_StackFrame_def SIGF_SINGLE_def irq_ok_def)

lemma demo_cpu_queue:
  assumes "same_data demo_nodes (nodes s)"
  shows "switch_queue s 5 [6, 0] [7] = [6, 5, 0]" "switch_queue s 6 [5, 0] [7] = [5, 6, 0]"
  using same_data_prio_of [OF assms] by (simp_all add: switch_queue_def enqueue_spec_def demo_prio_of demo_order not_le)

lemma demo_cpu_away:
  "\<exists>d e. context_switch demo_cpu = Inr ((), d) \<and> running (ker d) = Obj 6 \<and> away 5 d e \<and> running (ker e) = Obj 5"
proof -
  let ?C = "\<lparr>cx_frame = 0x200013C0, cx_bos = 0x20001000, cx_tos = 0x20001400\<rparr>"
  have f: "frame_fits (psp demo_cpu - 32) (tk_context (tasks (ker demo_cpu) (Obj 5)))" "\<not> primask (ker demo_cpu)"
    by (simp_all add: demo_cpu_def frame_fits_def SIZEOF_StackFrame_def)
  have nd: "same_data demo_nodes (nodes (ker demo_cpu))" by (simp add: demo_cpu_def same_data_def)
  obtain d where d: "context_switch demo_cpu = Inr ((), d)" "running (ker d) = Obj 6" "same_data demo_nodes (nodes (ker d))"
    "\<not> primask (ker d)" "kern (ker d) (demo_lists(ready \<mapsto> [5, 0])) 6 [5, 0] [7]" "tk_context (tasks (ker d) (Obj 5)) = ?C"
    "tk_context (tasks (ker d) (Obj 6)) = tk_context blank_task"
    using context_switch_ok [OF demo_cpu_kern f(2,1)] demo_cpu_queue(1) [OF nd] nd
    by (auto elim!: runs_toE simp: same_data_def) (auto simp: demo_cpu_def demo_tasks_def demo_task_def)
  let ?d = "\<lparr>ker = ker d, regs = (\<lambda>_. 0), psp = 0x200003E0\<rparr>"
  have fi: "frame_inside (psp ?d - 32) (tk_context (tasks (ker ?d) (Obj 6)))"
    by (simp add: d(7) frame_inside_def blank_task_def)
  have a: "away 5 d ?d" by (rule away_runs [OF away_start]) (simp_all add: d(2))
  obtain e where e: "context_switch ?d = Inr ((), e)" "running (ker e) = Obj 5"
    using context_switch_ok [of ?d "demo_lists(ready \<mapsto> [5, 0])" 6 "[5, 0]" "[7]", OF _ _ frame_words(2) [OF fi]]
      d(4,5) demo_cpu_queue(2) [OF d(3)] by (auto elim!: runs_toE)
  have "away 5 d e"
    by (rule away_switch [OF a, where r = 6 and L = "demo_lists(ready \<mapsto> [5, 0])"])
      (use d(4-7) fi e(1) in \<open>auto simp: stack_of_def blank_task_def word_less_nat_alt word_le_nat_alt\<close>)
  then show ?thesis using d(1,2) e(2) by blast
qed

theorem context_preserved_witness:
  "\<exists>d e. context_switch demo_cpu = Inr ((), d) \<and> running (ker d) = Obj 6 \<and> away 5 d e \<and> regs e 7 = 8 \<and> psp e = 0x200013E0"
proof -
  obtain d e where d: "context_switch demo_cpu = Inr ((), d)" "running (ker d) = Obj 6" "away 5 d e" "running (ker e) = Obj 5"
    using demo_cpu_away by blast
  have "\<not> primask (ker demo_cpu)" "frame_inside (psp demo_cpu - 32) (tk_context (tasks (ker demo_cpu) (Obj 5)))"
    by (simp_all add: demo_cpu_def frame_inside_def)
  from context_preserved [OF demo_cpu_kern this d(1,3,4)] have "regs e 7 = regs demo_cpu 7" "psp e = psp demo_cpu" by auto
  then show ?thesis using d by (auto simp: demo_cpu_def)
qed

end
