(* ===== verification/Vectors.thy ===== *)
theory Vectors
  imports InitC Context
begin

unbundle bit_operations_syntax

text \<open>
  How the processor gets into the kernel: the vector table and the priorities of the exceptions
  (\<open>platform.c\<close>), and the reset handler (\<open>reset_handler.s\<close>), up to the first instruction of the init task.
\<close>

section \<open>The vector table\<close>

datatype vector = V_tos | V_reserved | V_Reset_Handler | V_Default_Handler | V_PendSV_Handler | V_SysTick_Handler | V_TIM2_IRQHandler

definition vector_table :: "vector list" where
  "vector_table = [
     V_tos,
     V_Reset_Handler,
     V_Default_Handler, V_Default_Handler, V_Default_Handler, V_Default_Handler, V_Default_Handler,
     V_reserved, V_reserved, V_reserved, V_reserved,
     V_Default_Handler, V_Default_Handler,
     V_reserved,
     V_PendSV_Handler,
     V_SysTick_Handler,
     V_Default_Handler, V_Default_Handler, V_Default_Handler, V_Default_Handler, V_Default_Handler, V_Default_Handler,
     V_Default_Handler, V_Default_Handler, V_Default_Handler, V_Default_Handler, V_Default_Handler,
     V_Default_Handler, V_Default_Handler, V_Default_Handler, V_Default_Handler, V_Default_Handler, V_Default_Handler, V_Default_Handler,
     V_Default_Handler, V_Default_Handler, V_Default_Handler, V_Default_Handler, V_Default_Handler, V_Default_Handler,
     V_Default_Handler, V_Default_Handler, V_Default_Handler, V_Default_Handler,
     V_TIM2_IRQHandler]"

text \<open>
  Exception \<open>n\<close>, taken in thread mode with process stack pointer \<open>sp\<close> (the value after the processor has
  pushed its part of the frame); \<open>update\<close> is the status of TIM2.  Exceptions are numbered by the architecture:
  PendSV is 14, SysTick 15 and interrupt request \<open>i\<close> is \<open>16 + i\<close>.  A zero entry is a jump to address zero.
\<close>

definition run_vector :: "vector \<Rightarrow> 32 word \<Rightarrow> bool \<Rightarrow> unit K" where
  "run_vector v sp update = (case v of
       V_PendSV_Handler \<Rightarrow> bindM (PendSV_Handler sp) (\<lambda>_. ret ())
     | V_SysTick_Handler \<Rightarrow> SysTick_Handler
     | V_TIM2_IRQHandler \<Rightarrow> TIM2_IRQHandler update
     | V_Default_Handler \<Rightarrow> Default_Handler
     | _ \<Rightarrow> throw NullDeref)"

definition exception_entry :: "nat \<Rightarrow> 32 word \<Rightarrow> bool \<Rightarrow> unit K" where
  "exception_entry n sp update = run_vector (vector_table ! n) sp update"

section \<open>Priorities\<close>

text \<open>
  The three exceptions that the kernel uses, and what its set-up code tells the interrupt controller.  The
  controller, with state of type \<open>'n\<close>, and the library functions that write to it are the parameter \<open>lib\<close>;
  \<open>lib_level\<close> is the preemption priority of an exception, a lower value being more urgent.
\<close>

datatype exc = PendSV_exc | SysTick_exc | TIM2_exc

record 'n nvic_lib =
  lib_NVIC_SetPriority :: "exc \<Rightarrow> nat \<Rightarrow> 'n \<Rightarrow> 'n"
  lib_SysTick_CALIB :: "'n \<Rightarrow> 32 word"
  lib_SysTick_Config :: "32 word \<Rightarrow> 'n \<Rightarrow> 'n"
  lib_NVIC_Init :: "exc \<Rightarrow> nat \<Rightarrow> nat \<Rightarrow> bool \<Rightarrow> 'n \<Rightarrow> 'n"
  lib_level :: "'n \<Rightarrow> exc \<Rightarrow> nat"

definition SysTick_CALIB_TENMS_Msk :: "32 word" where "SysTick_CALIB_TENMS_Msk = 0xFFFFFF"

definition platform_pre_nvic :: "('n, 'z) nvic_lib_scheme \<Rightarrow> 'n \<Rightarrow> 'n" where
  "platform_pre_nvic lib n =
     (let n = lib_NVIC_SetPriority lib PendSV_exc 255 n;
          n = lib_SysTick_Config lib (lib_SysTick_CALIB lib n AND SysTick_CALIB_TENMS_Msk) n;
          n = lib_NVIC_SetPriority lib SysTick_exc 0 n in n)"

definition timer_init_nvic :: "('n, 'z) nvic_lib_scheme \<Rightarrow> 'n \<Rightarrow> 'n" where
  "timer_init_nvic lib n = lib_NVIC_Init lib TIM2_exc 0 1 True n"

text \<open>
  The documented behaviour of the library, at the values that the set-up code uses and under the priority grouping of
  reset, which the code does not change: \<open>NVIC_SetPriority\<close> with the priority 0, and \<open>NVIC_Init\<close> with the preemption priority 0 for a channel that is
  enabled, give the exception the most urgent level; \<open>NVIC_SetPriority\<close> with 255, all of whose implemented bits are set, gives a
  less urgent one; none of them changes another exception's level, and \<open>SysTick_Config\<close> changes that of SysTick only, to a value
  left open.
\<close>

definition lib_ok :: "('n, 'z) nvic_lib_scheme \<Rightarrow> bool" where
  "lib_ok lib = ((\<forall>n e. lib_level lib (lib_NVIC_SetPriority lib e 0 n) e = 0 \<and> 0 < lib_level lib (lib_NVIC_SetPriority lib e 255 n) e)
     \<and> (\<forall>n e q. lib_level lib (lib_NVIC_Init lib e 0 q True n) e = 0)
     \<and> (\<forall>n e p a. a \<noteq> e \<longrightarrow> lib_level lib (lib_NVIC_SetPriority lib e p n) a = lib_level lib n a)
     \<and> (\<forall>n e p q b a. a \<noteq> e \<longrightarrow> lib_level lib (lib_NVIC_Init lib e p q b n) a = lib_level lib n a)
     \<and> (\<forall>n v a. a \<noteq> SysTick_exc \<longrightarrow> lib_level lib (lib_SysTick_Config lib v n) a = lib_level lib n a))"

text \<open>
  The exceptions that are active, the latest first.  One is entered if it is more urgent than every
  active one; which of the pending ones is taken, and whether exceptions are masked, is left open.
\<close>

inductive exc_reach :: "(exc \<Rightarrow> nat) \<Rightarrow> exc list \<Rightarrow> bool" for level where
  exc_thread: "exc_reach level []"
| exc_enter: "exc_reach level es \<Longrightarrow> (\<forall>a \<in> set es. level e < level a) \<Longrightarrow> exc_reach level (e # es)"
| exc_return: "exc_reach level (e # es) \<Longrightarrow> exc_reach level es"

inductive_cases exc_reach_cases: "exc_reach level es"

lemma exc_levels:
  fixes n
  assumes "lib_ok lib"
  defines "level \<equiv> lib_level lib (timer_init_nvic lib (platform_pre_nvic lib n))"
  shows "level SysTick_exc = level TIM2_exc" "level SysTick_exc < level PendSV_exc"
  using assms(1) by (auto simp: level_def lib_ok_def timer_init_nvic_def platform_pre_nvic_def Let_def)

lemma exc_nesting:
  assumes l: "level SysTick_exc = level TIM2_exc" "level SysTick_exc < level PendSV_exc" and r: "exc_reach level es"
  shows "es \<in> {[], [PendSV_exc], [SysTick_exc], [TIM2_exc], [SysTick_exc, PendSV_exc], [TIM2_exc, PendSV_exc]}"
  using r
proof (induction rule: exc_reach.induct)
  case (exc_enter es e)
  then show ?case using l by (cases e) auto
qed auto

section \<open>The reset handler\<close>

text \<open>
  The registers with which the first task is entered.  \<open>startup\<close> is what happens before \<open>platform_pre\<close>: \<open>memcpy\<close> and
  \<open>memset\<close> on the regions that the linker names, and \<open>SystemInit\<close> of the processor's library.
\<close>

record entry =
  en_pc :: "32 word"
  en_r0 :: "32 word"
  en_lr :: "32 word"

definition pop_words :: "nat \<Rightarrow> (cpu, 32 word list) M" where
  "pop_words k =
     bindM (gets (\<lambda>c. map (\<lambda>i. ram (ker c) (psp c + 4 * of_nat i)) [0..<k])) (\<lambda>ws.
     seqM (modify (\<lambda>c. c\<lparr>psp := psp c + 4 * of_nat k\<rparr>)) (
     ret ws))"

definition Reset_Handler :: "image \<Rightarrow> unit K \<Rightarrow> (cpu, entry) M" where
  "Reset_Handler im startup =
     seqM (on_field ker (\<lambda>s c. c\<lparr>ker := s\<rparr>) startup) (
     bindM (on_field ker (\<lambda>s c. c\<lparr>ker := s\<rparr>) (platform_pre im)) (\<lambda>fr.
     seqM (modify (\<lambda>c. c\<lparr>psp := fr\<rparr>)) (
     bindM (pop_words 8) (\<lambda>ws.
     seqM (modify (\<lambda>c. c\<lparr>regs := (\<lambda>i. if i < 8 then ws ! i else regs c i)\<rparr>)) (
     bindM (pop_words 6) (\<lambda>ws.
     bindM (pop_words 1) (\<lambda>_.
     bindM (pop_words 1) (\<lambda>_.
     bindM (gets (\<lambda>c. ram (ker c) (psp c - 4 * 8))) (\<lambda>r0.
     bindM (gets (\<lambda>c. ram (ker c) (psp c - 4 * 2))) (\<lambda>pc.
     ret \<lparr>en_pc = pc, en_r0 = r0, en_lr = ws ! 5\<rparr>))))))))))"

lemma runs_to_pop_words [run_simps]:
  "runs_to (pop_words k) c P = P (map (\<lambda>i. ram (ker c) (psp c + 4 * of_nat i)) [0..<k]) (c\<lparr>psp := psp c + 4 * of_nat k\<rparr>)"
  by (simp add: pop_words_def run_simps)

section \<open>Properties\<close>

text \<open>
  Every exception that the kernel uses reaches its handler, and no other one returns: exception 14 runs the context
  switch, 15 the time slice, and 44, which is interrupt request 28 of TIM2, the clock; every other entry of the table after the reset entry stops the
  system.
\<close>

theorem vector_dispatch:
  "length vector_table = 16 + 29 \<and> exception_entry 14 sp update = bindM (PendSV_Handler sp) (\<lambda>_. ret ())
     \<and> exception_entry 15 sp update = SysTick_Handler \<and> exception_entry (16 + 28) sp update = TIM2_IRQHandler update
     \<and> (\<forall>n \<in> {2..<length vector_table} - {14, 15, 16 + 28}. \<not> runs_to (exception_entry n sp update) s P)"
proof -
  have "\<not> runs_to (exception_entry n sp update) s P" if n: "n \<in> {2..<45} - {14, 15, 16 + 28}" for n
  proof -
    have "n \<in> set [2..<45]" unfolding set_upt using n by blast
    moreover have "n \<notin> {14, 15, 44}" using n by simp
    ultimately show ?thesis
      by (simp add: upt_conv_Cons) (elim disjE; simp add: exception_entry_def vector_table_def run_vector_def run_simps Default_Handler_def)
  qed
  then have "\<forall>n \<in> {2..<45} - {14, 15, 16 + 28}. \<not> runs_to (exception_entry n sp update) s P" by blast
  moreover have "length vector_table = 45" by (simp add: vector_table_def)
  moreover have "exception_entry 14 sp update = bindM (PendSV_Handler sp) (\<lambda>_. ret ())" "exception_entry 15 sp update = SysTick_Handler"
    "exception_entry 44 sp update = TIM2_IRQHandler update"
    by (simp_all add: exception_entry_def vector_table_def run_vector_def)
  ultimately show ?thesis by simp
qed

theorem vector_dispatch_witness:
  "\<not> runs_to (exception_entry 3 0 True) blank_state (\<lambda>_ _. True)"
  using vector_dispatch [of 0 True blank_state "\<lambda>_ _. True"] by auto

text \<open>
  C13: The priorities that start-up sets order the handlers: the timer interrupts, SysTick and TIM2, interrupt a task or
  the context switch but are never interrupted themselves, not even by each other; and the context switch, PendSV, is only ever
  started in thread mode, never inside another handler, although a timer interrupt may arrive while it runs.
\<close>

theorem handlers_nest:
  assumes "lib_ok lib" and "exc_reach (lib_level lib (timer_init_nvic lib (platform_pre_nvic lib n))) es"
  shows "(es \<noteq> [] \<and> hd es = PendSV_exc \<longrightarrow> es = [PendSV_exc])
     \<and> (es \<noteq> [] \<and> hd es \<noteq> PendSV_exc \<longrightarrow> set (tl es) \<subseteq> {PendSV_exc} \<and> length es \<le> 2)"
  using exc_nesting [OF exc_levels [OF assms(1)] assms(2)] by auto

definition table_lib :: "(exc \<Rightarrow> nat) nvic_lib" where
  "table_lib = \<lparr>lib_NVIC_SetPriority = (\<lambda>e p n. n(e := p div 16)), lib_SysTick_CALIB = (\<lambda>_. 0), lib_SysTick_Config = (\<lambda>_ n. n(SysTick_exc := 15)),
     lib_NVIC_Init = (\<lambda>e p q b n. n(e := p div 16)), lib_level = (\<lambda>n. n)\<rparr>"

theorem handlers_nest_witness:
  "lib_ok table_lib \<and> exc_reach (lib_level table_lib (timer_init_nvic table_lib (platform_pre_nvic table_lib (\<lambda>_. 7)))) [TIM2_exc, PendSV_exc]
     \<and> set (tl [TIM2_exc, PendSV_exc]) \<subseteq> {PendSV_exc}"
proof -
  have ok: "lib_ok table_lib" by (auto simp: lib_ok_def table_lib_def)
  have "exc_reach (lib_level table_lib (timer_init_nvic table_lib (platform_pre_nvic table_lib (\<lambda>_. 7)))) [TIM2_exc, PendSV_exc]"
    by (intro exc_enter exc_thread) (simp_all add: table_lib_def timer_init_nvic_def platform_pre_nvic_def)
  with handlers_nest [OF ok this] ok show ?thesis by simp
qed

text \<open>
  C33: From reset to the first instruction of the init task.  Once memory has been set up, the reset handler runs
  \<open>platform_pre\<close> and unwinds the frame it returns: it jumps to \<open>init_task_f\<close> with the argument 0, with the
  return address of a task and the stack pointer at the top of the init task's stack, and the invariant holds
  with the init task running.
\<close>

theorem reset_enters_init_task:
  assumes "runs_to startup (ker c) (\<lambda>_ s. reset_ok im s \<and> null_name s = Some b)" and "strcmp_chars ''init'' b \<noteq> 0"
  shows "runs_to (Reset_Handler im startup) c (\<lambda>e d.
     en_pc e = im_init_task_f im \<and> en_r0 e = 0 \<and> en_lr e = im_dead_end im
     \<and> psp d = im_init_task_stack im + INIT_TASK_STACK_SIZE
     \<and> kern (ker d) [ready \<mapsto> [], waiting \<mapsto> []] init_addr [] [] \<and> \<not> primask (ker d) \<and> \<not> pendsv (ker d))"
proof -
  have "en_pc \<lparr>en_pc = ram u (fr + 56), en_r0 = ram u (fr + 32), en_lr = ram u (fr + 52)\<rparr> = im_init_task_f im
      \<and> ram u (fr + 32) = 0 \<and> ram u (fr + 52) = im_dead_end im \<and> fr + 64 = im_init_task_stack im + INIT_TASK_STACK_SIZE
      \<and> kern u [ready \<mapsto> [], waiting \<mapsto> []] init_addr [] [] \<and> \<not> primask u \<and> \<not> pendsv u"
    if u: "boot_post im s u" and fr: "fr = cx_frame (tk_context (tasks u init_task))" for s u fr
    using u frame_image_fields [of im "im_init_task_stack im + 2048 - 64" "im_init_task_f im" 0 "ram s"]
    by (simp add: fr boot_post_def boot_lists_def init_fields_def Let_def INIT_TASK_STACK_SIZE_def frame_offsets)
  then have "runs_to (platform_pre im) s (\<lambda>fr u. ram u (fr + 56) = im_init_task_f im
      \<and> ram u (fr + 32) = 0 \<and> ram u (fr + 52) = im_dead_end im \<and> fr + 64 = im_init_task_stack im + INIT_TASK_STACK_SIZE
      \<and> kern u [ready \<mapsto> [], waiting \<mapsto> []] init_addr [] [] \<and> \<not> primask u \<and> \<not> pendsv u)"
    if "reset_ok im s \<and> null_name s = Some b" for s
    unfolding platform_pre_def run_simps
    by (intro runs_to_weaken [OF martos_pre_ok [OF conjunct1 [OF that] conjunct2 [OF that] assms(2)]]) (auto simp: init_task_not_NULL)
  then have "runs_to startup (ker c) (\<lambda>_ s. runs_to (platform_pre im) s (\<lambda>fr u. ram u (fr + 56) = im_init_task_f im
      \<and> ram u (fr + 32) = 0 \<and> ram u (fr + 52) = im_dead_end im \<and> fr + 64 = im_init_task_stack im + INIT_TASK_STACK_SIZE
      \<and> kern u [ready \<mapsto> [], waiting \<mapsto> []] init_addr [] [] \<and> \<not> primask u \<and> \<not> pendsv u))"
    by (intro runs_to_weaken [OF assms(1)]) blast
  then show ?thesis
    unfolding Reset_Handler_def run_simps
    by (elim runs_to_weaken) (simp add: upt_conv_Cons algebra_simps)
qed

theorem reset_enters_init_task_witness:
  "runs_to (Reset_Handler im0 (ret ())) \<lparr>ker = reset_state, regs = (\<lambda>_. 0), psp = 0\<rparr> (\<lambda>e d.
     en_pc e = im_init_task_f im0 \<and> en_r0 e = 0 \<and> en_lr e = im_dead_end im0
     \<and> psp d = im_init_task_stack im0 + INIT_TASK_STACK_SIZE
     \<and> kern (ker d) [ready \<mapsto> [], waiting \<mapsto> []] init_addr [] [] \<and> \<not> primask (ker d) \<and> \<not> pendsv (ker d))"
  by (rule reset_enters_init_task [where b = "[]"]) (use reset_state_ok in \<open>simp_all add: run_simps\<close>)

end
