(* ===== verification/Board.thy ===== *)
theory Board
  imports Vectors
begin

text \<open>
  The set-up of the board in \<open>platform.c\<close>: the pins of the two lights (\<open>led_init\<close>) and the hardware timer behind the
  clock (\<open>timer_init_platform\<close>).  The peripheral library is a parameter.
\<close>

section \<open>The structures passed to the library\<close>

datatype peripheral = GPIOD | TIM2

datatype GPIOMode = GPIO_Mode_IN | GPIO_Mode_OUT | GPIO_Mode_AF | GPIO_Mode_AN
datatype GPIOSpeed = GPIO_Speed_2MHz | GPIO_Speed_25MHz | GPIO_Speed_50MHz | GPIO_Speed_100MHz
datatype GPIOOType = GPIO_OType_PP | GPIO_OType_OD
datatype GPIOPuPd = GPIO_PuPd_NOPULL | GPIO_PuPd_UP | GPIO_PuPd_DOWN
datatype TIM_CounterMode = TIM_CounterMode_Up | TIM_CounterMode_Down
datatype TIM_ClockDivision = TIM_CKD_DIV1 | TIM_CKD_DIV2 | TIM_CKD_DIV4

text \<open>A set of pins is the list of their numbers.\<close>

record GPIO_InitTypeDef =
  GPIO_Pin :: "nat list"
  GPIO_Mode :: GPIOMode
  GPIO_Speed :: GPIOSpeed
  GPIO_OType :: GPIOOType
  GPIO_PuPd :: GPIOPuPd

record TIM_TimeBaseInitTypeDef =
  TIM_Prescaler :: nat
  TIM_CounterMode :: TIM_CounterMode
  TIM_Period :: nat
  TIM_ClockDivision :: TIM_ClockDivision
  TIM_RepetitionCounter :: nat

text \<open>What can be seen of the board: which peripherals have a clock, the pins of port D, the timer, and the interrupts that are let through.\<close>

record board =
  bd_clocked :: "peripheral \<Rightarrow> bool"
  bd_mode :: "nat \<Rightarrow> GPIOMode"
  bd_otype :: "nat \<Rightarrow> GPIOOType"
  bd_level :: "nat \<Rightarrow> bool"
  bd_base :: TIM_TimeBaseInitTypeDef
  bd_counting :: bool
  bd_update_it :: bool
  bd_irq :: "exc \<Rightarrow> bool"

record 'n board_lib = "'n nvic_lib" +
  lib_RCC_AHB1PeriphClockCmd :: "peripheral \<Rightarrow> bool \<Rightarrow> 'n \<Rightarrow> 'n"
  lib_RCC_APB1PeriphClockCmd :: "peripheral \<Rightarrow> bool \<Rightarrow> 'n \<Rightarrow> 'n"
  lib_GPIO_Init :: "GPIO_InitTypeDef \<Rightarrow> 'n \<Rightarrow> 'n"
  lib_GPIO_WriteBit :: "nat list \<Rightarrow> bool \<Rightarrow> 'n \<Rightarrow> 'n"
  lib_TIM_TimeBaseInit :: "TIM_TimeBaseInitTypeDef \<Rightarrow> 'n \<Rightarrow> 'n"
  lib_TIM_Cmd :: "bool \<Rightarrow> 'n \<Rightarrow> 'n"
  lib_TIM_ITConfig :: "bool \<Rightarrow> 'n \<Rightarrow> 'n"
  lib_board :: "'n \<Rightarrow> board"

section \<open>The set-up functions\<close>

text \<open>\<open>junk\<close> is what the local variable \<open>gpioStructure\<close> holds before its fields are assigned.\<close>

definition led_init :: "'n board_lib \<Rightarrow> GPIO_InitTypeDef \<Rightarrow> 'n \<Rightarrow> 'n" where
  "led_init lib junk n =
     (let n = lib_RCC_AHB1PeriphClockCmd lib GPIOD True n;
          gpioStructure = junk\<lparr>GPIO_Pin := [12, 13], GPIO_Mode := GPIO_Mode_OUT, GPIO_Speed := GPIO_Speed_50MHz\<rparr>;
          n = lib_GPIO_Init lib gpioStructure n in
      lib_GPIO_WriteBit lib [12, 13] False n)"

definition platform_pre_board :: "'n board_lib \<Rightarrow> GPIO_InitTypeDef \<Rightarrow> 'n \<Rightarrow> 'n" where
  "platform_pre_board lib junk n = led_init lib junk (platform_pre_nvic lib n)"

definition timer_init_board :: "'n board_lib \<Rightarrow> 'n \<Rightarrow> 'n" where
  "timer_init_board lib n =
     (let n = lib_RCC_APB1PeriphClockCmd lib TIM2 True n;
          n = lib_TIM_TimeBaseInit lib \<lparr>TIM_Prescaler = 28 - 1, TIM_CounterMode = TIM_CounterMode_Up, TIM_Period = 1000 - 1,
                TIM_ClockDivision = TIM_CKD_DIV1, TIM_RepetitionCounter = 0\<rparr> n;
          n = lib_TIM_Cmd lib True n;
          n = lib_TIM_ITConfig lib True n in
      timer_init_nvic lib n)"

section \<open>The library\<close>

text \<open>
  The documented effect of the library functions on the board.  A peripheral without a clock ignores what is written to its registers.
\<close>

definition when_clocked :: "peripheral \<Rightarrow> (board \<Rightarrow> board) \<Rightarrow> board \<Rightarrow> board" where
  "when_clocked p f b = (if bd_clocked b p then f b else b)"

definition for_pins :: "nat list \<Rightarrow> 'a \<Rightarrow> (nat \<Rightarrow> 'a) \<Rightarrow> nat \<Rightarrow> 'a" where
  "for_pins ps v f p = (if p \<in> set ps then v else f p)"

definition gpio_lib_ok :: "'n board_lib \<Rightarrow> bool" where
  "gpio_lib_ok lib = (
     (\<forall>p on n. lib_board lib (lib_RCC_AHB1PeriphClockCmd lib p on n) = (lib_board lib n)\<lparr>bd_clocked := (bd_clocked (lib_board lib n))(p := on)\<rparr>)
   \<and> (\<forall>g n. lib_board lib (lib_GPIO_Init lib g n) = when_clocked GPIOD (\<lambda>b. b\<lparr>bd_mode := for_pins (GPIO_Pin g) (GPIO_Mode g) (bd_mode b),
          bd_otype := for_pins (GPIO_Pin g) (GPIO_OType g) (bd_otype b)\<rparr>) (lib_board lib n))
   \<and> (\<forall>ps v n. lib_board lib (lib_GPIO_WriteBit lib ps v n) = when_clocked GPIOD (\<lambda>b. b\<lparr>bd_level := for_pins ps v (bd_level b)\<rparr>) (lib_board lib n)))"

definition tim_lib_ok :: "'n board_lib \<Rightarrow> bool" where
  "tim_lib_ok lib = (
     (\<forall>p on n. lib_board lib (lib_RCC_APB1PeriphClockCmd lib p on n) = (lib_board lib n)\<lparr>bd_clocked := (bd_clocked (lib_board lib n))(p := on)\<rparr>)
   \<and> (\<forall>t n. lib_board lib (lib_TIM_TimeBaseInit lib t n) = when_clocked TIM2 (\<lambda>b. b\<lparr>bd_base := t\<rparr>) (lib_board lib n))
   \<and> (\<forall>on n. lib_board lib (lib_TIM_Cmd lib on n) = when_clocked TIM2 (\<lambda>b. b\<lparr>bd_counting := on\<rparr>) (lib_board lib n))
   \<and> (\<forall>on n. lib_board lib (lib_TIM_ITConfig lib on n) = when_clocked TIM2 (\<lambda>b. b\<lparr>bd_update_it := on\<rparr>) (lib_board lib n))
   \<and> (\<forall>e p q on n. lib_board lib (lib_NVIC_Init lib e p q on n) = (lib_board lib n)\<lparr>bd_irq := (bd_irq (lib_board lib n))(e := on)\<rparr>)
   \<and> (\<forall>e p n. lib_board lib (lib_NVIC_SetPriority lib e p n) = lib_board lib n)
   \<and> (\<forall>v n. lib_board lib (lib_SysTick_Config lib v n) = (lib_board lib n)\<lparr>bd_irq := (bd_irq (lib_board lib n))(SysTick_exc := True)\<rparr>))"

text \<open>The rate of the clock: one update of the timer per so many cycles of its input clock.\<close>

definition cycles_per_tick :: "board \<Rightarrow> nat" where
  "cycles_per_tick b = (TIM_Prescaler (bd_base b) + 1) * (TIM_Period (bd_base b) + 1)"

text \<open>
  After start-up both lights are outputs and off, every other pin is as it was, and the timer counts with its interrupt let through, one tick
  per 28000 cycles.  Whether the two pins drive the lights or are open drains is what
  \<open>junk\<close> says: \<open>led_init\<close> does not assign that field.
\<close>

theorem board_ready:
  fixes n :: 'n and junk :: GPIO_InitTypeDef
  assumes "gpio_lib_ok lib" and "tim_lib_ok lib"
  defines "b \<equiv> lib_board lib (timer_init_board lib (platform_pre_board lib junk n))"
  shows "bd_mode b = for_pins [12, 13] GPIO_Mode_OUT (bd_mode (lib_board lib n))
     \<and> bd_level b = for_pins [12, 13] False (bd_level (lib_board lib n))
     \<and> bd_otype b = for_pins [12, 13] (GPIO_OType junk) (bd_otype (lib_board lib n))
     \<and> bd_counting b \<and> bd_update_it b \<and> bd_irq b TIM2_exc \<and> bd_irq b SysTick_exc \<and> cycles_per_tick b = 28000"
  using assms(1,2) unfolding gpio_lib_ok_def tim_lib_ok_def
  by (simp add: b_def timer_init_board_def platform_pre_board_def led_init_def platform_pre_nvic_def timer_init_nvic_def
      when_clocked_def cycles_per_tick_def Let_def)

text \<open>The library with the board itself as its state.\<close>

definition plain_lib :: "board board_lib" where
  "plain_lib = \<lparr>lib_NVIC_SetPriority = (\<lambda>e p b. b), lib_SysTick_CALIB = (\<lambda>_. 0),
     lib_SysTick_Config = (\<lambda>v b. b\<lparr>bd_irq := (bd_irq b)(SysTick_exc := True)\<rparr>),
     lib_NVIC_Init = (\<lambda>e p q on b. b\<lparr>bd_irq := (bd_irq b)(e := on)\<rparr>), lib_level = (\<lambda>_ _. 0),
     lib_RCC_AHB1PeriphClockCmd = (\<lambda>p on b. b\<lparr>bd_clocked := (bd_clocked b)(p := on)\<rparr>),
     lib_RCC_APB1PeriphClockCmd = (\<lambda>p on b. b\<lparr>bd_clocked := (bd_clocked b)(p := on)\<rparr>),
     lib_GPIO_Init = (\<lambda>g. when_clocked GPIOD (\<lambda>b. b\<lparr>bd_mode := for_pins (GPIO_Pin g) (GPIO_Mode g) (bd_mode b),
          bd_otype := for_pins (GPIO_Pin g) (GPIO_OType g) (bd_otype b)\<rparr>)),
     lib_GPIO_WriteBit = (\<lambda>ps v. when_clocked GPIOD (\<lambda>b. b\<lparr>bd_level := for_pins ps v (bd_level b)\<rparr>)),
     lib_TIM_TimeBaseInit = (\<lambda>t. when_clocked TIM2 (\<lambda>b. b\<lparr>bd_base := t\<rparr>)),
     lib_TIM_Cmd = (\<lambda>on. when_clocked TIM2 (\<lambda>b. b\<lparr>bd_counting := on\<rparr>)),
     lib_TIM_ITConfig = (\<lambda>on. when_clocked TIM2 (\<lambda>b. b\<lparr>bd_update_it := on\<rparr>)), lib_board = (\<lambda>b. b)\<rparr>"

theorem board_ready_witness:
  "gpio_lib_ok plain_lib \<and> tim_lib_ok plain_lib
     \<and> cycles_per_tick (lib_board plain_lib (timer_init_board plain_lib (platform_pre_board plain_lib junk b))) = 28000"
proof -
  have "gpio_lib_ok plain_lib" "tim_lib_ok plain_lib" by (simp_all add: gpio_lib_ok_def tim_lib_ok_def plain_lib_def)
  with board_ready [OF this] show ?thesis by blast
qed

end
