(* ===== verification/TestList.thy ===== *)
theory TestList
  imports InitC
begin

text \<open>
  The list test of the repository (\<open>test_list/test_list.c\<close>) and the frame that starts a test
  (\<open>test_common/test_common.c\<close>), run on the model of the kernel from reset.
\<close>

section \<open>The programs\<close>

primrec block :: "('s, unit) M list \<Rightarrow> ('s, unit) M" where
  "block [] = ret ()"
| "block (m # ms) = seqM m (block ms)"

text \<open>\<open>assert(v == call)\<close>.\<close>

definition expect :: "'a \<Rightarrow> 'a K \<Rightarrow> unit K" where
  "expect v m = bindM m (\<lambda>w. assertM (v = w))"

text \<open>
  The test up to the call of \<open>test_pass\<close>, in which it stays; the local variables \<open>l\<close>, \<open>n1\<close> and \<open>n2\<close> are
  arguments.
\<close>

definition test_list_f :: "addr \<Rightarrow> addr \<Rightarrow> addr \<Rightarrow> unit K" where
  "test_list_f l n1 n2 = block [
     in_nodes (list_init l),
     set_prio (Obj n1) (mk_prio 3),
     set_name (Obj n1) (Some ''one''),
     set_prio (Obj n2) (mk_prio 8),
     set_name (Obj n2) (Some ''two''),

     expect True (in_nodes (list_is_empty l)),
     expect NULL (in_nodes (list_get_head l)),

     in_nodes (list_add_tail l (Obj n1)),
     expect False (in_nodes (list_is_empty l)),
     expect (Obj n1) (in_nodes (list_get_head l)),

     in_nodes (list_add_tail l (Obj n2)),
     expect (Obj n1) (in_nodes (list_get_head l)),

     expect (Obj n1) (in_nodes (list_find l (Some ''one''))),
     expect (Obj n2) (in_nodes (list_find l (Some ''two''))),

     bindM (in_nodes (list_rem_head l)) (\<lambda>_. ret ()),
     expect (Obj n2) (in_nodes (list_get_head l)),
     expect NULL (in_nodes (list_find l (Some ''one''))),
     bindM (in_nodes (list_rem_head l)) (\<lambda>_. ret ()),

     in_nodes (list_enqueue l (Obj n1)),
     expect (Obj n1) (in_nodes (list_get_head l)),
     in_nodes (list_enqueue l (Obj n2)),
     expect (Obj n2) (in_nodes (list_get_head l)),
     in_nodes (list_unlink (Obj n1)),
     expect (Obj n2) (in_nodes (list_get_head l)),

     in_nodes (list_enqueue l (Obj n1)),
     expect (Obj n2) (in_nodes (list_get_head l)),

     expect (Obj n2) (in_nodes (list_rem_head l)),
     expect (Obj n1) (in_nodes (list_rem_head l)),
     expect NULL (in_nodes (list_rem_head l)),
     expect NULL (in_nodes (list_rem_head l)),

     expect (mk_prio 3) (get_prio (Obj n1)),
     expect (mk_prio 8) (get_prio (Obj n2)),
     expect NULL (in_nodes (list_find l (Some ''one''))),
     expect NULL (in_nodes (list_find l (Some ''two'')))]"

definition TEST_STACK_SIZE :: "32 word" where "TEST_STACK_SIZE = 1024"

record test_image =
  ti_test_task :: addr
  ti_test_task_f :: "32 word"
  ti_test_task_stack :: "32 word"

definition test_user_init :: "image \<Rightarrow> test_image \<Rightarrow> unit K" where
  "test_user_init im ti =
     seqM (task_init im (Obj (ti_test_task ti)) (Some ''test'') (mk_prio 0) (ti_test_task_f ti) 0 (ti_test_task_stack ti) TEST_STACK_SIZE)
     (task_schedule (Obj (ti_test_task ti)))"

text \<open>
  A whole run: start-up, the init task, and the context switch that the creation of the test task requested, taken with stack pointer \<open>psp\<close>; then the
  test task, which the switch must have made the running one.
\<close>

definition test_run :: "image \<Rightarrow> test_image \<Rightarrow> 32 word \<Rightarrow> unit K \<Rightarrow> 32 word K" where
  "test_run im ti psp test =
     bindM (platform_pre im) (\<lambda>_.
     seqM (init_task_f (test_user_init im ti)) (
     bindM (gets pendsv) (\<lambda>pending.
     seqM (assertM pending) (
     bindM (PendSV_Handler psp) (\<lambda>fr.
     bindM (gets running) (\<lambda>r.
     seqM (assertM (r = Obj (ti_test_task ti))) (
     seqM test (
     ret fr))))))))"

section \<open>Calls on a test list\<close>

lemma runs_to_block [run_simps]:
  "runs_to (block []) s P = P () s" "runs_to (block (m # ms)) s P = runs_to m s (\<lambda>_ t. runs_to (block ms) t P)"
  by (simp_all add: run_simps)

lemma runs_to_expect [run_simps]: "runs_to (expect v m) s P = runs_to m s (\<lambda>w t. v = w \<and> P () t)"
  by (simp add: expect_def run_simps)

text \<open>
  The state in which the list \<open>l\<close> holds \<open>xs\<close>, the two nodes have their names and priorities, and only the heap of nodes
  has changed since \<open>s\<close>.
\<close>

definition testing :: "kstate \<Rightarrow> lists \<Rightarrow> addr \<Rightarrow> addr \<Rightarrow> addr \<Rightarrow> addr list \<Rightarrow> kstate \<Rightarrow> bool" where
  "testing s L l n1 n2 xs t = (lists_ok (nodes t) (L(l \<mapsto> xs)) \<and> set xs \<subseteq> {n1, n2} \<and> unlinked L n1 \<and> unlinked L n2 \<and> n1 \<noteq> n2
     \<and> nd_name (nodes t (Obj n1)) = Some ''one'' \<and> nd_name (nodes t (Obj n2)) = Some ''two''
     \<and> prio_of (nodes t) n1 = mk_prio 3 \<and> prio_of (nodes t) n2 = mk_prio 8
     \<and> (\<forall>n. n \<notin> {n1, n2} \<longrightarrow> nd_name (nodes t (Obj n)) = nd_name (nodes s (Obj n)) \<and> prio_of (nodes t) n = prio_of (nodes s) n)
     \<and> t = s\<lparr>nodes := nodes t\<rparr>)"

lemma testing_facts:
  assumes "testing s L l n1 n2 xs t"
  shows "dll (nodes t) l xs" "distinct xs" "lists_ok (nodes t) (L(l \<mapsto> xs))" "set xs \<subseteq> {n1, n2}"
    "nd_prio (nodes t (Obj n1)) = mk_prio 3" "nd_prio (nodes t (Obj n2)) = mk_prio 8"
  using assms lists_ok_dll [of "nodes t" "L(l \<mapsto> xs)" l xs] lists_ok_distinct [of "nodes t" "L(l \<mapsto> xs)" l xs]
  by (simp_all add: testing_def prio_of_def)

lemma testing_unlinked:
  assumes "testing s L l n1 n2 xs t" "n \<in> {n1, n2}" "n \<notin> set xs"
  shows "unlinked (L(l \<mapsto> xs)) n"
  using assms by (auto simp: testing_def unlinked_def)

lemma testing_step:
  assumes "testing s L l n1 n2 xs t" "lists_ok h (L(l \<mapsto> ys))" "same_data (nodes t) h" "set ys \<subseteq> {n1, n2}"
  shows "testing s L l n1 n2 ys (t\<lparr>nodes := h\<rparr>)"
  using assms same_data_prio_of [OF assms(3)] by (cases s; cases t) (simp add: testing_def same_data_def)

text \<open>The calls that only look at the list.\<close>

lemma testing_queries:
  assumes "testing s L l n1 n2 xs t"
  shows "runs_to (in_nodes (list_is_empty l)) t P = P (xs = []) t"
    and "runs_to (in_nodes (list_get_head l)) t Q = Q (case xs of [] \<Rightarrow> NULL | x # _ \<Rightarrow> Obj x) t"
    and "runs_to (in_nodes (list_find l (Some ''one''))) t Q = Q (if n1 \<in> set xs then Obj n1 else NULL) t"
    and "runs_to (in_nodes (list_find l (Some ''two''))) t Q = Q (if n2 \<in> set xs then Obj n2 else NULL) t"
    and "runs_to (get_prio (Obj n1)) t R = R (mk_prio 3) t" and "runs_to (get_prio (Obj n2)) t R = R (mk_prio 8) t"
proof -
  note f = testing_facts [OF assms]
  have nm: "names_ok (nodes t) xs" using assms by (auto simp: testing_def names_ok_def c_string_def)
  have find: "find_spec (nodes t) ''one'' xs = (if n1 \<in> set xs then Obj n1 else NULL)"
    "find_spec (nodes t) ''two'' xs = (if n2 \<in> set xs then Obj n2 else NULL)"
    using assms unfolding testing_def find_spec_def
    by (auto split: option.splits simp: find_None_iff find_Some_iff in_set_conv_nth subset_iff)
  show "runs_to (in_nodes (list_is_empty l)) t P = P (xs = []) t"
    "runs_to (in_nodes (list_get_head l)) t Q = Q (case xs of [] \<Rightarrow> NULL | x # _ \<Rightarrow> Obj x) t"
    unfolding runs_to_in_nodes
    by (simp_all add: runs_to_def list_is_empty_dll [OF f(1)] list_get_head_dll [OF f(1)])
  show "runs_to (in_nodes (list_find l (Some ''one''))) t Q = Q (if n1 \<in> set xs then Obj n1 else NULL) t"
    "runs_to (in_nodes (list_find l (Some ''two''))) t Q = Q (if n2 \<in> set xs then Obj n2 else NULL) t"
    unfolding runs_to_in_nodes
    by (simp_all add: runs_to_def list_find_dll [OF f(1) nm] c_string_def find)
  show "runs_to (get_prio (Obj n1)) t R = R (mk_prio 3) t" "runs_to (get_prio (Obj n2)) t R = R (mk_prio 8) t"
    using f(5,6) by (simp_all add: get_prio_def runs_to_def)
qed

text \<open>The calls that change it.\<close>

lemma enqueue_spec_cong:
  "(\<And>a. a \<in> set xs \<Longrightarrow> (p n \<le> p a) = (q n \<le> q a)) \<Longrightarrow> enqueue_spec p n xs = enqueue_spec q n xs"
  unfolding enqueue_spec_def by (induction xs) simp_all

lemma testing_add_tail:
  assumes t: "testing s L l n1 n2 xs t" and n: "n \<in> {n1, n2}" "n \<notin> set xs" and P: "\<And>u. testing s L l n1 n2 (xs @ [n]) u \<Longrightarrow> P () u"
  shows "runs_to (in_nodes (list_add_tail l (Obj n))) t P"
  unfolding runs_to_in_nodes
  by (rule runs_to_weaken [OF lc.add_tail_law [OF testing_facts(3) [OF t] _ testing_unlinked [OF t n]]])
    (use n testing_facts(4) [OF t] in \<open>auto intro!: P testing_step [OF t]\<close>)

lemma testing_enqueue:
  assumes t: "testing s L l n1 n2 xs t" and n: "n \<in> {n1, n2}" "n \<notin> set xs"
    and P: "\<And>u. testing s L l n1 n2 (enqueue_spec (\<lambda>a. if a = n1 then 3 else 8 :: int) n xs) u \<Longrightarrow> P () u"
  shows "runs_to (in_nodes (list_enqueue l (Obj n))) t P"
proof -
  let ?pr = "\<lambda>a. if a = n1 then 3 else 8 :: int"
  have le: "prio_of (nodes t) a \<le> prio_of (nodes t) b \<longleftrightarrow> ?pr a \<le> ?pr b" if "a \<in> {n1, n2}" "b \<in> {n1, n2}" for a b
    using that t by (auto simp: testing_def less_eq_Node_Prio_def prio_val_mk_prio)
  have "prio_of (nodes t) n \<le> prio_of (nodes t) a \<longleftrightarrow> ?pr n \<le> ?pr a" if "a \<in> set xs" for a
    using that testing_facts(4) [OF t] by (intro le n(1)) blast
  then have "enqueue_spec (prio_of (nodes t)) n xs = enqueue_spec ?pr n xs" by (rule enqueue_spec_cong)
  then have "runs_to (list_enqueue l (Obj n)) (nodes t) (\<lambda>_ h. lists_ok h (L(l \<mapsto> enqueue_spec ?pr n xs)) \<and> same_data (nodes t) h)"
    using lc.enqueue_law [OF testing_facts(3) [OF t] _ testing_unlinked [OF t n], of l xs] by simp
  moreover have "P x u" if "testing s L l n1 n2 (enqueue_spec ?pr n xs) u" for x u using P [OF that] by simp
  moreover have "set (enqueue_spec ?pr n xs) \<subseteq> {n1, n2}" using n(1) testing_facts(4) [OF t] by auto
  ultimately show ?thesis
    unfolding runs_to_in_nodes by (elim runs_to_weaken) (blast intro: testing_step [OF t])
qed

lemma testing_unlink:
  assumes t: "testing s L l n1 n2 xs t" and n: "n \<in> set xs" and P: "\<And>u. testing s L l n1 n2 (remove1 n xs) u \<Longrightarrow> P () u"
  shows "runs_to (in_nodes (list_unlink (Obj n))) t P"
  unfolding runs_to_in_nodes
  by (rule runs_to_weaken [OF lc.unlink_law [OF testing_facts(3) [OF t] _ n]])
    (use testing_facts(4) [OF t] set_remove1_subset [of n xs] in \<open>auto intro!: P testing_step [OF t]\<close>)

lemma testing_rem_head:
  assumes t: "testing s L l n1 n2 xs t" and P: "\<And>u. testing s L l n1 n2 (tl xs) u \<Longrightarrow> P (case xs of [] \<Rightarrow> NULL | x # _ \<Rightarrow> Obj x) u"
  shows "runs_to (in_nodes (list_rem_head l)) t P"
proof -
  have "set (tl xs) \<subseteq> {n1, n2}" using testing_facts(4) [OF t] by (cases xs) simp_all
  moreover have "runs_to (list_rem_head l) (nodes t) (\<lambda>r h. r = (case xs of [] \<Rightarrow> NULL | x # _ \<Rightarrow> Obj x)
      \<and> lists_ok h (L(l \<mapsto> tl xs)) \<and> same_data (nodes t) h)"
    using lc.rem_head_law [OF testing_facts(3) [OF t], of l xs] by simp
  ultimately show ?thesis
    unfolding runs_to_in_nodes by (elim runs_to_weaken) (blast intro: P testing_step [OF t])
qed


text \<open>The first five statements.\<close>

lemma testing_start:
  assumes ok: "lists_ok (nodes s) L" and n: "unlinked L n1" "unlinked L n2" "n1 \<noteq> n2"
    and P: "\<And>u. testing s L l n1 n2 [] u \<Longrightarrow> runs_to (block ms) u P"
  shows "runs_to (block (in_nodes (list_init l) # set_prio (Obj n1) (mk_prio 3) # set_name (Obj n1) (Some ''one'')
     # set_prio (Obj n2) (mk_prio 8) # set_name (Obj n2) (Some ''two'') # ms)) s P"
proof -
  let ?h = "\<lambda>h. h(Obj n1 := (h (Obj n1))\<lparr>nd_prio := mk_prio 3, nd_name := Some ''one''\<rparr>,
      Obj n2 := (h (Obj n2))\<lparr>nd_prio := mk_prio 8, nd_name := Some ''two''\<rparr>)"
  have swap: "nd\<lparr>nd_prio := v, nd_name := nm\<rparr> = nd\<lparr>nd_name := nm, nd_prio := v\<rparr>" for nd :: Node and v nm by (cases nd) simp
  have "testing s L l n1 n2 [] (s\<lparr>nodes := ?h h\<rparr>)" if h: "lists_ok h (L(l \<mapsto> []))" "same_data (nodes s) h" for h
  proof -
    have "lists_ok (?h h) (L(l \<mapsto> []))"
      using lists_ok_set_name_prio [OF lists_ok_set_name_prio [OF h(1), where p = "Obj n1"], where p = "Obj n2"] n(3) by (simp add: swap)
    then show ?thesis using n h(2) by (simp add: testing_def prio_of_def same_data_def)
  qed
  then show ?thesis
    using P n(3) unfolding runs_to_block runs_to_in_nodes
    by (intro runs_to_weaken [OF lc.init_law [OF ok, of l]]) (simp add: set_prio_def set_name_def runs_to_def)
qed

lemma test_list_runs:
  assumes ok: "lists_ok (nodes s) L" and n: "unlinked L n1" "unlinked L n2" "n1 \<noteq> n2"
  shows "runs_to (test_list_f l n1 n2) s (\<lambda>_ t. testing s L l n1 n2 [] t)"
proof -
  have eq: "enqueue_spec (\<lambda>a. if a = n1 then 3 else 8 :: int) n1 [] = [n1]" "enqueue_spec (\<lambda>a. if a = n1 then 3 else 8 :: int) n2 [n1] = [n2, n1]"
    "enqueue_spec (\<lambda>a. if a = n1 then 3 else 8 :: int) n1 [n2] = [n2, n1]"
    using n(3) by (simp_all add: enqueue_spec_def)
  note q = testing_queries eq n(3) n(3) [symmetric] runs_to_block runs_to_expect runs_to_seqM runs_to_bindM runs_to_ret
  show ?thesis
    unfolding test_list_f_def
    apply (rule testing_start [OF ok n])
    apply (simp add: q)
    apply (erule testing_add_tail, (simp add: q), (simp add: q))
    apply (simp add: q)
    apply (erule testing_add_tail, (simp add: q), (simp add: q))
    apply (simp add: q)
    apply (erule testing_rem_head)
    apply (simp add: q)
    apply (erule testing_rem_head)
    apply (simp add: q)
    apply (erule testing_enqueue, (simp add: q), (simp add: q))
    apply (simp add: q)
    apply (erule testing_enqueue, (simp add: q), (simp add: q))
    apply (simp add: q)
    apply (erule testing_unlink, (simp add: q))
    apply (simp add: q)
    apply (erule testing_enqueue, (simp add: q), (simp add: q))
    apply (simp add: q)
    apply (erule testing_rem_head)
    apply (simp add: q)
    apply (erule testing_rem_head)
    apply (simp add: q)
    apply (erule testing_rem_head)
    apply (simp add: q)
    apply (erule testing_rem_head)
    apply (simp add: q)
    apply (subst testing_queries(6), assumption, simp add: q)
    done
qed

section \<open>From reset to the test task\<close>

text \<open>What the memory image has to provide: a stack for the test task and an address zero that is readable and does not hold a task's name.\<close>

definition test_bootable :: "image \<Rightarrow> test_image \<Rightarrow> 32 word \<Rightarrow> kstate \<Rightarrow> bool" where
  "test_bootable im ti psp s = (reset_ok im s \<and> ti_test_task ti \<noteq> init_addr
     \<and> (case null_name s of None \<Rightarrow> False | Some b \<Rightarrow> strcmp_chars ''init'' b \<noteq> 0 \<and> strcmp_chars ''test'' b \<noteq> 0)
     \<and> ti_test_task_stack ti mod 4 = 0 \<and> unat (ti_test_task_stack ti) + 1024 < 2 ^ 32
     \<and> im_init_task_stack im \<le> psp - 32 \<and> psp + 32 \<le> im_init_task_stack im + INIT_TASK_STACK_SIZE)"

definition test_started :: "test_image \<Rightarrow> kstate \<Rightarrow> bool" where
  "test_started ti t = (kern t [ready \<mapsto> [init_addr], waiting \<mapsto> [], timers \<mapsto> []] (ti_test_task ti) [init_addr] []
     \<and> \<not> pendsv t \<and> \<not> primask t \<and> ram t (cx_frame (tk_context (tasks t (Obj (ti_test_task ti)))) + OFF_pc) = ti_test_task_f ti)"

lemma test_task_created:
  assumes t: "booted t" "tasks t init_task = init_fields im TASK_RUNNING" "null_name t = null_name s" and b: "test_bootable im ti psp s"
  shows "runs_to (test_user_init im ti) t (\<lambda>_ u. kern u [ready \<mapsto> [ti_test_task ti], waiting \<mapsto> [], timers \<mapsto> []] init_addr [ti_test_task ti] []
     \<and> pendsv u \<and> \<not> primask u \<and> tasks u init_task = init_fields im TASK_RUNNING \<and> prio_of (nodes u) init_addr = TASK_PRIO_MIN
     \<and> ram u (cx_frame (tk_context (tasks u (Obj (ti_test_task ti)))) + OFF_pc) = ti_test_task_f ti)"
proof -
  let ?a = "ti_test_task ti" and ?L = "boot_lists(timers \<mapsto> [])"
  obtain z where z: "null_name t = Some z" "strcmp_chars ''test'' z \<noteq> 0"
    using b t(3) by (auto simp: test_bootable_def split: option.splits)
  have k: "kern t ?L init_addr [] []" and n: "id_nestcnt t = - 1" "nest_room 1 t" and p: "prio_of (nodes t) init_addr = TASK_PRIO_MIN"
    using t(1) by (simp_all add: booted_def nest_room_def INT32_MAX_def)
  have a: "unlinked ?L ?a" "?a \<noteq> init_addr" using b by (auto simp: unlinked_def boot_lists_def test_bootable_def split: if_splits)
  have sz: "TEST_STACK_SIZE mod 4 = 0" "64 \<le> TEST_STACK_SIZE" "unat (ti_test_task_stack ti) + unat TEST_STACK_SIZE < 2 ^ 32" "ti_test_task_stack ti mod 4 = 0"
    using b by (simp_all add: TEST_STACK_SIZE_def test_bootable_def)
  have "runs_to (test_user_init im ti) t (\<lambda>_ u. created_post t ?L init_addr [] [] ?a ''test'' (mk_prio 0) (ti_test_task_f ti) u)"
    unfolding test_user_init_def
    by (rule task_created [OF k n(2) a _ _ _ z sz(4,1,2,3)]) (simp_all add: names_ok_def c_string_def find_spec_def)
  then show ?thesis
  proof (rule runs_to_weaken)
    fix x u assume u: "created_post t ?L init_addr [] [] ?a ''test'' (mk_prio 0) (ti_test_task_f ti) u"
    have q: "enqueue_spec pr ?a [] = [?a]" for pr :: "addr \<Rightarrow> Node_Prio" by (simp add: enqueue_spec_def)
    have "?L(ready \<mapsto> [?a]) = [ready \<mapsto> [?a], waiting \<mapsto> [], timers \<mapsto> []]"
      using static_lists_distinct by (auto simp: boot_lists_def fun_eq_iff)
    moreover have "id_nestcnt u = - 1" and "kern u (?L(ready \<mapsto> [?a])) init_addr [?a] []" using u n(1) by (auto simp: created_post_def q)
    moreover have "\<not> primask u" using kern_lists(5) [OF calculation(3)] calculation(2) by (simp add: irq_ok_def)
    ultimately show "kern u [ready \<mapsto> [?a], waiting \<mapsto> [], timers \<mapsto> []] init_addr [?a] [] \<and> pendsv u \<and> \<not> primask u
       \<and> tasks u init_task = init_fields im TASK_RUNNING \<and> prio_of (nodes u) init_addr = TASK_PRIO_MIN
       \<and> ram u (cx_frame (tk_context (tasks u (Obj ?a))) + OFF_pc) = ti_test_task_f ti"
      using u t(2) p a(2) by (auto simp: created_post_def init_task_def)
  qed
qed

lemma test_task_entered:
  assumes k: "kern u [ready \<mapsto> [ti_test_task ti], waiting \<mapsto> [], timers \<mapsto> []] init_addr [ti_test_task ti] []"
    and u: "\<not> primask u" "tasks u init_task = init_fields im TASK_RUNNING" "prio_of (nodes u) init_addr = TASK_PRIO_MIN"
      "ram u (cx_frame (tk_context (tasks u (Obj (ti_test_task ti)))) + OFF_pc) = ti_test_task_f ti"
    and b: "test_bootable im ti psp s"
  shows "runs_to (PendSV_Handler psp) u (\<lambda>fr t. test_started ti t \<and> ram t (fr + OFF_pc) = ti_test_task_f ti)"
proof -
  let ?a = "ti_test_task ti"
  have a: "?a \<noteq> init_addr" using b by (simp add: test_bootable_def)
  have q: "switch_queue u init_addr [?a] [] = [?a, init_addr]"
    using a u(3) by (simp add: switch_queue_def enqueue_spec_def prio_min_le)
  have f: "frame_fits (psp - 32) (tk_context (tasks u (Obj init_addr)))"
    using b u(2) by (simp add: frame_fits_def init_task_def init_fields_def Let_def test_bootable_def SIZEOF_StackFrame_def INIT_TASK_STACK_SIZE_def add.commute)
  show ?thesis
  proof (rule runs_to_weaken [OF PendSV_kern [OF k u(1) f]])
    fix v t assume t: "switch_post u [ready \<mapsto> [?a], waiting \<mapsto> [], timers \<mapsto> []] init_addr [?a] [] (psp - 32) v t"
    have "[ready \<mapsto> [?a], waiting \<mapsto> [], timers \<mapsto> []](ready \<mapsto> [init_addr]) = [ready \<mapsto> [init_addr], waiting \<mapsto> [], timers \<mapsto> []]"
      using static_lists_distinct by (auto simp: fun_eq_iff)
    then show "test_started ti t \<and> ram t (v + OFF_pc) = ti_test_task_f ti"
      using t u(1,4) a by (simp add: switch_post_def q Let_def test_started_def same_defs switch_tasks_def)
  qed
qed

lemma test_run_reaches:
  assumes b: "test_bootable im ti psp s" and test: "\<And>t. test_started ti t \<Longrightarrow> runs_to test t (\<lambda>_ u. ram u = ram t \<and> Q u)"
  shows "runs_to (test_run im ti psp test) s (\<lambda>fr u. ram u (fr + OFF_pc) = ti_test_task_f ti \<and> Q u)"
proof -
  obtain z where z: "reset_ok im s" "null_name s = Some z" "strcmp_chars ''init'' z \<noteq> 0"
    using b by (auto simp: test_bootable_def split: option.splits)
  have "runs_to test t (\<lambda>_ u. ram u (fr + OFF_pc) = ti_test_task_f ti \<and> Q u)" if "test_started ti t" "ram t (fr + OFF_pc) = ti_test_task_f ti" for fr t
    by (rule runs_to_weaken [OF test [OF that(1)]]) (use that(2) in simp)
  moreover have "running t = Obj (ti_test_task ti)" if "test_started ti t" for t using that by (simp add: test_started_def kern_def)
  ultimately have run: "runs_to (bindM (PendSV_Handler psp) (\<lambda>fr. bindM (gets running) (\<lambda>r.
     seqM (assertM (r = Obj (ti_test_task ti))) (seqM test (ret fr))))) u (\<lambda>fr u. ram u (fr + OFF_pc) = ti_test_task_f ti \<and> Q u)"
    if "kern u [ready \<mapsto> [ti_test_task ti], waiting \<mapsto> [], timers \<mapsto> []] init_addr [ti_test_task ti] []" "\<not> primask u"
      "tasks u init_task = init_fields im TASK_RUNNING" "prio_of (nodes u) init_addr = TASK_PRIO_MIN"
      "ram u (cx_frame (tk_context (tasks u (Obj (ti_test_task ti)))) + OFF_pc) = ti_test_task_f ti" for u
    unfolding run_simps by (intro runs_to_weaken [OF test_task_entered [OF that b]]) simp
  have "runs_to (init_task_f (test_user_init im ti)) t (\<lambda>_ u. pendsv u \<and> runs_to (bindM (PendSV_Handler psp) (\<lambda>fr. bindM (gets running) (\<lambda>r.
     seqM (assertM (r = Obj (ti_test_task ti))) (seqM test (ret fr))))) u (\<lambda>fr u. ram u (fr + OFF_pc) = ti_test_task_f ti \<and> Q u))"
    if "boot_post im s t" for t
    by (intro init_task_f_boots [OF that] runs_to_weaken [OF test_task_created [OF _ _ _ b]]) (use run in blast)+
  then show ?thesis
    unfolding test_run_def platform_pre_def runs_to_bindM
    by (intro runs_to_weaken [OF martos_pre_ok [OF z]]) (auto simp: run_simps init_task_not_NULL)
qed

section \<open>Properties\<close>

text \<open>
  C14: The list test of the repository passes.  From any memory contents after reset, start-up, the creation of the test task
  and the context switch enter \<open>test_task_f\<close>, and with its two nodes and its list disjoint from the objects of the kernel every assertion of the test
  holds: the run reaches \<open>test_pass\<close>.  The list is empty then and the lists of the kernel are as they were.
\<close>

theorem list_test_passes:
  assumes "test_bootable im ti psp s" and "n1 \<noteq> n2" and "{n1, n2} \<inter> {init_addr, ti_test_task ti} = {}" and "l \<notin> {ready, waiting, timers}"
  shows "runs_to (test_run im ti psp (test_list_f l n1 n2)) s (\<lambda>fr u. ram u (fr + OFF_pc) = ti_test_task_f ti
     \<and> running u = Obj (ti_test_task ti) \<and> dll (nodes u) l []
     \<and> lists_ok (nodes u) [ready \<mapsto> [init_addr], waiting \<mapsto> [], timers \<mapsto> [], l \<mapsto> []])"
proof (rule test_run_reaches [OF assms(1)])
  fix t assume t: "test_started ti t"
  let ?L = "[ready \<mapsto> [init_addr], waiting \<mapsto> [], timers \<mapsto> []]"
  have "lists_ok (nodes t) ?L" "running t = Obj (ti_test_task ti)" using t by (simp_all add: test_started_def kern_def)
  moreover have "unlinked ?L n1" "unlinked ?L n2" using assms(3) by (auto simp: unlinked_def split: if_splits)
  ultimately show "runs_to (test_list_f l n1 n2) t (\<lambda>_ u. ram u = ram t \<and> running u = Obj (ti_test_task ti)
      \<and> dll (nodes u) l [] \<and> lists_ok (nodes u) (?L(l \<mapsto> [])))"
  proof (intro runs_to_weaken [OF test_list_runs [of t ?L n1 n2 l]], goal_cases)
    case (5 x u)
    then have "u = t\<lparr>nodes := nodes u\<rparr>" by (simp add: testing_def)
    from arg_cong [OF this, of ram] arg_cong [OF this, of running] show ?case
      using 5 testing_facts(1,3) [of t ?L l n1 n2 "[]" u] by simp
  qed (use assms(2) in auto)
qed

definition test_im :: test_image where
  "test_im = \<lparr>ti_test_task = 9, ti_test_task_f = 0x8000201, ti_test_task_stack = 0x20004000\<rparr>"

theorem list_test_passes_witness:
  "runs_to (test_run im0 test_im (im_init_task_stack im0 + 1024) (test_list_f 70 71 72)) reset_state (\<lambda>fr u. ram u (fr + OFF_pc) = ti_test_task_f test_im
     \<and> running u = Obj (ti_test_task test_im) \<and> dll (nodes u) 70 []
     \<and> lists_ok (nodes u) [ready \<mapsto> [init_addr], waiting \<mapsto> [], timers \<mapsto> [], 70 \<mapsto> []])"
  by (rule list_test_passes)
    (use reset_state_ok in \<open>simp_all add: test_bootable_def test_im_def init_addr_def ready_def waiting_def timers_def im0_def INIT_TASK_STACK_SIZE_def\<close>)

end
