(* ===== verification/NetProj.thy ===== *)
theory NetProj
  imports TimerProps
begin

unbundle bit_operations_syntax

text \<open>
  The demonstration application, \<open>netproj/n.c\<close>: two tasks that act every 250 ticks, one of which also sends a
  datagram, and the function that creates them.  lwIP and the peripheral library are a parameter.
\<close>

section \<open>The program\<close>

text \<open>The kernel's state, and whatever the libraries keep.\<close>

record 'e app =
  ap_ker :: kstate
  ap_ext :: 'e

text \<open>
  The functions of lwIP and of the peripheral library that \<open>n.c\<close> calls.  Those of lwIP may use the kernel;
  \<open>GPIO_ToggleBits\<close> only writes to a port.
\<close>

record 'e netlib =
  GPIO_ToggleBits :: "nat \<Rightarrow> 'e \<Rightarrow> 'e"
  netconn_new :: "('e app, ptr) M"
  netconn_connect :: "ptr \<Rightarrow> nat list \<Rightarrow> nat \<Rightarrow> ('e app, int) M"
  netbuf_new :: "('e app, ptr) M"
  netbuf_ref :: "ptr \<Rightarrow> string \<Rightarrow> nat \<Rightarrow> ('e app, int) M"
  netconn_send :: "ptr \<Rightarrow> ptr \<Rightarrow> ('e app, int) M"
  tcpip_init :: "('e app, unit) M"
  netif_find :: "string \<Rightarrow> ('e app, ptr) M"
  netif_set_default :: "ptr \<Rightarrow> ('e app, unit) M"
  udpecho_init :: "('e app, unit) M"
  err_ok :: int

definition app_call :: "'a K \<Rightarrow> ('e app, 'a) M" where
  "app_call m = on_field ap_ker (\<lambda>s a. a\<lparr>ap_ker := s\<rparr>) m"

definition toggle :: "'e netlib \<Rightarrow> nat \<Rightarrow> ('e app, unit) M" where
  "toggle lib pin = modify (\<lambda>a. a\<lparr>ap_ext := GPIO_ToggleBits lib pin (ap_ext a)\<rparr>)"

text \<open>The set-up of the alarm, the same in both tasks; \<open>x\<close> is the local variable \<open>timer\<close>.\<close>

definition alarm_start :: "addr \<Rightarrow> unit K" where
  "alarm_start x =
     seqM (timer_allocate (Obj x)) (
     seqM (set_timer (Obj x) (\<lambda>t. t\<lparr>tm_op := TIMER_ALARM\<rparr>)) (
     bindM timer_get_clock (\<lambda>now.
     set_timer (Obj x) (\<lambda>t. t\<lparr>tm_tick := now\<rparr>))))"

text \<open>The end of a round: \<open>None\<close> if the alarm had already elapsed, otherwise the result of \<open>signal_wait\<close>.\<close>

definition alarm_wait :: "addr \<Rightarrow> wait_result option K" where
  "alarm_wait x =
     seqM (timer_add (Obj x)) (
     bindM (get_timer (Obj x) tm_status) (\<lambda>st.
     if TIMER_ADDED = st then
       bindM (get_timer (Obj x) tm_signal) (\<lambda>g.
       bindM (signal_wait g) (\<lambda>w. ret (Some w)))
     else ret None))"

definition n1_round :: "'e netlib \<Rightarrow> ptr \<Rightarrow> ptr \<Rightarrow> addr \<Rightarrow> ('e app, wait_result option) M" where
  "n1_round lib conn buf x =
     seqM (app_call (set_timer (Obj x) (\<lambda>t. t\<lparr>tm_tick := tm_tick t + 250\<rparr>))) (
     bindM (netconn_send lib conn buf) (\<lambda>res.
     seqM (assertM (err_ok lib = res)) (
     seqM (toggle lib 13) (
     app_call (alarm_wait x)))))"

definition n2_round :: "'e netlib \<Rightarrow> addr \<Rightarrow> ('e app, wait_result option) M" where
  "n2_round lib x =
     seqM (app_call (set_timer (Obj x) (\<lambda>t. t\<lparr>tm_tick := tm_tick t + 250\<rparr>))) (
     seqM (toggle lib 12) (
     app_call (alarm_wait x)))"

text \<open>
  The endless loop up to the next time the task blocks, with the nesting count it leaves on its stack; \<open>None\<close> if it has
  not blocked after so many rounds.
\<close>

primrec rounds :: "('e app, wait_result option) M \<Rightarrow> nat \<Rightarrow> ('e app, int option) M" where
  "rounds body 0 = ret None"
| "rounds body (Suc k) = bindM body (\<lambda>w. case w of Some (Blocked n) \<Rightarrow> ret (Some n) | _ \<Rightarrow> rounds body k)"

definition n1_f :: "'e netlib \<Rightarrow> addr \<Rightarrow> nat \<Rightarrow> ('e app, int option) M" where
  "n1_f lib x k =
     bindM (netconn_new lib) (\<lambda>conn.
     seqM (assertM (NULL \<noteq> conn)) (
     bindM (netconn_connect lib conn [127, 0, 0, 1] 7) (\<lambda>res.
     seqM (assertM (err_ok lib = res)) (
     bindM (netbuf_new lib) (\<lambda>buf.
     seqM (assertM (NULL \<noteq> buf)) (
     bindM (netbuf_ref lib buf ''Internet of things'' (length ''Internet of things'' + 1)) (\<lambda>res.
     seqM (assertM (err_ok lib = res)) (
     seqM (app_call (alarm_start x)) (
     rounds (n1_round lib conn buf x) k)))))))))"

definition n2_f :: "'e netlib \<Rightarrow> addr \<Rightarrow> nat \<Rightarrow> ('e app, int option) M" where
  "n2_f lib x k = seqM (app_call (alarm_start x)) (rounds (n2_round lib x) k)"

text \<open>The task runs again inside \<open>signal_wait\<close> and goes on with the loop.\<close>

definition n2_resume :: "'e netlib \<Rightarrow> addr \<Rightarrow> Signals \<Rightarrow> int \<Rightarrow> nat \<Rightarrow> ('e app, int option) M" where
  "n2_resume lib x g n k =
     bindM (app_call (signal_wait_resume g n)) (\<lambda>w. case w of Blocked m \<Rightarrow> ret (Some m) | Returned _ \<Rightarrow> rounds (n2_round lib x) k)"

definition N_STACK_SIZE :: "32 word" where "N_STACK_SIZE = 4096"

record net_image =
  ni_n1 :: addr
  ni_n2 :: addr
  ni_n1_f :: "32 word"
  ni_n2_f :: "32 word"
  ni_n1_stack :: "32 word"
  ni_n2_stack :: "32 word"

definition net_setup :: "'e netlib \<Rightarrow> ('e app, unit) M" where
  "net_setup lib =
     seqM (tcpip_init lib) (
     bindM (netif_find lib ''lo0'') (\<lambda>loif.
     seqM (assertM (NULL \<noteq> loif)) (
     seqM (netif_set_default lib loif) (
     udpecho_init lib))))"

definition user_tasks :: "image \<Rightarrow> net_image \<Rightarrow> unit K" where
  "user_tasks im ni =
     seqM (task_init im (Obj (ni_n1 ni)) (Some ''n1'') (mk_prio 0) (ni_n1_f ni) 0 (ni_n1_stack ni) N_STACK_SIZE) (
     seqM (task_init im (Obj (ni_n2 ni)) (Some ''n2'') (mk_prio (- 1)) (ni_n2_f ni) 0 (ni_n2_stack ni) N_STACK_SIZE) (
     seqM (task_schedule (Obj (ni_n1 ni))) (
     task_schedule (Obj (ni_n2 ni)))))"

definition user_init :: "'e netlib \<Rightarrow> image \<Rightarrow> net_image \<Rightarrow> ('e app, unit) M" where
  "user_init lib im ni = seqM (net_setup lib) (app_call (user_tasks im ni))"

lemma runs_to_app_call [run_simps]: "runs_to (app_call m) a P = runs_to m (ap_ker a) (\<lambda>v s. P v (a\<lparr>ap_ker := s\<rparr>))"
  by (simp add: app_call_def run_simps)

lemma runs_to_toggle [run_simps]: "runs_to (toggle lib pin) a P = P () (a\<lparr>ap_ext := GPIO_ToggleBits lib pin (ap_ext a)\<rparr>)"
  by (simp add: toggle_def run_simps)

section \<open>Rounds of the alarm\<close>

text \<open>Before a round: the task runs, its timer is not queued and is an alarm of its own, with a signal that is not pending.\<close>

definition alarm_ok :: "kstate \<Rightarrow> lists \<Rightarrow> addr \<Rightarrow> addr list \<Rightarrow> addr list \<Rightarrow> addr list \<Rightarrow> addr \<Rightarrow> bool" where
  "alarm_ok s L r rs ws xs x = (kern s L r rs ws \<and> r \<notin> set rs \<and> r \<notin> set ws \<and> r \<noteq> init_addr
     \<and> timers_ok s L r (insert r (set rs \<union> set ws)) xs \<and> unlinked L x \<and> x \<notin> insert r (set rs \<union> set ws)
     \<and> tm_op (tmrs s (Obj x)) = TIMER_ALARM \<and> tm_task (tmrs s (Obj x)) = Obj r
     \<and> tm_status (tmrs s (Obj x)) \<in> {TIMER_INITIALIZED, TIMER_DONE, TIMER_ABORTED}
     \<and> tm_signal (tmrs s (Obj x)) AND tk_sig_recvd (tasks s (Obj r)) = 0)"

definition with_tick :: "kstate \<Rightarrow> addr \<Rightarrow> Ticks \<Rightarrow> kstate" where
  "with_tick s x t = s\<lparr>tmrs := (tmrs s)(Obj x := (tmrs s (Obj x))\<lparr>tm_tick := t\<rparr>)\<rparr>"

lemma alarm_ok_timer:
  assumes a: "alarm_ok s L r rs ws xs x" and u: "u = s\<lparr>tmrs := (tmrs s)(Obj x := T)\<rparr>"
    and T: "tm_op T = TIMER_ALARM" "tm_task T = Obj r" "tm_status T \<in> {TIMER_INITIALIZED, TIMER_DONE, TIMER_ABORTED}"
      "tm_signal T = tm_signal (tmrs s (Obj x))"
  shows "alarm_ok u L r rs ws xs x"
proof -
  have k: "kern s L r rs ws" and t: "timers_ok s L r (insert r (set rs \<union> set ws)) xs" and x: "unlinked L x"
    using a by (simp_all add: alarm_ok_def)
  have ku: "kern u L r rs ws" using k by (simp add: u)
  have "x \<notin> set xs" using unlinkedD [OF x] timers_ok_facts(2) [OF t] by blast
  then have "timers_ok u L r (insert r (set rs \<union> set ws)) xs"
    by (intro timers_ok_other [OF t aliveI [OF ku]]) (auto simp: u)
  then show ?thesis using a ku T by (auto simp: alarm_ok_def u)
qed

text \<open>A round whose alarm has elapsed already, and one that blocks.\<close>

lemma alarm_wait_elapsed:
  assumes a: "alarm_ok s L r rs ws xs x" and t: "tm_tick (tmrs s (Obj x)) \<le> timer_now s"
  shows "runs_to (alarm_wait x) s (\<lambda>v u. v = None \<and> alarm_ok u L r rs ws xs x \<and> u = with_timer s x TIMER_ABORTED)"
proof -
  have ad: "timer_addable s (insert r (set rs \<union> set ws)) x" and tick: "added_tick s x = tm_tick (tmrs s (Obj x))"
    using a by (auto simp: alarm_ok_def timer_addable_def added_tick_def Let_def)
  have "alarm_ok (with_timer s x TIMER_ABORTED) L r rs ws xs x"
    unfolding with_timer_def by (rule alarm_ok_timer [OF a refl]) (use a in \<open>auto simp: alarm_ok_def\<close>)
  moreover have "tm_status (tmrs (with_timer s x TIMER_ABORTED) (Obj x)) = TIMER_ABORTED" by (simp add: with_timer_def)
  ultimately show ?thesis
    unfolding alarm_wait_def run_simps
    by (intro runs_to_weaken [OF timer_add_elapsed [OF ad]]) (use t tick in \<open>simp_all add: run_simps\<close>)
qed

text \<open>The task \<open>r\<close> is blocked until its alarm at \<open>tick\<close>.\<close>

definition alarm_set :: "kstate \<Rightarrow> addr \<Rightarrow> addr set \<Rightarrow> addr set \<Rightarrow> addr \<Rightarrow> Ticks \<Rightarrow> bool" where
  "alarm_set u r ts xs x tick = (pendsv u \<and> tm_task (tmrs u (Obj x)) = Obj r \<and> tm_tick (tmrs u (Obj x)) = tick
     \<and> tk_state (tasks u (Obj r)) = TASK_WAITING \<and> tk_sig_wait (tasks u (Obj r)) = tm_signal (tmrs u (Obj x))
     \<and> (\<exists>q L'. timers_ok u L' r ts q \<and> set q = insert x xs))"

lemma alarm_wait_blocks:
  assumes a: "alarm_ok s L r rs ws xs x" and t: "timer_now s < tm_tick (tmrs s (Obj x))" and n: "nest_room 1 s"
  shows "runs_to (alarm_wait x) s (\<lambda>v u. v = Some (Blocked (to_int16 (id_nestcnt s + 1)))
     \<and> alarm_set u r (insert r (set rs \<union> set ws)) (set xs) x (tm_tick (tmrs s (Obj x))) \<and> timer_now u = timer_now s)"
proof -
  let ?ts = "insert r (set rs \<union> set ws)" and ?s1 = "with_timer s x TIMER_ADDED"
  let ?q = "enqueue_spec (tick_key (tmrs ?s1)) x xs"
  have ad: "timer_addable s ?ts x" and tick: "added_tick s x = tm_tick (tmrs s (Obj x))"
    and k: "kern s L r rs ws" and r: "r \<notin> set rs" "r \<notin> set ws" "r \<noteq> init_addr"
    and tm: "timers_ok s L r ?ts xs" and x: "unlinked L x" "x \<notin> ?ts"
    and g: "tm_signal (tmrs s (Obj x)) AND tk_sig_recvd (tasks s (Obj r)) = 0" and tk: "tm_task (tmrs s (Obj x)) = Obj r"
    using a by (auto simp: alarm_ok_def timer_addable_def added_tick_def Let_def)
  let ?post = "\<lambda>v u. v = Some (Blocked (to_int16 (id_nestcnt s + 1)))
     \<and> alarm_set u r ?ts (set xs) x (tm_tick (tmrs s (Obj x))) \<and> timer_now u = timer_now s"
  have "runs_to (bindM (signal_wait (tm_signal (tmrs s (Obj x)))) (\<lambda>w. ret (Some w))) u ?post"
    if u: "timers_ok u (L(timers \<mapsto> ?q)) r ?ts ?q" "u = ?s1\<lparr>nodes := h\<rparr>" for u h
  proof -
    have ku: "kern u (L(timers \<mapsto> ?q)) r rs ws"
      using timers_ok_facts(1) [OF u(1)] kern_lists(2,3) [OF k] static_lists_distinct by (intro alive_kern(1)) auto
    have nu: "nest_room 1 u" using n by (simp add: nest_room_def u(2))
    have tq: "timers_ok v (L(timers \<mapsto> ?q, waiting \<mapsto> ws @ [r])) r ?ts ?q"
      if "kern v (L(timers \<mapsto> ?q, waiting \<mapsto> ws @ [r])) r rs (ws @ [r])" "tmrs v = tmrs u" for v
      using that aliveI [OF that(1)] static_lists_distinct by (intro timers_ok_other [OF u(1)]) auto
    have fu: "tmrs u (Obj x) = (tmrs s (Obj x))\<lparr>tm_tick := tm_tick (tmrs s (Obj x)), tm_status := TIMER_ADDED\<rparr>"
      "tasks u = tasks s" "id_nestcnt u = id_nestcnt s" "timer_now u = timer_now s"
      by (simp_all add: u(2) with_timer_def tick)
    have "?post (Some w) v" if w: "wait_post u (L(timers \<mapsto> ?q)) r rs ws (tm_signal (tmrs s (Obj x))) (id_nestcnt u + 1) w v" for w v
    proof -
      have v: "w = Blocked (to_int16 (id_nestcnt s + 1))" "kern v (L(timers \<mapsto> ?q, waiting \<mapsto> ws @ [r])) r rs (ws @ [r])" "pendsv v"
        "tasks v = (tasks s)(Obj r := (tasks s (Obj r))\<lparr>tk_sig_wait := tm_signal (tmrs s (Obj x)), tk_state := TASK_WAITING\<rparr>)"
        "tmrs v = tmrs u" "timer_now v = timer_now s"
        using w g by (simp_all add: wait_post_def fu same_store_def)
      show ?thesis using v tk tq [OF v(2,5)] by (auto simp: alarm_set_def fu)
    qed
    then show ?thesis
      by (simp add: run_simps) (intro runs_to_weaken [OF signal_wait_kern [OF ku r nu]], blast)
  qed
  moreover have "tm_status (tmrs (?s1\<lparr>nodes := h\<rparr>) (Obj x)) = TIMER_ADDED" "tm_signal (tmrs (?s1\<lparr>nodes := h\<rparr>) (Obj x)) = tm_signal (tmrs s (Obj x))" for h
    by (simp_all add: with_timer_def)
  ultimately show ?thesis
    unfolding alarm_wait_def runs_to_seqM
    by (intro runs_to_weaken [OF timer_add_queues [OF tm x n ad]]) (use t tick in \<open>auto simp: run_simps\<close>)
qed

text \<open>The number of rounds until an alarm lies in the future, starting from \<open>tick\<close>.\<close>

definition periods :: "Ticks \<Rightarrow> Ticks \<Rightarrow> nat" where
  "periods now tick = (unat now - unat tick) div 250 + 1"

lemma periods_step:
  assumes "unat tick + 250 * periods now tick < 2 ^ 32"
  shows "unat (tick + 250) = unat tick + 250"
    "tick + 250 \<le> now \<Longrightarrow> periods now tick = Suc (periods now (tick + 250))"
    "now < tick + 250 \<Longrightarrow> periods now tick = 1"
proof -
  show u: "unat (tick + 250) = unat tick + 250"
    using assms by (subst unat_add_lem [THEN iffD1]) (simp_all add: periods_def)
  show "tick + 250 \<le> now \<Longrightarrow> periods now tick = Suc (periods now (tick + 250))"
  proof -
    assume "tick + 250 \<le> now"
    then have "unat tick + 250 \<le> unat now" by (simp add: word_le_nat_alt u)
    then have "unat now - unat tick = (unat now - (unat tick + 250)) + 250" by simp
    then show ?thesis unfolding periods_def u by (simp only: div_add_self2)
  qed
  show "now < tick + 250 \<Longrightarrow> periods now tick = 1" by (simp add: periods_def word_less_nat_alt u)
qed

lemma n2_catches_up:
  assumes "alarm_ok s L r rs ws xs x" "nest_room 1 s" "periods (timer_now s) (tm_tick (tmrs s (Obj x))) \<le> k"
    "unat (tm_tick (tmrs s (Obj x))) + 250 * periods (timer_now s) (tm_tick (tmrs s (Obj x))) < 2 ^ 32"
  shows "runs_to (rounds (n2_round lib x) k) \<lparr>ap_ker = s, ap_ext = e\<rparr> (\<lambda>v b. v = Some (to_int16 (id_nestcnt s + 1))
     \<and> ap_ext b = (GPIO_ToggleBits lib 12 ^^ periods (timer_now s) (tm_tick (tmrs s (Obj x)))) e
     \<and> alarm_set (ap_ker b) r (insert r (set rs \<union> set ws)) (set xs) x
         (tm_tick (tmrs s (Obj x)) + 250 * of_nat (periods (timer_now s) (tm_tick (tmrs s (Obj x))))))"
  using assms
proof (induction k arbitrary: s e)
  case 0
  then show ?case by (simp add: periods_def)
next
  case (Suc k)
  let ?t = "tm_tick (tmrs s (Obj x))" and ?s = "with_tick s x (tm_tick (tmrs s (Obj x)) + 250)" and ?e = "GPIO_ToggleBits lib 12 e"
  note p = periods_step [OF Suc.prems(4)]
  have a: "alarm_ok ?s L r rs ws xs x"
    unfolding with_tick_def by (rule alarm_ok_timer [OF Suc.prems(1) refl]) (use Suc.prems(1) in \<open>auto simp: alarm_ok_def\<close>)
  have s: "tm_tick (tmrs ?s (Obj x)) = ?t + 250" "timer_now ?s = timer_now s" "id_nestcnt ?s = id_nestcnt s" "nest_room 1 ?s"
    using Suc.prems(2) by (simp_all add: with_tick_def nest_room_def)
  have run: "runs_to (rounds (n2_round lib x) (Suc k)) \<lparr>ap_ker = s, ap_ext = e\<rparr> P = runs_to (alarm_wait x) ?s (\<lambda>w u.
      case w of Some (Blocked n) \<Rightarrow> P (Some n) \<lparr>ap_ker = u, ap_ext = ?e\<rparr> | _ \<Rightarrow> runs_to (rounds (n2_round lib x) k) \<lparr>ap_ker = u, ap_ext = ?e\<rparr> P)" for P
    by (simp add: n2_round_def run_simps with_tick_def cong: option.case_cong wait_result.case_cong) (simp add: runs_to_def ret_def split: option.splits wait_result.splits sum.splits)
  show ?case
  proof (cases "?t + 250 \<le> timer_now s")
    case True
    let ?u = "with_timer ?s x TIMER_ABORTED"
    have u: "tm_tick (tmrs ?u (Obj x)) = ?t + 250" "timer_now ?u = timer_now s" "id_nestcnt ?u = id_nestcnt s" "nest_room 1 ?u"
      using a s by (simp_all add: with_timer_def added_tick_def alarm_ok_def nest_room_def Let_def)
    have "runs_to (rounds (n2_round lib x) k) \<lparr>ap_ker = ?u, ap_ext = ?e\<rparr> (\<lambda>v b. v = Some (to_int16 (id_nestcnt s + 1))
     \<and> ap_ext b = (GPIO_ToggleBits lib 12 ^^ periods (timer_now s) ?t) e
     \<and> alarm_set (ap_ker b) r (insert r (set rs \<union> set ws)) (set xs) x (?t + 250 * of_nat (periods (timer_now s) ?t)))"
      if "alarm_ok ?u L r rs ws xs x"
      using Suc.IH [OF that u(4), of ?e] Suc.prems(3,4) p(1) p(2) [OF True] unfolding u
      by (simp add: funpow_swap1 algebra_simps)
    then show ?thesis
      unfolding run by (intro runs_to_weaken [OF alarm_wait_elapsed [OF a]]) (use True s in auto)
  next
    case False
    then have lt: "timer_now s < ?t + 250" by simp
    then show ?thesis
      unfolding run p(3) [OF lt]
      by (intro runs_to_weaken [OF alarm_wait_blocks [OF a _ s(4)]]) (use s lt in auto)
  qed
qed

lemma consumed_signals: "(g :: Signals) AND (R AND (NOT g OR NOT R)) = 0" "(g :: Signals) AND (R AND NOT g) = 0"
  by (auto simp: bit_eq_iff [where 'a = "16 word"] bit_simps)

text \<open>The state in which the loop is entered.\<close>

lemma alarm_start_ok:
  assumes k: "kern s L r rs ws" and r: "r \<notin> set rs" "r \<notin> set ws" "r \<noteq> init_addr" and n: "nest_room 1 s"
    and t: "timers_ok s L r (insert r (set rs \<union> set ws)) xs" and x: "unlinked L x" "x \<notin> insert r (set rs \<union> set ws)"
    and f: "\<exists>k < 16. \<not> bit (tk_sig_alloc (tasks s (Obj r))) k"
  shows "runs_to (alarm_start x) s (\<lambda>_ u. alarm_ok u L r rs ws xs x \<and> nest_room 1 u \<and> tm_tick (tmrs u (Obj x)) = timer_now s
     \<and> timer_now u = timer_now s \<and> id_nestcnt u = id_nestcnt s)"
proof -
  have nx: "x \<notin> set xs" using unlinkedD [OF x(1)] timers_ok_facts(2) [OF t] by blast
  let ?v = "\<lambda>v. v\<lparr>tmrs := (tmrs v)(Obj x := (tmrs v (Obj x))\<lparr>tm_op := TIMER_ALARM, tm_tick := timer_now s\<rparr>)\<rparr>"
  have "alarm_ok (?v u) L r rs ws xs x \<and> nest_room 1 (?v u) \<and> timer_now (?v u) = timer_now s \<and> id_nestcnt (?v u) = id_nestcnt s"
    if u: "kern u L r rs ws" "u = allocated_timer s r j x" for u j
  proof -
    have kv: "kern (?v u) L r rs ws" using u(1) by simp
    have "timers_ok (?v u) L r (insert r (set rs \<union> set ws)) xs"
      by (rule timers_ok_other [OF t aliveI [OF kv]]) (use nx in \<open>auto simp: u(2) allocated_timer_def\<close>)
    then show ?thesis
      using kv r x n by (auto simp: alarm_ok_def u(2) allocated_timer_def allocated_def nest_room_def consumed_signals)
  qed
  note ok = this
  show ?thesis
    unfolding alarm_start_def runs_to_seqM
  proof (rule runs_to_weaken [OF timer_allocate_ok [OF k r(1,2) n f]], elim exE conjE)
    fix y u j assume u: "kern u L r rs ws" "u = allocated_timer s r j x"
    have "timer_now u = timer_now s" by (simp add: u(2) allocated_timer_def)
    then show "runs_to (set_timer (Obj x) (tm_op_update (\<lambda>_. TIMER_ALARM))) u (\<lambda>_ t. runs_to (bindM timer_get_clock
        (\<lambda>now. set_timer (Obj x) (tm_tick_update (\<lambda>_. now)))) t (\<lambda>_ u. alarm_ok u L r rs ws xs x \<and> nest_room 1 u
          \<and> tm_tick (tmrs u (Obj x)) = timer_now s \<and> timer_now u = timer_now s \<and> id_nestcnt u = id_nestcnt s))"
      using ok [OF u] by (simp add: run_simps timer_get_clock_def)
  qed
qed

lemma names_cong:
  assumes "\<And>y. y \<in> set ys \<Longrightarrow> nd_name (h' (Obj y)) = nd_name (h (Obj y))"
  shows "names_ok h' ys = names_ok h ys" "find_spec h' nm ys = find_spec h nm ys"
proof -
  show "names_ok h' ys = names_ok h ys" using assms by (simp add: names_ok_def)
  have "find (\<lambda>y. nd_name (h' (Obj y)) = Some nm) ys = find (\<lambda>y. nd_name (h (Obj y)) = Some nm) ys"
    using assms by (intro find_cong) simp_all
  then show "find_spec h' nm ys = find_spec h nm ys" by (simp add: find_spec_def)
qed

text \<open>Frames at the ends of two stacks that do not overlap.\<close>

lemma frames_apart:
  fixes st st' :: "32 word"
  assumes "unat st + 4096 < 2 ^ 32" "unat st' + 4096 < 2 ^ 32" "unat st + 4096 \<le> unat st' \<or> unat st' + 4096 \<le> unat st" "off < 64"
  shows "frame_image im (st' + 4096 - 64) pc ud m (st + 4096 - 64 + off) = m (st + 4096 - 64 + off)"
proof (rule frame_image_other, rule notI)
  assume "st + 4096 - 64 + off \<in> insert (st' + 4096 - 64) (cleared (st' + 4096 - 64))"
  then obtain off' where o: "off' < 64" "st + 4096 - 64 + off = st' + 4096 - 64 + off'" using cleared_offset by blast
  have "unat (st + 4096) = unat st + 4096" "unat (st' + 4096) = unat st' + 4096"
    using assms(1,2) by (simp_all add: unat_add_lem [THEN iffD1])
  moreover have "st \<le> st + 4096 - 64 + off" "st + 4096 - 64 + off < st + 4096"
    using frame_in_stack [of st 4096 off] assms by simp_all
  moreover have "st' \<le> st + 4096 - 64 + off" "st + 4096 - 64 + off < st' + 4096"
    unfolding o(2) using frame_in_stack [of st' 4096 off'] assms o(1) by simp_all
  ultimately show False
    using assms(3) unfolding word_le_nat_alt word_less_nat_alt by linarith
qed

text \<open>What the set-up of the application needs of the system: both tasks are new, their names too, and their stacks are apart.\<close>

definition net_ready :: "net_image \<Rightarrow> kstate \<Rightarrow> lists \<Rightarrow> addr \<Rightarrow> addr list \<Rightarrow> addr list \<Rightarrow> bool" where
  "net_ready ni s L r rs ws = (kern s L r rs ws \<and> nest_room 1 s \<and> unlinked L (ni_n1 ni) \<and> unlinked L (ni_n2 ni)
     \<and> ni_n1 ni \<noteq> r \<and> ni_n2 ni \<noteq> r \<and> ni_n1 ni \<noteq> ni_n2 ni \<and> names_ok (nodes s) (rs @ ws)
     \<and> find_spec (nodes s) ''n1'' (rs @ ws) = NULL \<and> find_spec (nodes s) ''n2'' (rs @ ws) = NULL
     \<and> (case null_name s of None \<Rightarrow> False | Some b \<Rightarrow> strcmp_chars ''n1'' b \<noteq> 0 \<and> strcmp_chars ''n2'' b \<noteq> 0)
     \<and> ni_n1_stack ni mod 4 = 0 \<and> ni_n2_stack ni mod 4 = 0 \<and> unat (ni_n1_stack ni) + 4096 < 2 ^ 32 \<and> unat (ni_n2_stack ni) + 4096 < 2 ^ 32
     \<and> (unat (ni_n1_stack ni) + 4096 \<le> unat (ni_n2_stack ni) \<or> unat (ni_n2_stack ni) + 4096 \<le> unat (ni_n1_stack ni)))"

definition net_prios :: "net_image \<Rightarrow> kstate \<Rightarrow> addr \<Rightarrow> Node_Prio" where
  "net_prios ni s = (prio_of (nodes s))(ni_n1 ni := mk_prio 0, ni_n2 ni := mk_prio (- 1))"

definition new_task :: "kstate \<Rightarrow> addr \<Rightarrow> Task_State \<Rightarrow> 32 word \<Rightarrow> 32 word \<Rightarrow> bool" where
  "new_task t a st stack pc = (task_ok (tasks t (Obj a)) \<and> tk_state (tasks t (Obj a)) = st
     \<and> cx_frame (tk_context (tasks t (Obj a))) = stack + N_STACK_SIZE - 64 \<and> ram t (stack + N_STACK_SIZE - 64 + OFF_pc) = pc)"

lemma net_inits:
  assumes "net_ready ni s L r rs ws"
  shows "runs_to (seqM (task_init im (Obj (ni_n1 ni)) (Some ''n1'') (mk_prio 0) (ni_n1_f ni) 0 (ni_n1_stack ni) N_STACK_SIZE)
     (task_init im (Obj (ni_n2 ni)) (Some ''n2'') (mk_prio (- 1)) (ni_n2_f ni) 0 (ni_n2_stack ni) N_STACK_SIZE)) s
     (\<lambda>_ t. kern t L r rs ws \<and> nest_room 1 t \<and> prio_of (nodes t) = net_prios ni s
        \<and> new_task t (ni_n1 ni) TASK_INITIALIZED (ni_n1_stack ni) (ni_n1_f ni) \<and> new_task t (ni_n2 ni) TASK_INITIALIZED (ni_n2_stack ni) (ni_n2_f ni))"
proof -
  let ?a = "ni_n1 ni" and ?b = "ni_n2 ni"
  obtain b where k: "kern s L r rs ws" and n: "nest_room 1 s" and u: "unlinked L ?a" "unlinked L ?b" and d: "?a \<noteq> r" "?b \<noteq> r" "?a \<noteq> ?b"
    and nm: "names_ok (nodes s) (rs @ ws)" "find_spec (nodes s) ''n1'' (rs @ ws) = NULL" "find_spec (nodes s) ''n2'' (rs @ ws) = NULL"
    and z: "null_name s = Some b" "strcmp_chars ''n1'' b \<noteq> 0" "strcmp_chars ''n2'' b \<noteq> 0"
    and st: "ni_n1_stack ni mod 4 = 0" "ni_n2_stack ni mod 4 = 0" "unat (ni_n1_stack ni) + 4096 < 2 ^ 32" "unat (ni_n2_stack ni) + 4096 < 2 ^ 32"
      "unat (ni_n1_stack ni) + 4096 \<le> unat (ni_n2_stack ni) \<or> unat (ni_n2_stack ni) + 4096 \<le> unat (ni_n1_stack ni)"
    using assms by (auto simp: net_ready_def split: option.splits)
  have nl: "?a \<notin> set (rs @ ws)" using unlinkedD [OF u(1)] kern_lists(2,3) [OF k] by auto
  have cs: "c_string ''n1''" "c_string ''n2''" by (simp_all add: c_string_def)
  have sz: "N_STACK_SIZE mod 4 = 0" "64 \<le> N_STACK_SIZE" "unat N_STACK_SIZE = 4096" by (simp_all add: N_STACK_SIZE_def)
  have st': "unat (ni_n1_stack ni) + unat N_STACK_SIZE < 2 ^ 32" "unat (ni_n2_stack ni) + unat N_STACK_SIZE < 2 ^ 32" using st sz by simp_all
  show ?thesis
    unfolding runs_to_seqM
  proof (rule runs_to_weaken [OF task_init_kern [OF k n u(1) d(1) nm(1) cs(1) nm(2) z(1,2) st(1) sz(1,2) st'(1)]], elim conjE)
    fix x s1
    assume s1: "kern s1 L r rs ws" "id_nestcnt s1 = id_nestcnt s"
      "nodes s1 = (nodes s)(Obj ?a := (nodes s (Obj ?a))\<lparr>nd_name := Some ''n1'', nd_prio := mk_prio 0\<rparr>)"
      "ram s1 = frame_image im (ni_n1_stack ni + N_STACK_SIZE - 64) (ni_n1_f ni) 0 (ram s)"
      "task_ok (tasks s1 (Obj ?a))" "tk_state (tasks s1 (Obj ?a)) = TASK_INITIALIZED"
      "tk_context (tasks s1 (Obj ?a)) = \<lparr>cx_frame = ni_n1_stack ni + N_STACK_SIZE - 64, cx_bos = ni_n1_stack ni, cx_tos = ni_n1_stack ni + N_STACK_SIZE\<rparr>"
      "null_name s1 = null_name s"
    have n1: "nest_room 1 s1" using n s1(2) by (simp add: nest_room_def)
    have "nd_name (nodes s1 (Obj y)) = nd_name (nodes s (Obj y))" if "y \<in> set (rs @ ws)" for y using that nl by (auto simp: s1(3))
    then have nm1: "names_ok (nodes s1) (rs @ ws)" "find_spec (nodes s1) ''n2'' (rs @ ws) = NULL"
      using names_cong [of "rs @ ws" "nodes s1" "nodes s"] nm by simp_all
    have z1: "null_name s1 = Some b" using z(1) s1(8) by simp
    have m1: "frame_image im (ni_n2_stack ni + N_STACK_SIZE - 64) (ni_n2_f ni) 0 (ram s1) (ni_n1_stack ni + N_STACK_SIZE - 64 + OFF_pc)
        = ram s1 (ni_n1_stack ni + N_STACK_SIZE - 64 + OFF_pc)"
      unfolding N_STACK_SIZE_def by (rule frames_apart [OF st(3-5)]) (simp add: OFF_pc_def)
    have "kern t L r rs ws \<and> nest_room 1 t \<and> prio_of (nodes t) = net_prios ni s
        \<and> new_task t ?a TASK_INITIALIZED (ni_n1_stack ni) (ni_n1_f ni) \<and> new_task t ?b TASK_INITIALIZED (ni_n2_stack ni) (ni_n2_f ni)"
      if t: "kern t L r rs ws" "id_nestcnt t = id_nestcnt s1"
        "nodes t = (nodes s1)(Obj ?b := (nodes s1 (Obj ?b))\<lparr>nd_name := Some ''n2'', nd_prio := mk_prio (- 1)\<rparr>)"
        "ram t = frame_image im (ni_n2_stack ni + N_STACK_SIZE - 64) (ni_n2_f ni) 0 (ram s1)"
        "task_ok (tasks t (Obj ?b))" "tk_state (tasks t (Obj ?b)) = TASK_INITIALIZED"
        "tk_context (tasks t (Obj ?b)) = \<lparr>cx_frame = ni_n2_stack ni + N_STACK_SIZE - 64, cx_bos = ni_n2_stack ni, cx_tos = ni_n2_stack ni + N_STACK_SIZE\<rparr>"
        "tasks t = (tasks s1)(Obj ?b := tasks t (Obj ?b))" for t
    proof -
      have a: "tasks t (Obj ?a) = tasks s1 (Obj ?a)" using arg_cong [OF t(8), of "\<lambda>f. f (Obj ?a)"] d(3) by simp
      have "prio_of (nodes t) = net_prios ni s" using d(3) by (auto simp: prio_of_def net_prios_def s1(3) t(3))
      moreover have "ram t (ni_n1_stack ni + N_STACK_SIZE - 64 + OFF_pc) = ni_n1_f ni" "ram t (ni_n2_stack ni + N_STACK_SIZE - 64 + OFF_pc) = ni_n2_f ni"
        using m1 by (simp_all only: s1(4) t(4) frame_image_fields(3))
      ultimately show ?thesis using t(1,2,5-7) s1(5-7) n1 a by (simp add: new_task_def nest_room_def)
    qed
    then show "runs_to (task_init im (Obj ?b) (Some ''n2'') (mk_prio (- 1)) (ni_n2_f ni) 0 (ni_n2_stack ni) N_STACK_SIZE) s1
       (\<lambda>_ t. kern t L r rs ws \<and> nest_room 1 t \<and> prio_of (nodes t) = net_prios ni s
        \<and> new_task t ?a TASK_INITIALIZED (ni_n1_stack ni) (ni_n1_f ni) \<and> new_task t ?b TASK_INITIALIZED (ni_n2_stack ni) (ni_n2_f ni))"
      by (intro runs_to_weaken [OF task_init_kern [OF s1(1) n1 u(2) d(2) nm1(1) cs(2) nm1(2) z1 z(3) st(2) sz(1,2) st'(2)]], elim conjE) blast
  qed
qed

lemma net_schedules:
  assumes k: "kern s L r rs ws" and n: "nest_room 1 s" and u: "unlinked L a" "unlinked L b" and d: "a \<noteq> r" "b \<noteq> r" "a \<noteq> b"
    and t: "new_task s a TASK_INITIALIZED sa pa" "new_task s b TASK_INITIALIZED sb pb"
  defines "rs' \<equiv> enqueue_spec (prio_of (nodes s)) b (enqueue_spec (prio_of (nodes s)) a rs)"
  shows "runs_to (seqM (task_schedule (Obj a)) (task_schedule (Obj b))) s (\<lambda>_ t. kern t (L(ready \<mapsto> rs')) r rs' ws
     \<and> prio_of (nodes t) = prio_of (nodes s) \<and> pendsv t \<and> new_task t a TASK_READY sa pa \<and> new_task t b TASK_READY sb pb)"
  unfolding runs_to_seqM
proof (rule runs_to_weaken [OF task_schedule_kern [OF k u(1) d(1)]])
  show "task_ok (tasks s (Obj a))" "tk_state (tasks s (Obj a)) = TASK_INITIALIZED" "nest_room 1 s" using t(1) n by (simp_all add: new_task_def)
  let ?rs = "enqueue_spec (prio_of (nodes s)) a rs"
  fix x s1 assume s1: "schedule_post s L r rs ws a s1"
  have k1: "kern s1 (L(ready \<mapsto> ?rs)) r ?rs ws" and o1: "same_objs s s1" and p1: "prio_of (nodes s1) = prio_of (nodes s)"
    and t1: "tasks s1 = (tasks s)(Obj a := (tasks s (Obj a))\<lparr>tk_state := TASK_READY\<rparr>)" "ram s1 = ram s"
    using s1 same_objs_prio [of s s1] by (simp_all add: schedule_post_def same_defs)
  have u1: "unlinked (L(ready \<mapsto> ?rs)) b" using u(2) unlinkedD [OF u(2) kern_lists(2) [OF k]] d(3) by (auto simp: unlinked_def)
  have n1: "nest_room 1 s1" using n o1 by (simp add: nest_room_def same_defs)
  show "runs_to (task_schedule (Obj b)) s1 (\<lambda>_ t. kern t (L(ready \<mapsto> rs')) r rs' ws
     \<and> prio_of (nodes t) = prio_of (nodes s) \<and> pendsv t \<and> new_task t a TASK_READY sa pa \<and> new_task t b TASK_READY sb pb)"
  proof (rule runs_to_weaken [OF task_schedule_kern [OF k1 u1 d(2) _ _ n1]])
    show "task_ok (tasks s1 (Obj b))" "tk_state (tasks s1 (Obj b)) = TASK_INITIALIZED" using t(2) d(3) by (simp_all add: t1 new_task_def)
    fix x v assume v: "schedule_post s1 (L(ready \<mapsto> ?rs)) r ?rs ws b v"
    then have "ram v = ram s" "prio_of (nodes v) = prio_of (nodes s)" "tasks v = (tasks s1)(Obj b := (tasks s1 (Obj b))\<lparr>tk_state := TASK_READY\<rparr>)" "pendsv v"
      "kern v (L(ready \<mapsto> rs')) r rs' ws"
      using t1(2) p1 same_objs_prio [of s1 v] by (simp_all add: schedule_post_def same_defs rs'_def)
    then show "kern v (L(ready \<mapsto> rs')) r rs' ws
     \<and> prio_of (nodes v) = prio_of (nodes s) \<and> pendsv v \<and> new_task v a TASK_READY sa pa \<and> new_task v b TASK_READY sb pb"
      using t d(3) by (simp add: new_task_def task_ok_def t1(1))
  qed
qed

section \<open>Properties\<close>

text \<open>
  The second task of the application, from its start: it toggles its light once and blocks until 250 ticks from now.
\<close>

theorem n2_first_alarm:
  assumes "kern s L r rs ws" and "r \<notin> set rs" and "r \<notin> set ws" and "r \<noteq> init_addr" and "nest_room 1 s"
    and "timers_ok s L r (insert r (set rs \<union> set ws)) xs" and "unlinked L x" and "x \<notin> insert r (set rs \<union> set ws)"
    and "\<exists>k < 16. \<not> bit (tk_sig_alloc (tasks s (Obj r))) k" and "unat (timer_now s) + 250 < 2 ^ 32" and "1 \<le> k"
  shows "runs_to (n2_f lib x k) \<lparr>ap_ker = s, ap_ext = e\<rparr> (\<lambda>v b. v = Some (to_int16 (id_nestcnt s + 1))
     \<and> ap_ext b = GPIO_ToggleBits lib 12 e
     \<and> alarm_set (ap_ker b) r (insert r (set rs \<union> set ws)) (set xs) x (timer_now s + 250))"
proof -
  have p: "periods (timer_now s) (timer_now s) = 1" by (simp add: periods_def)
  have "runs_to (rounds (n2_round lib x) k) \<lparr>ap_ker = u, ap_ext = e\<rparr> (\<lambda>v b. v = Some (to_int16 (id_nestcnt s + 1))
     \<and> ap_ext b = GPIO_ToggleBits lib 12 e
     \<and> alarm_set (ap_ker b) r (insert r (set rs \<union> set ws)) (set xs) x (timer_now s + 250))"
    if u: "alarm_ok u L r rs ws xs x" "nest_room 1 u" "tm_tick (tmrs u (Obj x)) = timer_now s" "timer_now u = timer_now s" "id_nestcnt u = id_nestcnt s" for u
    using n2_catches_up [OF u(1,2), of k lib e] assms(10,11) by (simp add: u p)
  then show ?thesis
    unfolding n2_f_def run_simps
    by (simp, intro runs_to_weaken [OF alarm_start_ok [OF assms(1-9)]]) blast
qed

text \<open>
  C34: The task of the application keeps its phase, as long as its next alarm does not lie beyond the end of the 32-bit clock.  When it runs again after the alarm at \<open>tick\<close>,
  and the first multiple \<open>tick + 250 * j\<close> of the period that lies in the future is below \<open>2 ^ 32\<close>, it toggles its light once for every
  period of 250 ticks that has begun since, without blocking, and then blocks until that multiple:
  the alarms do not drift, and the light has been toggled as often as if the task had never been late.  (Where the sum wraps, the alarm lies
  in the past, \<open>timer_add\<close> aborts it and the task goes on toggling without blocking.)
\<close>

theorem n2_keeps_phase:
  fixes k :: nat and e :: "'e"
  defines "j \<equiv> \<lambda>s x. periods (timer_now s) (tm_tick (tmrs s (Obj x)))"
  assumes "kern s L r rs ws" and "r \<notin> set rs" and "r \<notin> set ws" and "r \<noteq> init_addr" and "id_nestcnt s = - 1"
    and "timers_ok s L r (insert r (set rs \<union> set ws)) xs" and "unlinked L x" and "x \<notin> insert r (set rs \<union> set ws)"
    and "tm_op (tmrs s (Obj x)) = TIMER_ALARM" and "tm_task (tmrs s (Obj x)) = Obj r" and "tm_status (tmrs s (Obj x)) = TIMER_DONE"
    and "tk_sig_wait (tasks s (Obj r)) = tm_signal (tmrs s (Obj x))" and "tm_signal (tmrs s (Obj x)) AND tk_sig_recvd (tasks s (Obj r)) \<noteq> 0"
    and "0 \<le> n" and "n \<le> INT32_MAX" and "j s x \<le> k" and "unat (tm_tick (tmrs s (Obj x))) + 250 * j s x < 2 ^ 32"
  shows "runs_to (n2_resume lib x (tm_signal (tmrs s (Obj x))) n k) \<lparr>ap_ker = s, ap_ext = e\<rparr> (\<lambda>v b. v = Some (to_int16 n)
     \<and> ap_ext b = (GPIO_ToggleBits lib 12 ^^ j s x) e
     \<and> alarm_set (ap_ker b) r (insert r (set rs \<union> set ws)) (set xs) x (tm_tick (tmrs s (Obj x)) + 250 * of_nat (j s x))
     \<and> timer_now s < tm_tick (tmrs s (Obj x)) + 250 * of_nat (j s x))"
proof -
  let ?g = "tm_signal (tmrs s (Obj x))" and ?t = "tm_tick (tmrs s (Obj x))"
  have "unat (?t + 250 * of_nat (j s x)) = unat ?t + 250 * j s x"
    using assms(18) by (simp add: unat_word_ariths unat_of_nat)
  moreover have "unat (timer_now s) < unat ?t + 250 * j s x"
    unfolding j_def periods_def by (simp add: algebra_simps)
  ultimately have fut: "timer_now s < ?t + 250 * of_nat (j s x)" by (simp add: word_less_nat_alt)
  have "runs_to (rounds (n2_round lib x) k) \<lparr>ap_ker = u, ap_ext = e\<rparr> (\<lambda>v b. v = Some (to_int16 n)
     \<and> ap_ext b = (GPIO_ToggleBits lib 12 ^^ j s x) e
     \<and> alarm_set (ap_ker b) r (insert r (set rs \<union> set ws)) (set xs) x (?t + 250 * of_nat (j s x)))"
    if w: "wait_post s L r rs ws ?g n w u" for w u
  proof -
    have u: "kern u L r rs ws" "id_nestcnt u = n - 1" "tasks u = (tasks s)(Obj r := consume ?g (tasks s (Obj r)))" "tmrs u = tmrs s" "timer_now u = timer_now s"
      using w assms(14) by (simp_all add: wait_post_def Let_def same_store_def)
    have "timers_ok u L r (insert r (set rs \<union> set ws)) xs" by (rule timers_ok_other [OF assms(7) aliveI [OF u(1)]]) (simp_all add: u)
    then have "alarm_ok u L r rs ws xs x" using assms(3-5,8-12) u by (simp add: alarm_ok_def consume_def consumed_signals)
    then show ?thesis
      using n2_catches_up [of u L r rs ws xs x k lib e] assms(16-18) by (simp add: u nest_room_def j_def)
  qed
  moreover have "\<exists>y. w = Returned y" if "wait_post s L r rs ws ?g n w u" for w u using that assms(14) by (simp add: wait_post_def Let_def)
  ultimately show ?thesis
    unfolding n2_resume_def run_simps
    by (simp add: fut, intro runs_to_weaken [OF signal_wait_resume_kern [OF assms(2-5,13,6,15,16)]]) fastforce
qed

text \<open>Task 5 is to run again 350 ticks after its alarm at tick 250.\<close>

definition late_state :: kstate where
  "late_state = (demo_timer 600 [20, 30])\<lparr>
     tmrs := (tmrs (demo_timer 600 [20, 30]))(Obj 22 := \<lparr>tm_task = Obj 5, tm_signal = 0x10, tm_delay = 0, tm_tick = 250,
       tm_op = TIMER_ALARM, tm_status = TIMER_DONE\<rparr>),
     tasks := demo_tasks(Obj 5 := (demo_task TASK_RUNNING 0x10)\<lparr>tk_sig_recvd := 0x10\<rparr>)\<rparr>"

lemma late_state_ok:
  "kern late_state (demo_lists(timers \<mapsto> [20, 30])) 5 [6, 0] [7]"
  "timers_ok late_state (demo_lists(timers \<mapsto> [20, 30])) 5 (insert 5 (set [6, 0] \<union> set [7])) [20, 30]"
proof -
  have k: "kern (demo_timer 600 [20, 30]) (demo_lists(timers \<mapsto> [20, 30])) 5 [6, 0] [7]" by (rule demo_timer_kern) auto
  have t: "timers_ok (demo_timer 600 [20, 30]) (demo_lists(timers \<mapsto> [20, 30])) 5 (insert 5 (set [6, 0] \<union> set [7])) [20, 30]"
    using demo_timer_ok [of "[20, 30]" 600] by (simp add: insert_commute)
  show kl: "kern late_state (demo_lists(timers \<mapsto> [20, 30])) 5 [6, 0] [7]"
    by (rule kern_update_running [OF k]) (use kern_lists(5) [OF k] in \<open>auto simp: late_state_def demo_timer_def demo_task_def
      blank_task_def task_ok_def ctx_ok_def SIZEOF_StackFrame_def SIGF_SINGLE_def irq_ok_def\<close>)
  show "timers_ok late_state (demo_lists(timers \<mapsto> [20, 30])) 5 (insert 5 (set [6, 0] \<union> set [7])) [20, 30]"
    by (rule timers_ok_other [OF t aliveI [OF kl]]) (simp_all add: late_state_def)
qed

theorem n2_keeps_phase_witness:
  "\<forall>lib. runs_to (n2_resume lib 22 (tm_signal (tmrs late_state (Obj 22))) 0 5) \<lparr>ap_ker = late_state, ap_ext = (0 :: nat)\<rparr> (\<lambda>v b. v = Some (to_int16 0)
     \<and> ap_ext b = (GPIO_ToggleBits lib 12 ^^ periods (timer_now late_state) (tm_tick (tmrs late_state (Obj 22)))) 0
     \<and> alarm_set (ap_ker b) 5 (insert 5 (set [6, 0] \<union> set [7])) (set [20, 30]) 22
         (tm_tick (tmrs late_state (Obj 22)) + 250 * of_nat (periods (timer_now late_state) (tm_tick (tmrs late_state (Obj 22)))))
     \<and> timer_now late_state < tm_tick (tmrs late_state (Obj 22)) + 250 * of_nat (periods (timer_now late_state) (tm_tick (tmrs late_state (Obj 22)))))"
proof
  have f: "timer_now late_state = 600" "tmrs late_state (Obj 22) = \<lparr>tm_task = Obj 5, tm_signal = 0x10, tm_delay = 0, tm_tick = 250,
       tm_op = TIMER_ALARM, tm_status = TIMER_DONE\<rparr>" "tasks late_state (Obj 5) = (demo_task TASK_RUNNING 0x10)\<lparr>tk_sig_recvd := 0x10\<rparr>"
    "id_nestcnt late_state = - 1"
    by (simp_all add: late_state_def demo_timer_def)
  show "runs_to (n2_resume lib 22 (tm_signal (tmrs late_state (Obj 22))) 0 5) \<lparr>ap_ker = late_state, ap_ext = (0 :: nat)\<rparr> (\<lambda>v b. v = Some (to_int16 0)
     \<and> ap_ext b = (GPIO_ToggleBits lib 12 ^^ periods (timer_now late_state) (tm_tick (tmrs late_state (Obj 22)))) 0
     \<and> alarm_set (ap_ker b) 5 (insert 5 (set [6, 0] \<union> set [7])) (set [20, 30]) 22
         (tm_tick (tmrs late_state (Obj 22)) + 250 * of_nat (periods (timer_now late_state) (tm_tick (tmrs late_state (Obj 22)))))
     \<and> timer_now late_state < tm_tick (tmrs late_state (Obj 22)) + 250 * of_nat (periods (timer_now late_state) (tm_tick (tmrs late_state (Obj 22)))))" for lib
    by (rule n2_keeps_phase [OF late_state_ok(1) _ _ _ _ late_state_ok(2) demo_timer_unlinked])
      (simp_all add: f periods_def init_addr_def INT32_MAX_def demo_task_def)
qed

text \<open>
  The set-up of the application.  If the calls of lwIP return with the invariant in place and the two tasks and their names unused,
  \<open>user_init\<close> returns and keeps it: both tasks are ready, in their places by priority 0 and -1 behind the tasks that lwIP may have created
  with the same priorities, each will start at its own function, and a context switch is pending.
\<close>

theorem user_init_starts_tasks:
  assumes "runs_to (net_setup lib) a (\<lambda>_ b. net_ready ni (ap_ker b) L r rs ws \<and> prio_of (nodes (ap_ker b)) = pr)"
  defines "pr' \<equiv> pr(ni_n1 ni := mk_prio 0, ni_n2 ni := mk_prio (- 1))"
  defines "rs' \<equiv> enqueue_spec pr' (ni_n2 ni) (enqueue_spec pr' (ni_n1 ni) rs)"
  shows "runs_to (user_init lib im ni) a (\<lambda>_ b. kern (ap_ker b) (L(ready \<mapsto> rs')) r rs' ws \<and> prio_of (nodes (ap_ker b)) = pr' \<and> pendsv (ap_ker b)
     \<and> new_task (ap_ker b) (ni_n1 ni) TASK_READY (ni_n1_stack ni) (ni_n1_f ni)
     \<and> new_task (ap_ker b) (ni_n2 ni) TASK_READY (ni_n2_stack ni) (ni_n2_f ni))"
proof -
  have "runs_to (user_tasks im ni) s (\<lambda>_ t. kern t (L(ready \<mapsto> rs')) r rs' ws \<and> prio_of (nodes t) = pr' \<and> pendsv t
     \<and> new_task t (ni_n1 ni) TASK_READY (ni_n1_stack ni) (ni_n1_f ni) \<and> new_task t (ni_n2 ni) TASK_READY (ni_n2_stack ni) (ni_n2_f ni))"
    if s: "net_ready ni s L r rs ws" "prio_of (nodes s) = pr" for s
  proof -
    have d: "unlinked L (ni_n1 ni)" "unlinked L (ni_n2 ni)" "ni_n1 ni \<noteq> r" "ni_n2 ni \<noteq> r" "ni_n1 ni \<noteq> ni_n2 ni" using s(1) by (simp_all add: net_ready_def)
    have p: "net_prios ni s = pr'" by (simp add: net_prios_def s(2) pr'_def)
    have "user_tasks im ni = (seqM (seqM (task_init im (Obj (ni_n1 ni)) (Some ''n1'') (mk_prio 0) (ni_n1_f ni) 0 (ni_n1_stack ni) N_STACK_SIZE)
        (task_init im (Obj (ni_n2 ni)) (Some ''n2'') (mk_prio (- 1)) (ni_n2_f ni) 0 (ni_n2_stack ni) N_STACK_SIZE))
        (seqM (task_schedule (Obj (ni_n1 ni))) (task_schedule (Obj (ni_n2 ni)))))"
      unfolding user_tasks_def by (rule ext) (simp add: run_apply split: sum.splits)
    then show ?thesis
      by (simp only: runs_to_seqM [of "seqM x y" for x y], intro runs_to_weaken [OF net_inits [OF s(1), of im]])
        (use net_schedules [OF _ _ d] p in \<open>fastforce simp: rs'_def\<close>)
  qed
  then show ?thesis
    unfolding user_init_def run_simps by (intro runs_to_weaken [OF assms(1)]) (auto simp: run_simps)
qed

definition quiet_lib :: "unit netlib" where
  "quiet_lib = \<lparr>GPIO_ToggleBits = (\<lambda>_ e. e), netconn_new = ret (Obj 90), netconn_connect = (\<lambda>_ _ _. ret 0), netbuf_new = ret (Obj 91),
     netbuf_ref = (\<lambda>_ _ _. ret 0), netconn_send = (\<lambda>_ _. ret 0), tcpip_init = ret (), netif_find = (\<lambda>_. ret (Obj 92)),
     netif_set_default = (\<lambda>_. ret ()), udpecho_init = ret (), err_ok = 0\<rparr>"

definition demo_image :: net_image where
  "demo_image = \<lparr>ni_n1 = 50, ni_n2 = 51, ni_n1_f = 0x8000201, ni_n2_f = 0x8000301, ni_n1_stack = 0x20004000, ni_n2_stack = 0x20005000\<rparr>"

theorem user_init_starts_tasks_witness:
  "runs_to (user_init quiet_lib im0 demo_image) \<lparr>ap_ker = demo_state, ap_ext = ()\<rparr> (\<lambda>_ b. pendsv (ap_ker b)
     \<and> new_task (ap_ker b) 50 TASK_READY 0x20004000 0x8000201 \<and> new_task (ap_ker b) 51 TASK_READY 0x20005000 0x8000301)"
proof -
  have "find_spec (nodes demo_state) ''n1'' ([6, 0] @ [7]) = NULL" "find_spec (nodes demo_state) ''n2'' ([6, 0] @ [7]) = NULL"
    by (simp_all add: find_spec_NULL demo_nodes_def link_in_def blank_heap_def demo_name_def)
  then have "net_ready demo_image demo_state demo_lists 5 [6, 0] [7]"
    using demo_kern demo_room demo_names demo_unlinked [of 50] demo_unlinked [of 51]
    by (simp add: net_ready_def demo_image_def demo_state_def)
  then have "runs_to (net_setup quiet_lib) \<lparr>ap_ker = demo_state, ap_ext = ()\<rparr>
      (\<lambda>_ b. net_ready demo_image (ap_ker b) demo_lists 5 [6, 0] [7] \<and> prio_of (nodes (ap_ker b)) = prio_of (nodes demo_state))"
    by (simp add: net_setup_def quiet_lib_def run_simps)
  from user_init_starts_tasks [OF this, of im0] show ?thesis
    by (rule runs_to_weaken) (simp add: demo_image_def)
qed

text \<open>
  A round of the first task.  If the datagram cannot be sent the assertion stops the system.  If it is sent, and the task then still has its timer
  as it left it, the round ends as in the second task: at once if the alarm has passed while the datagram was sent, and blocked until the alarm
  otherwise.
\<close>

theorem n1_send_failure:
  assumes "netconn_send lib conn buf (a\<lparr>ap_ker := with_tick (ap_ker a) x (tm_tick (tmrs (ap_ker a) (Obj x)) + 250)\<rparr>) = Inr (res, b)"
    and "res \<noteq> err_ok lib"
  shows "n1_round lib conn buf x a = Inl AssertFailed"
  using assms by (simp add: n1_round_def run_apply app_call_def set_timer_def with_tick_def)

theorem n1_round_outcome:
  assumes "runs_to (netconn_send lib conn buf) (a\<lparr>ap_ker := with_tick (ap_ker a) x (tm_tick (tmrs (ap_ker a) (Obj x)) + 250)\<rparr>)
      (\<lambda>res b. res = err_ok lib \<and> alarm_ok (ap_ker b) L r rs ws xs x \<and> nest_room 1 (ap_ker b) \<and> tm_tick (tmrs (ap_ker b) (Obj x)) = tick \<and> timer_now (ap_ker b) = now)"
  shows "runs_to (n1_round lib conn buf x) a (\<lambda>v b. if tick \<le> now then v = None \<and> alarm_ok (ap_ker b) L r rs ws xs x
     else (\<exists>n. v = Some (Blocked n)) \<and> alarm_set (ap_ker b) r (insert r (set rs \<union> set ws)) (set xs) x tick)"
proof -
  have "runs_to (alarm_wait x) s (\<lambda>v u. if tick \<le> now then v = None \<and> alarm_ok u L r rs ws xs x
     else (\<exists>n. v = Some (Blocked n)) \<and> alarm_set u r (insert r (set rs \<union> set ws)) (set xs) x tick)"
    if s: "alarm_ok s L r rs ws xs x" "nest_room 1 s" "tm_tick (tmrs s (Obj x)) = tick" "timer_now s = now" for s
  proof (cases "tick \<le> now")
    case True
    then show ?thesis by (intro runs_to_weaken [OF alarm_wait_elapsed [OF s(1)]]) (use s in auto)
  next
    case False
    then show ?thesis by (intro runs_to_weaken [OF alarm_wait_blocks [OF s(1) _ s(2)]]) (use s in auto)
  qed
  then show ?thesis
    unfolding n1_round_def run_simps
    by (simp add: with_tick_def [symmetric], intro runs_to_weaken [OF assms]) (simp add: run_simps if_bool_eq_conj)
qed

end
