(* ===== verification/TestMessage.thy ===== *)
theory TestMessage
  imports TestList NetProj
begin

unbundle bit_operations_syntax

text \<open>
  The second test program, \<open>test_message/test_message.c\<close>: two tasks that toggle a light each, with delays of two lengths in turn.
\<close>

section \<open>The program\<close>

definition blink_half :: "'e netlib \<Rightarrow> nat \<Rightarrow> addr \<Rightarrow> Ticks \<Rightarrow> ('e app, delay_result) M" where
  "blink_half lib pin x d = seqM (toggle lib pin) (app_call (timer_delay (Obj x) d))"

text \<open>
  The endless loop of a task up to the next time it blocks: with the nesting count on its stack and the two delays that follow, the next
  one first; \<open>None\<close> if it has not blocked after so many half rounds.  \<open>x\<close> is the local variable of \<open>timer_delay\<close>.
\<close>

primrec blink :: "'e netlib \<Rightarrow> nat \<Rightarrow> addr \<Rightarrow> Ticks \<Rightarrow> Ticks \<Rightarrow> nat \<Rightarrow> ('e app, (int \<times> Ticks \<times> Ticks) option) M" where
  "blink lib pin x d d' 0 = ret None"
| "blink lib pin x d d' (Suc k) = bindM (blink_half lib pin x d) (\<lambda>w. case w of
       DelayBlocked n \<Rightarrow> ret (Some (n, d', d))
     | Elapsed \<Rightarrow> blink lib pin x d' d k)"

definition blink_resume :: "'e netlib \<Rightarrow> nat \<Rightarrow> addr \<Rightarrow> Signals \<Rightarrow> int \<Rightarrow> Ticks \<Rightarrow> Ticks \<Rightarrow> nat \<Rightarrow> ('e app, (int \<times> Ticks \<times> Ticks) option) M" where
  "blink_resume lib pin x g n d d' k = bindM (app_call (timer_delay_resume (Obj x) g n)) (\<lambda>w. case w of
       DelayBlocked m \<Rightarrow> ret (Some (m, d, d'))
     | Elapsed \<Rightarrow> blink lib pin x d d' k)"

definition t2_f :: "'e netlib \<Rightarrow> addr \<Rightarrow> nat \<Rightarrow> ('e app, (int \<times> Ticks \<times> Ticks) option) M" where
  "t2_f lib x k = blink lib 13 x 299 297 k"

record message_image =
  mi_t2 :: addr
  mi_t2_f :: "32 word"
  mi_t2_stack :: "32 word"

definition test_message_f :: "'e netlib \<Rightarrow> image \<Rightarrow> message_image \<Rightarrow> addr \<Rightarrow> nat \<Rightarrow> ('e app, (int \<times> Ticks \<times> Ticks) option) M" where
  "test_message_f lib im mi x k =
     seqM (app_call (task_init im (Obj (mi_t2 mi)) (Some ''t2'') (mk_prio (- 1)) (mi_t2_f mi) 0 (mi_t2_stack mi) TEST_STACK_SIZE)) (
     seqM (app_call (task_schedule (Obj (mi_t2 mi)))) (
     blink lib 12 x 1167 1231 k))"

section \<open>One half round\<close>

text \<open>The task \<open>r\<close> is blocked in \<open>timer_delay\<close> until \<open>tick\<close>.\<close>

definition delayed :: "kstate \<Rightarrow> addr \<Rightarrow> addr set \<Rightarrow> addr set \<Rightarrow> addr \<Rightarrow> Ticks \<Rightarrow> bool" where
  "delayed u r ts xs x tick = (pendsv u \<and> tk_sig_wait (tasks u (Obj r)) = tm_signal (tmrs u (Obj x)) \<and> tm_signal (tmrs u (Obj x)) \<noteq> 0
     \<and> tm_task (tmrs u (Obj x)) = Obj r \<and> tm_tick (tmrs u (Obj x)) = tick
     \<and> (\<exists>q L' rs ws. timers_ok u L' r ts q \<and> set q = insert x xs \<and> kern u L' r rs (ws @ [r]) \<and> ts = insert r (set rs \<union> set ws)))"

lemma blink_blocks:
  assumes "kern s L r rs ws" and "r \<notin> set rs" and "r \<notin> set ws" and "r \<noteq> init_addr" and "nest_room 1 s"
    and "timers_ok s L r (insert r (set rs \<union> set ws)) xs" and "unlinked L x" and "x \<notin> insert r (set rs \<union> set ws)"
    and "\<exists>k < 16. \<not> bit (tk_sig_alloc (tasks s (Obj r))) k" and "timer_now s < timer_now s + d" and "1 \<le> k"
  shows "runs_to (blink lib pin x d d' k) \<lparr>ap_ker = s, ap_ext = e\<rparr> (\<lambda>v b. v = Some (to_int16 (id_nestcnt s + 1), d', d)
     \<and> ap_ext b = GPIO_ToggleBits lib pin e
     \<and> delayed (ap_ker b) r (insert r (set rs \<union> set ws)) (set xs) x (timer_now s + d))"
proof -
  obtain j where k: "k = Suc j" using assms(11) by (cases k) auto
  have nle: "\<not> timer_now s + d \<le> timer_now s" using assms(10) by simp
  show ?thesis
    unfolding k blink.simps blink_half_def run_simps
    by (simp, rule runs_to_weaken [OF timer_delay_outcome [OF assms(1-9), of d]])
      (use nle in \<open>auto simp: run_simps delayed_def\<close>)
qed

text \<open>
  The light goes on.  When the task runs again after its delay, it toggles its light once and blocks for the other delay, counted from the
  present: the delays alternate.
\<close>

theorem blink_continues:
  assumes "kern s L r rs ws" and "r \<notin> set rs" and "r \<notin> set ws" and "r \<noteq> init_addr" and "id_nestcnt s = - 1"
    and "timers_ok s L r (insert r (set rs \<union> set ws)) xs" and "unlinked L x" and "x \<notin> insert r (set rs \<union> set ws)"
    and "tk_sig_wait (tasks s (Obj r)) = tm_signal (tmrs s (Obj x))" and "tm_signal (tmrs s (Obj x)) AND tk_sig_recvd (tasks s (Obj r)) \<noteq> 0"
    and "tm_signal (tmrs s (Obj x)) = sig_mask j" and "j < 16" and "j \<noteq> 0" and "bit (tk_sig_alloc (tasks s (Obj r))) j"
    and "0 \<le> n" and "n < INT32_MAX" and "timer_now s < timer_now s + d" and "1 \<le> k"
  shows "runs_to (blink_resume lib pin x (tm_signal (tmrs s (Obj x))) n d d' k) \<lparr>ap_ker = s, ap_ext = e\<rparr> (\<lambda>v b. v = Some (to_int16 n, d', d)
     \<and> ap_ext b = GPIO_ToggleBits lib pin e \<and> delayed (ap_ker b) r (insert r (set rs \<union> set ws)) (set xs) x (timer_now s + d))"
proof -
  let ?g = "tm_signal (tmrs s (Obj x))"
  have g: "?g AND SIGF_SINGLE = 0" "?g AND tk_sig_alloc (tasks s (Obj r)) = ?g"
    using fresh_mask(1) [OF assms(12,13)] assms(12,14)
    by (auto simp: assms(11) bit_eq_iff [where 'a = "16 word"] bit_and_iff bit_sig_mask)
  have n: "0 \<le> n" "n \<le> INT32_MAX" using assms(15,16) by simp_all
  have nx: "x \<notin> set xs" using unlinkedD [OF assms(7)] timers_ok_facts(2) [OF assms(6)] by blast
  have "runs_to (blink lib pin x d d' k) \<lparr>ap_ker = u, ap_ext = e\<rparr> (\<lambda>v b. v = Some (to_int16 n, d', d)
     \<and> ap_ext b = GPIO_ToggleBits lib pin e \<and> delayed (ap_ker b) r (insert r (set rs \<union> set ws)) (set xs) x (timer_now s + d))"
    if u: "kern u L r rs ws" "id_nestcnt u = n - 1" "tk_sig_alloc (tasks u (Obj r)) = tk_sig_alloc (tasks s (Obj r)) AND NOT ?g"
      "timer_now u = timer_now s" "\<forall>p. p \<noteq> Obj x \<longrightarrow> tmrs u p = tmrs s p" for u
  proof -
    have t: "timers_ok u L r (insert r (set rs \<union> set ws)) xs"
      by (rule timers_ok_other [OF assms(6) aliveI [OF u(1)]]) (use u(5) nx in auto)
    have "\<not> bit (tk_sig_alloc (tasks u (Obj r))) j" using assms(12) by (simp add: u(3) assms(11) bit_and_iff bit_not_iff bit_sig_mask)
    then have f: "\<exists>k < 16. \<not> bit (tk_sig_alloc (tasks u (Obj r))) k" using assms(12) by blast
    have "nest_room 1 u" using n by (simp add: nest_room_def u(2))
    from blink_blocks [OF u(1) assms(2-4) this t assms(7,8) f _ assms(18), of d lib pin d' e] assms(17) u(2,4) show ?thesis by simp
  qed
  then show ?thesis
    unfolding blink_resume_def run_simps
    by (simp, intro runs_to_weaken [OF timer_delay_returns [OF assms(1-5,9,10) refl g n]]) fastforce
qed

text \<open>The second task, late by 350 ticks, is to wait 297 ticks next.\<close>

theorem blink_continues_witness:
  "runs_to (blink_resume quiet_lib 13 22 (tm_signal (tmrs late_state (Obj 22))) 0 297 299 1) \<lparr>ap_ker = late_state, ap_ext = ()\<rparr> (\<lambda>v b. v = Some (to_int16 0, 299, 297)
     \<and> ap_ext b = GPIO_ToggleBits quiet_lib 13 () \<and> delayed (ap_ker b) 5 (insert 5 (set [6, 0] \<union> set [7])) (set [20, 30]) 22 (timer_now late_state + 297))"
  by (rule blink_continues [OF late_state_ok(1) _ _ _ _ late_state_ok(2) demo_timer_unlinked, where j = 4])
    (simp_all add: late_state_def demo_timer_def init_addr_def INT32_MAX_def demo_task_def sig_mask_def bit_numeral_rec)

end
