(* ===== verification/Spec2Isabelle.thy ===== *)
theory Spec2Isabelle
  imports LwipConf Reach Board TestMessage
begin

text \<open>
  MARTOS: a small preemptive real-time kernel for the STM32F4-Discovery board, with a port of the
  lwIP network stack on top of it.

  \<^bold>\<open>The program.\<close>  Tasks have a priority; the ready ones are kept on a list sorted by priority, the
  waiting ones on a second list (\<open>src/task.c\<close>, \<open>src/list.c\<close>).  A task waits for a set of
  signals and is woken when one of them is sent.  Semaphores (\<open>src/semaphore.c\<close>), message
  ports (\<open>src/msgport.c\<close>) and timers (\<open>src/timer.c\<close>) are built on signals and lists, and
  \<open>lwip_martos/sys_arch.c\<close> builds the semaphores, mailboxes and threads of lwIP on those.  The
  context switch is the PendSV exception of the processor; the SysTick interrupt ends time slices
  and the TIM2 interrupt advances the clock and fires timers (\<open>platforms/stm32f4-discovery\<close>).
  Everything that touches shared data runs with interrupts masked, in critical sections that nest
  (\<open>disable\<close>, \<open>enable\<close>).  \<open>netproj/n.c\<close> is an application of two periodic tasks, and
  \<open>test_list\<close>, \<open>test_message\<close> and \<open>test_common\<close> are the repository's own tests.

  \<^bold>\<open>How C is modelled.\<close>  Every C function is a HOL function of the same name in a state-and-fault monad
  (\<open>Prelude\<close>): it returns a result and a new state, or a fault (failed assertion, null
  dereference, endless loop, signed overflow, bad shift).  \<open>runs_to m s P\<close> is total correctness: the
  call returns, without a fault, and \<open>P\<close> holds of its result and the state after it.  Loops
  over linked structures are \<open>partial_function (option)\<close>, with \<open>None\<close> for a loop that does not end;
  the lemmas on them show that they end.  The state is the record \<open>kstate\<close> (\<open>Types\<close>): a heap of list
  nodes, one map per structure of \<open>martos.h\<close>, the globals of \<open>data.c\<close>, the interrupt mask, the
  pending bit of PendSV and the words of memory that hold stack frames.  A C object is an address
  (a natural number); a list object has two sentinel nodes, as in \<open>List\<close>.  Integers keep their
  widths: priorities and signals have 16 bits, ticks 32, the nesting count is a checked
  \<open>int32_t\<close>.

  \<^bold>\<open>Blocking.\<close>  A call that may switch to another task is split there: \<open>signal_wait\<close> returns
  \<open>Returned v\<close>, or \<open>Blocked n\<close> with its local variable on the stack, and \<open>signal_wait_resume\<close> is the rest of the
  call when the task runs again; \<open>sem_wait\<close>, \<open>msgport_wait\<close>, \<open>timer_delay\<close>,
  \<open>sys_arch_sem_wait\<close> and \<open>sys_arch_mbox_fetch\<close> follow the same pattern.  \<open>msgport_loop\<close> has fuel 2: a
  message is there after the first signal or the call blocks again, and the lemma
  \<open>loop_empty\<close> and the property on \<open>msgport_wait\<close> show that the fuel is not used up.  The endless loops of the
  application are \<open>rounds\<close>, with the number of rounds as fuel; \<open>periods\<close>, the number of alarms
  that have gone by, is enough for the task to block as long as the next alarm does not lie beyond the end of the clock.  The lights of the second test are \<open>blink\<close>, where one half round is enough.

  \<^bold>\<open>The theories.\<close>
  \<^item> \<open>Prelude\<close>: faults, the monad, \<open>runs_to\<close> and its rules, shared lemmas.
  \<^item> \<open>Types\<close>: the structures of \<open>martos.h\<close>, \<open>platform.h\<close>, \<open>data.c\<close> and \<open>default_config.h\<close>.
  \<^item> \<open>ListC\<close>: \<open>list.c\<close>.  \<open>dll h l xs\<close>: list \<open>l\<close> holds the nodes \<open>xs\<close>; \<open>lists_ok h L\<close>: all lists of \<open>L\<close>
    at once, disjoint.  The locale \<open>list_ops\<close> states what a client may rely on, and its
    interpretation \<open>lc\<close> discharges it for the C functions.
  \<^item> \<open>Platform\<close>: critical sections (locale \<open>critical_section\<close>, interpretation \<open>cs\<close>) and the first
    stack frame of a task.
  \<^item> \<open>TaskC\<close>: the functions of \<open>task.c\<close>.  \<open>Sched\<close>: the context switch, the time slice, the
    invariant \<open>kern\<close>, and signals against it.  \<open>Tasks\<close>: the rest of \<open>task.c\<close> against it, and the locale
    \<open>signal_service\<close> (interpretation \<open>sg\<close>) through which the components above use signals.
    \<open>TaskProps\<close>: the properties.
  \<^item> \<open>SemC\<close>: \<open>semaphore.c\<close>, an abstract semaphore (count and queue), the locale
    \<open>semaphore_service\<close> (interpretation \<open>sv\<close>), refinement and properties.
  \<^item> \<open>MsgC\<close>: \<open>msgport.c\<close>, the locale \<open>mailbox\<close> (interpretation \<open>mb\<close>) and properties.
  \<^item> \<open>TimerC\<close>, \<open>TimerProps\<close>: \<open>timer.c\<close>, the clock interrupt and the queue invariant \<open>timers_ok\<close>.
  \<^item> \<open>InitC\<close>: \<open>init.c\<close> and the start-up path of \<open>platform.c\<close>.
  \<^item> \<open>SysArch\<close>, \<open>SysArchProps\<close>: \<open>sys_arch.c\<close>.
  \<^item> \<open>Context\<close>: \<open>pendsv_handler.s\<close>, the registers that the switch saves and restores.
  \<^item> \<open>Vectors\<close>: the vector table, the priorities of the interrupts and \<open>reset_handler.s\<close>.
  \<^item> \<open>Board\<close>: the set-up of the lights and of the hardware timer, over a record of the peripheral library.
  \<^item> \<open>NetProj\<close>: \<open>netproj/n.c\<close>, over the kernel and a record of the library functions it calls.
  \<^item> \<open>LwipConf\<close>: the macros of \<open>arch/cc.h\<close> (interpretation \<open>prot\<close> of \<open>critical_section\<close>) and the thread options of \<open>lwipopts.h\<close>.
  \<^item> \<open>TestList\<close>, \<open>TestMessage\<close>: the test programs, the first one run from reset to its last assertion.
  \<^item> \<open>Machine\<close>: the calls and interrupts of the kernel as a step relation on configurations, its invariant
    \<open>minv\<close> and the facts it gives.  \<open>StepsTask\<close>, \<open>StepsTimer\<close>, \<open>StepsIpc\<close>: every step keeps the invariant (tasks and
    signals, timers, semaphores and ports).  \<open>Reach\<close>: the reachable configurations.

  \<^bold>\<open>Invariants.\<close>  \<open>kern s L r rs ws\<close>: the lists are well formed; \<open>r\<close> runs, \<open>rs\<close> are ready and sorted by
  priority, \<open>ws\<close> wait and none of them has a signal it waits for; every stack pointer is inside its
  stack; the mask agrees with the nesting count; and unless a switch is pending no ready task is
  more urgent than the running one.  \<open>alive\<close> forgets which tasks are ready and which wait, for components that
  only send signals.  \<open>port_ok\<close>, \<open>sem_ok\<close> and \<open>timers_ok\<close> add a port, a semaphore or the timer queue.
  \<open>minv\<close> is the invariant of the machine.

  \<^bold>\<open>What is shown.\<close>  For every operation of the kernel: that it returns, what it returns, that it
  keeps the invariant, and what else it changes, on each branch.  From these: enqueueing and
  removing at the head is a stable sort by priority; a sent signal wakes the task that waits for it, and its call returns
  with it; equal priorities take turns; a task finds its registers and stack as it left them; messages arrive once and
  in order, and a post to a mailbox ends the fetch that waits there, with the oldest message; semaphores never
  grant more than their count, at once or by a release, and serve the queued requests in order, and a release at a count below -1 ends the wait of the oldest waiter; timers fire at their tick and delays end when they should; the reset handler
  enters the init task on its own stack, and start-up establishes the invariant; the interrupt priorities let no handler
  interrupt a timer interrupt and start the context switch only in thread mode; a periodic task of the application keeps its phase until the clock wraps; a thread
  created by lwIP is entered at once; the list test of the repository passes from reset.  For all sequences of calls, interrupts and
  switches from reset: no fault is reached, no wake-up is lost, the lists in memory are
  the abstract queues of the semaphores, ports and timers, and the scheduler's lists hold exactly the tasks whose state says so.
  Where the code does not do what it
  means to, the theorem says what it does: a release at the count -1 wakes nobody, a ready task whose
  priority is changed keeps its place, an aborted timer still counts as added, delays across the
  end of the clock return at once and timeouts across it never come, a timed-out request stays queued,
  and a mailbox signal that outlives its message fails the next fetch.

  \<^bold>\<open>Assumptions.\<close>  A kernel call is atomic with respect to interrupts: the critical
  section covers its accesses, and a pending PendSV is taken after it.  Objects are disjoint from each other and
  from the stacks.  What is read through the null pointer in \<open>task_find\<close> is the state component
  \<open>null_name\<close>.  \<open>user_init\<close> and the parts of lwIP that \<open>sys_arch.c\<close> calls (its allocator and two
  constants) are parameters; addresses of code are in the record \<open>image\<close>.  The calls of the
  application into lwIP and the interrupt controller are parameters too; of the controller, \<open>lib_ok\<close> states
  what its functions do at the priorities 0 and 255 under the priority grouping of reset, and \<open>gpio_lib_ok\<close> and \<open>tim_lib_ok\<close> state the documented effects of the
  functions for pins and timers.  The machine has every operation of the kernel's interface that changes its state, delay timers and alarms among them, under these conditions on
  the callers (\<open>enabled\<close>):
  \<^item> objects that are created are not in use, and the name of a new task is not that of another or what is read through the null pointer;
  \<^item> the stack of a new task is aligned and holds a frame, and the frame that the context switch saves fits in the stack;
  \<^item> critical sections are left as often as they are entered, and nested at most 1000 deep, which fits the \<open>int16_t\<close> that \<open>signal_wait\<close> saves the count in;
  \<^item> the init task does not wait; a task allocates timers and ports only while it has a free signal, and frees only signals that it has allocated;
  \<^item> only the priority of the running task or of a waiting one is changed (the flaw for a ready task is stated apart);
  \<^item> a timer is started by its owner while it is not added, is not aborted a second time, is not started again after it was aborted while queued (the
    flaw is stated apart), and is freed only when it is not queued;
  \<^item> a semaphore starts with a count of at least 0, its count stays in \<open>int32_t\<close>, and a task does not release a semaphore at which one of its own requests is queued, as the code asserts;
    requests have a signal other than 0;
  \<^item> messages are sent, and replied to, while they are on no list, and to ports that exist.

  \<^bold>\<open>Not modelled.\<close>  The peripheral library, a parameter of \<open>Vectors\<close> and \<open>Board\<close>; the copying of
  \<open>.data\<close> and clearing of \<open>.bss\<close> before \<open>platform_pre\<close> (a parameter of \<open>Reset_Handler\<close>); the status register of TIM2 (its bit is an argument of the handler); the idle loop of the init task after
  \<open>user_init\<close>; the registers that the
  processor itself pushes on exception entry (they are
  words of the stack that stay as they are); lwIP itself (not in the repository), those of its options in \<open>lwipopts.h\<close> that only select
  features inside it, and its statistics counters.
\<close>

end
